(* ===== verification/Prelude.thy ===== *)
theory Prelude
  imports Main "HOL-Library.Word" "HOL-Library.AList"
begin

text \<open>
  Shared vocabulary of the development: the machine integers of the Rust sources as words,
  \<open>Result\<close> as a sum type, the library collections as lists, and the generic lemmas on
  lists, association lists and words that the component theories use.

  Conventions. \<open>usize\<close> counters that only ever hold the length of a vector are \<open>nat\<close>;
  every other fixed-width integer of the source is a word of that width, whose arithmetic wraps
  around as the release profile of the workspace does. A point in time (\<open>Instant\<close>) and a
  \<open>Duration\<close> are \<open>nat\<close>: \<open>Instant::duration_since\<close> saturates at zero, which is
  what subtraction on \<open>nat\<close> does. A clock reading \<open>Instant::now()\<close> is an argument
  \<open>now\<close> of the operation that reads the clock.
\<close>

section \<open>Machine integers and results\<close>

type_synonym u8 = "8 word"
type_synonym u16 = "16 word"
type_synonym u32 = "32 word"
type_synonym u64 = "64 word"
type_synonym u128 = "128 word"
type_synonym instant = nat
type_synonym duration = nat

text \<open>\<open>Result<T, E>\<close>: the error is on the left.\<close>

type_synonym ('a, 'e) result = "'e + 'a"

abbreviation Ok :: "'a \<Rightarrow> ('a, 'e) result" where
  "Ok \<equiv> Inr"

abbreviation Err :: "'e \<Rightarrow> ('a, 'e) result" where
  "Err \<equiv> Inl"

text \<open>\<open>x as u32\<close> for a length \<open>x\<close>: truncation to the low bits.\<close>

abbreviation as_u32 :: "nat \<Rightarrow> u32" where
  "as_u32 n \<equiv> word_of_nat n"

text \<open>
  The integer methods of the standard library that the sources use: byte arrays in both
  endiannesses, \<open>overflowing_add\<close> and \<open>leading_zeros\<close>.
\<close>

primrec le_val :: "u8 list \<Rightarrow> nat" where
  "le_val [] = 0"
| "le_val (b # bs) = unat b + 256 * le_val bs"

primrec le_enc :: "nat \<Rightarrow> nat \<Rightarrow> u8 list" where
  "le_enc 0 n = []"
| "le_enc (Suc k) n = word_of_nat (n mod 256) # le_enc k (n div 256)"

definition to_le_bytes :: "'a::len word \<Rightarrow> u8 list" where
  "to_le_bytes w = le_enc (LENGTH('a) div 8) (unat w)"

definition from_le_bytes :: "u8 list \<Rightarrow> 'a::len word" where
  "from_le_bytes bs = word_of_nat (le_val bs)"

definition to_be_bytes :: "'a::len word \<Rightarrow> u8 list" where
  "to_be_bytes w = rev (to_le_bytes w)"

definition from_be_bytes :: "u8 list \<Rightarrow> 'a::len word" where
  "from_be_bytes bs = from_le_bytes (rev bs)"

definition overflowing_add :: "'a::len word \<Rightarrow> 'a word \<Rightarrow> 'a word \<times> bool" where
  "overflowing_add a b = (a + b, 2 ^ LENGTH('a) \<le> unat a + unat b)"

fun bit_length :: "nat \<Rightarrow> nat" where
  "bit_length n = (if n = 0 then 0 else Suc (bit_length (n div 2)))"

declare bit_length.simps [simp del]

definition leading_zeros :: "'a::len word \<Rightarrow> nat" where
  "leading_zeros w = LENGTH('a) - bit_length (unat w)"

section \<open>Collections of the Rust standard library\<close>

text \<open>
  A \<open>HashMap\<close> is the list of its entries in its current iteration order. Rust leaves that
  order unspecified, so no statement about an operation that iterates assumes anything about it:
  the statements quantify over every association list with distinct keys.
\<close>

type_synonym ('k, 'v) hash_map = "('k \<times> 'v) list"

abbreviation hm_get :: "('k, 'v) hash_map \<Rightarrow> 'k \<Rightarrow> 'v option" where
  "hm_get m k \<equiv> map_of m k"

abbreviation hm_insert :: "'k \<Rightarrow> 'v \<Rightarrow> ('k, 'v) hash_map \<Rightarrow> ('k, 'v) hash_map" where
  "hm_insert \<equiv> AList.update"

abbreviation hm_remove :: "'k \<Rightarrow> ('k, 'v) hash_map \<Rightarrow> ('k, 'v) hash_map" where
  "hm_remove \<equiv> AList.delete"

abbreviation hm_keys :: "('k, 'v) hash_map \<Rightarrow> 'k list" where
  "hm_keys m \<equiv> map fst m"

abbreviation hm_contains :: "('k, 'v) hash_map \<Rightarrow> 'k \<Rightarrow> bool" where
  "hm_contains m k \<equiv> map_of m k \<noteq> None"

abbreviation hm_ok :: "('k, 'v) hash_map \<Rightarrow> bool" where
  "hm_ok m \<equiv> distinct (map fst m)"

definition hm_retain :: "('k \<Rightarrow> 'v \<Rightarrow> bool) \<Rightarrow> ('k, 'v) hash_map \<Rightarrow> ('k, 'v) hash_map" where
  "hm_retain P m = filter (\<lambda>(k, v). P k v) m"

text \<open>A \<open>BTreeMap\<close> is the list of its entries in increasing key order.\<close>

type_synonym ('k, 'v) btree_map = "('k \<times> 'v) list"

fun bt_insert :: "'k::linorder \<Rightarrow> 'v \<Rightarrow> ('k, 'v) btree_map \<Rightarrow> ('k, 'v) btree_map" where
  "bt_insert k v [] = [(k, v)]"
| "bt_insert k v ((k', v') # m) =
     (if k < k' then (k, v) # (k', v') # m
      else if k = k' then (k, v) # m
      else (k', v') # bt_insert k v m)"

abbreviation bt_get :: "('k, 'v) btree_map \<Rightarrow> 'k \<Rightarrow> 'v option" where
  "bt_get m k \<equiv> map_of m k"

abbreviation bt_remove :: "'k \<Rightarrow> ('k, 'v) btree_map \<Rightarrow> ('k, 'v) btree_map" where
  "bt_remove \<equiv> AList.delete"

definition bt_ok :: "('k::linorder, 'v) btree_map \<Rightarrow> bool" where
  "bt_ok m \<longleftrightarrow> sorted_wrt (<) (map fst m)"

section \<open>The interface of a map\<close>

text \<open>
  What a client relies on when it keeps its data in a map: the lookup after an insertion and
  after a removal, and the invariant. The lemmas on whole batches of insertions and removals
  are proved once here, for hash maps and tree maps alike.
\<close>

locale map_ops =
  fixes get :: "'m \<Rightarrow> 'k \<Rightarrow> 'v option"
    and ins :: "'k \<Rightarrow> 'v \<Rightarrow> 'm \<Rightarrow> 'm"
    and del :: "'k \<Rightarrow> 'm \<Rightarrow> 'm"
    and ok :: "'m \<Rightarrow> bool"
  assumes get_ins: "ok m \<Longrightarrow> get (ins k v m) k' = (if k' = k then Some v else get m k')"
    and get_del: "ok m \<Longrightarrow> get (del k m) k' = (if k' = k then None else get m k')"
    and ok_ins: "ok m \<Longrightarrow> ok (ins k v m)"
    and ok_del: "ok m \<Longrightarrow> ok (del k m)"
begin

lemma ok_ins_all: "ok m \<Longrightarrow> ok (fold (\<lambda>k. ins k v) ks m)"
  by (induction ks arbitrary: m) (auto intro: ok_ins)

lemma get_ins_all:
  "ok m \<Longrightarrow> get (fold (\<lambda>k. ins k v) ks m) k' = (if k' \<in> set ks then Some v else get m k')"
  by (induction ks arbitrary: m) (auto simp: get_ins ok_ins)

lemma ok_del_all: "ok m \<Longrightarrow> ok (fold del ks m)"
  by (induction ks arbitrary: m) (auto intro: ok_del)

lemma get_del_all:
  "ok m \<Longrightarrow> get (fold del ks m) k' = (if k' \<in> set ks then None else get m k')"
  by (induction ks arbitrary: m) (auto simp: get_del ok_del)

end

interpretation hm: map_ops hm_get hm_insert hm_remove hm_ok
  by unfold_locales (auto simp: update_conv' delete_conv' distinct_update distinct_delete)

lemma bt_insert_get: "map_of (bt_insert k v m) k' = (if k' = k then Some v else map_of m k')"
  by (induction k v m rule: bt_insert.induct) auto

lemma bt_insert_keys: "fst ` set (bt_insert k v m) = insert k (fst ` set m)"
  by (induction k v m rule: bt_insert.induct) auto

lemma bt_insert_ok: "bt_ok m \<Longrightarrow> bt_ok (bt_insert k v m)"
proof (induction k v m rule: bt_insert.induct)
  case (1 k v)
  then show ?case by (simp add: bt_ok_def)
next
  case (2 k v k' v' m)
  have "fst x \<in> insert k (fst ` set m)" if "x \<in> set (bt_insert k v m)" for x
    using that bt_insert_keys [of k v m] by auto
  with 2 show ?case by (fastforce simp: bt_ok_def)
qed

lemma bt_delete_ok: "bt_ok m \<Longrightarrow> bt_ok (bt_remove k m)"
  by (induction m) (auto simp: bt_ok_def AList.delete_eq)

interpretation bt: map_ops bt_get bt_insert bt_remove bt_ok
  by unfold_locales (auto simp: bt_insert_get bt_insert_ok bt_delete_ok delete_conv')

section \<open>Lemmas on association lists\<close>

lemma hm_contains_iff: "hm_contains m k \<longleftrightarrow> k \<in> fst ` set m"
  by (simp add: map_of_eq_None_iff)

lemma hm_keys_remove: "fst ` set (hm_remove k m) = fst ` set m - {k}"
  by (auto simp: AList.delete_eq)

lemma hm_keys_insert: "fst ` set (hm_insert k v m) = insert k (fst ` set m)"
  by (simp add: dom_update)

lemma hm_keys_insert_all: "fst ` set (fold (\<lambda>k. hm_insert k v) ks m) = set ks \<union> fst ` set m"
  by (induction ks arbitrary: m) (auto simp: hm_keys_insert)

lemma hm_keys_remove_all: "fst ` set (fold hm_remove ks m) = fst ` set m - set ks"
  by (induction ks arbitrary: m) (auto simp: hm_keys_remove)

lemma hm_ok_retain: "hm_ok m \<Longrightarrow> hm_ok (hm_retain P m)"
  by (simp add: hm_retain_def distinct_map_filter)

lemma hm_length_remove: "hm_ok m \<Longrightarrow> hm_contains m k \<Longrightarrow> Suc (length (hm_remove k m)) = length m"
  by (induction m) (force simp: map_of_eq_None_iff split: if_splits)+

lemma hm_length_insert:
  "length (hm_insert k v m) = (if hm_contains m k then length m else Suc (length m))"
  by (induction m) auto

text \<open>How many keys satisfy a predicate, after each of the map operations.\<close>

definition hm_count :: "('k \<Rightarrow> bool) \<Rightarrow> ('k, 'v) hash_map \<Rightarrow> nat" where
  "hm_count P m = length (filter P (map fst m))"

lemma hm_count_card: "hm_ok m \<Longrightarrow> hm_count P m = card {k \<in> fst ` set m. P k}"
proof -
  assume "hm_ok m"
  moreover have "set (filter P (map fst m)) = {k \<in> fst ` set m. P k}" by auto
  ultimately show ?thesis unfolding hm_count_def by (metis distinct_card distinct_filter)
qed

lemma hm_count_insert:
  "hm_ok m \<Longrightarrow> hm_count P (hm_insert k v m) \<le> Suc (hm_count P m)"
  "hm_ok m \<Longrightarrow> \<not> P k \<Longrightarrow> hm_count P (hm_insert k v m) = hm_count P m"
proof -
  assume m: "hm_ok m"
  have "{k' \<in> fst ` set (hm_insert k v m). P k'} \<subseteq> insert k {k' \<in> fst ` set m. P k'}"
    by (auto simp: hm_keys_insert)
  then have "card {k' \<in> fst ` set (hm_insert k v m). P k'} \<le> card (insert k {k' \<in> fst ` set m. P k'})"
    by (intro card_mono) simp_all
  also have "\<dots> \<le> Suc (card {k' \<in> fst ` set m. P k'})" by (simp add: card_insert_if)
  finally show "hm_count P (hm_insert k v m) \<le> Suc (hm_count P m)"
    unfolding hm_count_card [OF m] hm_count_card [OF hm.ok_ins [OF m]] .
  assume "\<not> P k"
  then have "{k' \<in> fst ` set (hm_insert k v m). P k'} = {k' \<in> fst ` set m. P k'}"
    by (auto simp: hm_keys_insert)
  then show "hm_count P (hm_insert k v m) = hm_count P m"
    unfolding hm_count_card [OF m] hm_count_card [OF hm.ok_ins [OF m]] by (rule arg_cong)
qed

lemma hm_count_remove:
  assumes "hm_ok m"
  shows "hm_count P (hm_remove k m) \<le> hm_count P m"
    and "hm_contains m k \<Longrightarrow> P k \<Longrightarrow> Suc (hm_count P (hm_remove k m)) = hm_count P m"
proof -
  have eq: "{k' \<in> fst ` set (hm_remove k m). P k'} = {k' \<in> fst ` set m. P k'} - {k}"
    by (auto simp: hm_keys_remove)
  show "hm_count P (hm_remove k m) \<le> hm_count P m"
    unfolding hm_count_card [OF assms] hm_count_card [OF hm.ok_del [OF assms]] eq
    by (intro card_mono) auto
  assume "hm_contains m k" and "P k"
  then have "k \<in> {k' \<in> fst ` set m. P k'}" using hm_contains_iff [of m k] by simp
  then have "Suc (card ({k' \<in> fst ` set m. P k'} - {k})) = card {k' \<in> fst ` set m. P k'}"
    by (intro card_Suc_Diff1) simp_all
  then show "Suc (hm_count P (hm_remove k m)) = hm_count P m"
    unfolding hm_count_card [OF assms] hm_count_card [OF hm.ok_del [OF assms]] eq .
qed

lemma hm_count_retain: "hm_count P (hm_retain Q m) \<le> hm_count P m"
  by (induction m) (auto simp: hm_count_def hm_retain_def)

lemma hm_retain_get: "hm_ok m \<Longrightarrow> hm_get (hm_retain P m) k = Some v \<longleftrightarrow> hm_get m k = Some v \<and> P k v"
  unfolding map_of_eq_Some_iff [OF hm_ok_retain] map_of_eq_Some_iff by (simp add: hm_retain_def)

section \<open>Lemmas on bytes and bits\<close>

lemma length_le_enc [simp]: "length (le_enc k n) = k"
  by (induction k arbitrary: n) simp_all

lemma le_val_bound: "le_val bs < 256 ^ length bs"
proof (induction bs)
  case (Cons b bs)
  have "unat b < 256" using unsigned_less [of b] by simp
  with Cons show ?case by simp
qed simp

lemma le_val_le_enc: "le_val (le_enc k n) = n mod 256 ^ k"
  by (induction k arbitrary: n) (simp_all add: mod_mult2_eq take_bit_eq_mod unsigned_of_nat)

lemma le_enc_le_val: "le_enc (length bs) (le_val bs) = bs"
proof (induction bs)
  case (Cons b bs)
  have "unat b < 256" using unsigned_less [of b] by simp
  with Cons show ?case by simp
qed simp

lemma le_val_append: "le_val (xs @ ys) = le_val xs + 256 ^ length xs * le_val ys"
  by (induction xs) (simp_all add: algebra_simps)

lemma from_to_le_bytes_word:
  assumes "8 dvd LENGTH('a)"
  shows "from_le_bytes (to_le_bytes w) = (w :: 'a::len word)"
proof -
  have "(256::nat) ^ (LENGTH('a) div 8) = 2 ^ LENGTH('a)"
    using assms power_mult [of "2::nat" 8 "LENGTH('a) div 8"] by simp
  then show ?thesis
    by (simp add: from_le_bytes_def to_le_bytes_def le_val_le_enc)
qed

lemma to_from_le_bytes_word:
  assumes "8 dvd LENGTH('a)" and "length bs = LENGTH('a) div 8"
  shows "to_le_bytes (from_le_bytes bs :: 'a::len word) = bs"
proof -
  have "(256::nat) ^ (LENGTH('a) div 8) = 2 ^ LENGTH('a)"
    using assms(1) power_mult [of "2::nat" 8 "LENGTH('a) div 8"] by simp
  then have "le_val bs < 2 ^ LENGTH('a)" using le_val_bound [of bs] assms(2) by simp
  then have "unat (word_of_nat (le_val bs) :: 'a word) = le_val bs"
    by (simp add: unsigned_of_nat take_bit_eq_mod)
  then show ?thesis
    using le_enc_le_val [of bs] assms(2) by (simp add: from_le_bytes_def to_le_bytes_def)
qed

lemma bit_length_upper: "n < 2 ^ bit_length n"
proof (induction n rule: bit_length.induct)
  case (1 n)
  then show ?case by (cases "n = 0") (auto simp: bit_length.simps [of n])
qed

lemma bit_length_lower: "n \<noteq> 0 \<Longrightarrow> 2 ^ (bit_length n - 1) \<le> n"
proof (induction n rule: bit_length.induct)
  case (1 n)
  show ?case
  proof (cases "n div 2 = 0")
    case True
    with 1 have "n = 1" by arith
    then show ?thesis by (simp add: bit_length.simps)
  next
    case False
    with 1 have IH: "2 ^ (bit_length (n div 2) - 1) \<le> n div 2" by simp
    have "bit_length (n div 2) \<noteq> 0" using False by (simp add: bit_length.simps)
    then have "(2::nat) ^ bit_length (n div 2) = 2 * 2 ^ (bit_length (n div 2) - 1)"
      by (cases "bit_length (n div 2)") auto
    with IH 1(2) show ?thesis by (simp add: bit_length.simps [of n])
  qed
qed

lemma bit_length_zero_iff [simp]: "bit_length n = 0 \<longleftrightarrow> n = 0"
  by (subst bit_length.simps) simp

lemma bit_length_le_iff: "bit_length n \<le> k \<longleftrightarrow> n < 2 ^ k"
proof
  assume "bit_length n \<le> k"
  then have "(2::nat) ^ bit_length n \<le> 2 ^ k" by simp
  with bit_length_upper [of n] show "n < 2 ^ k" by linarith
next
  assume n: "n < 2 ^ k"
  show "bit_length n \<le> k"
  proof (rule ccontr)
    assume k: "\<not> bit_length n \<le> k"
    then have "bit_length n \<noteq> 0" by linarith
    then have "n \<noteq> 0" by simp
    then have "2 ^ (bit_length n - 1) \<le> n" by (rule bit_length_lower)
    moreover from k have "(2::nat) ^ k \<le> 2 ^ (bit_length n - 1)" by simp
    ultimately show False using n by linarith
  qed
qed

end
