(* ===== verification/U256_Arith.thy ===== *)
theory U256_Arith
  imports Prelude
begin

unbundle bit_operations_syntax

text \<open>
  The 256-bit integer of the proof-of-work code, \<open>struct U256(u128, u128)\<close> of
  \<open>src/dash/src/pow.rs\<close>, with the arithmetic the source writes out on its two halves:
  addition and subtraction with overflow flags, multiplication by a \<open>u64\<close> and in full,
  long division, shifts, bit length and \<open>inverse\<close>. The lemmas show what each operation
  computes on the number \<open>u256_val x\<close> the two halves stand for. Shift amounts and bit
  counts, which are \<open>u32\<close> in the source and never exceed a few thousand, are \<open>nat\<close>.
\<close>

section \<open>Data and order\<close>

datatype u256 = U256 (u_hi: u128) (u_lo: u128)

definition u256_MAX :: u256 where
  "u256_MAX = U256 (- 1) (- 1)"

definition u256_ZERO :: u256 where
  "u256_ZERO = U256 0 0"

definition u256_ONE :: u256 where
  "u256_ONE = U256 0 1"

text \<open>The derived order compares the high halves first.\<close>

instantiation u256 :: linorder
begin

definition less_eq_u256 :: "u256 \<Rightarrow> u256 \<Rightarrow> bool" where
  "less_eq_u256 x y \<longleftrightarrow> u_hi x < u_hi y \<or> u_hi x = u_hi y \<and> u_lo x \<le> u_lo y"

definition less_u256 :: "u256 \<Rightarrow> u256 \<Rightarrow> bool" where
  "less_u256 x y \<longleftrightarrow> u_hi x < u_hi y \<or> u_hi x = u_hi y \<and> u_lo x < u_lo y"

instance
  by standard (auto simp: less_eq_u256_def less_u256_def u256.expand)

end

section \<open>Conversions\<close>

definition split_in_half :: "u8 list \<Rightarrow> u8 list \<times> u8 list" where
  "split_in_half a = (take 16 a, drop 16 a)"

definition u256_from_be_bytes :: "u8 list \<Rightarrow> u256" where
  "u256_from_be_bytes a =
     (let (high, low) = split_in_half a in U256 (from_be_bytes high) (from_be_bytes low))"

definition u256_from_le_bytes :: "u8 list \<Rightarrow> u256" where
  "u256_from_le_bytes a =
     (let (high, low) = split_in_half a in U256 (from_le_bytes low) (from_le_bytes high))"

definition u256_to_be_bytes :: "u256 \<Rightarrow> u8 list" where
  "u256_to_be_bytes x = to_be_bytes (u_hi x) @ to_be_bytes (u_lo x)"

definition u256_to_le_bytes :: "u256 \<Rightarrow> u8 list" where
  "u256_to_le_bytes x = to_le_bytes (u_lo x) @ to_le_bytes (u_hi x)"

definition u256_is_zero :: "u256 \<Rightarrow> bool" where
  "u256_is_zero x \<longleftrightarrow> u_hi x = 0 \<and> u_lo x = 0"

definition u256_is_one :: "u256 \<Rightarrow> bool" where
  "u256_is_one x \<longleftrightarrow> u_hi x = 0 \<and> u_lo x = 1"

definition u256_is_max :: "u256 \<Rightarrow> bool" where
  "u256_is_max x \<longleftrightarrow> u_hi x = - 1 \<and> u_lo x = - 1"

definition u256_low_u128 :: "u256 \<Rightarrow> u128" where
  "u256_low_u128 x = u_lo x"

definition u256_low_u64 :: "u256 \<Rightarrow> u64" where
  "u256_low_u64 x = ucast (u256_low_u128 x)"

definition u256_low_u32 :: "u256 \<Rightarrow> u32" where
  "u256_low_u32 x = ucast (u256_low_u128 x)"

text \<open>\<open>U256::from\<close> for the unsigned types that convert into \<open>u128\<close>.\<close>

definition u256_from :: "u128 \<Rightarrow> u256" where
  "u256_from x = U256 0 x"

definition u256_saturating_to_u128 :: "u256 \<Rightarrow> u128" where
  "u256_saturating_to_u128 x = (if x > u256_from (- 1) then - 1 else u256_low_u128 x)"

definition u256_bits :: "u256 \<Rightarrow> nat" where
  "u256_bits x =
     (if u_hi x > 0 then 256 - leading_zeros (u_hi x) else 128 - leading_zeros (u_lo x))"

section \<open>Arithmetic\<close>

definition u256_overflowing_add :: "u256 \<Rightarrow> u256 \<Rightarrow> u256 \<times> bool" where
  "u256_overflowing_add x y =
     (let (high, o1) = overflowing_add (u_hi x) (u_hi y);
          (low, o2) = overflowing_add (u_lo x) (u_lo y) in
      if o2 then let (high', o3) = overflowing_add high 1 in (U256 high' low, o1 \<or> o3)
      else (U256 high low, o1))"

definition u256_wrapping_add :: "u256 \<Rightarrow> u256 \<Rightarrow> u256" where
  "u256_wrapping_add x y = fst (u256_overflowing_add x y)"

definition u256_not :: "u256 \<Rightarrow> u256" where
  "u256_not x = U256 (NOT (u_hi x)) (NOT (u_lo x))"

definition u256_overflowing_sub :: "u256 \<Rightarrow> u256 \<Rightarrow> u256 \<times> bool" where
  "u256_overflowing_sub x y =
     (u256_wrapping_add (u256_wrapping_add x (u256_not y)) u256_ONE, y > x)"

definition u256_wrapping_sub :: "u256 \<Rightarrow> u256 \<Rightarrow> u256" where
  "u256_wrapping_sub x y = fst (u256_overflowing_sub x y)"

definition u256_wrapping_inc :: "u256 \<Rightarrow> u256" where
  "u256_wrapping_inc x =
     (let low = u_lo x + 1 in if low = 0 then U256 (u_hi x + 1) low else U256 (u_hi x) low)"

definition u256_wrapping_shl :: "u256 \<Rightarrow> nat \<Rightarrow> u256" where
  "u256_wrapping_shl x rhs =
     (let shift = rhs mod 256; bit_shift = shift mod 128 in
      if 128 \<le> shift then U256 (push_bit bit_shift (u_lo x)) 0
      else
        U256 (push_bit bit_shift (u_hi x) +
               (if 0 < bit_shift then drop_bit (128 - bit_shift) (u_lo x) else 0))
             (push_bit bit_shift (u_lo x)))"

definition u256_wrapping_shr :: "u256 \<Rightarrow> nat \<Rightarrow> u256" where
  "u256_wrapping_shr x rhs =
     (let shift = rhs mod 256; bit_shift = shift mod 128 in
      if 128 \<le> shift then U256 0 (drop_bit bit_shift (u_hi x))
      else
        U256 (drop_bit bit_shift (u_hi x))
             (drop_bit bit_shift (u_lo x) +
               (if 0 < bit_shift then push_bit (128 - bit_shift) (u_hi x) else 0)))"

text \<open>
  The loop of \<open>mul_u64\<close> over the four 64-bit words, least significant first: the carry
  comes in and the words and the last carry come out.
\<close>

fun mul_u64_loop :: "u64 \<Rightarrow> u128 \<Rightarrow> u64 list \<Rightarrow> u64 list \<times> u128" where
  "mul_u64_loop rhs carry [] = ([], carry)"
| "mul_u64_loop rhs carry (w # ws) =
     (let n = carry + ucast rhs * ucast w;
          (ws', carry') = mul_u64_loop rhs (drop_bit 64 n) ws in
      (ucast n # ws', carry'))"

definition u256_mul_u64 :: "u256 \<Rightarrow> u64 \<Rightarrow> u256 \<times> bool" where
  "u256_mul_u64 x rhs =
     (let split_le = [ucast (u_lo x), ucast (drop_bit 64 (u_lo x)),
                      ucast (u_hi x), ucast (drop_bit 64 (u_hi x))];
          (ws, carry) = mul_u64_loop rhs 0 split_le;
          low = ucast (ws ! 0) OR push_bit 64 (ucast (ws ! 1));
          high = ucast (ws ! 2) OR push_bit 64 (ucast (ws ! 3)) in
      (U256 high low, carry \<noteq> 0))"

text \<open>
  The full multiplication: the product with the three low 64-bit words of \<open>rhs\<close>, each shifted
  into place, and then the product with the highest word, which the source adds unshifted.
\<close>

definition u256_overflowing_mul :: "u256 \<Rightarrow> u256 \<Rightarrow> u256 \<times> bool" where
  "u256_overflowing_mul x rhs =
     (let ret = fold (\<lambda>i ret.
                  let to_mul = u256_low_u64 (u256_wrapping_shr rhs (64 * i));
                      (mul_res, _) = u256_mul_u64 x to_mul in
                  u256_wrapping_add ret (u256_wrapping_shl mul_res (64 * i))) [0, 1, 2] u256_ZERO;
          to_mul = u256_low_u64 (u256_wrapping_shr rhs 192);
          (mul_res, o1) = u256_mul_u64 x to_mul;
          (sum, o2) = u256_overflowing_add ret mul_res in
      (sum, o1 \<or> o2))"

text \<open>\<open>ret[1 - shift / 128] |= 1 << (shift % 128)\<close> on the pair of words \<open>ret\<close>.\<close>

definition set_quotient_bit :: "nat \<Rightarrow> u256 \<Rightarrow> u256" where
  "set_quotient_bit shift ret =
     (if shift div 128 = 0 then U256 (u_hi ret) (u_lo ret OR push_bit (shift mod 128) 1)
      else U256 (u_hi ret OR push_bit (shift mod 128) 1) (u_lo ret))"

fun div_rem_loop :: "nat \<Rightarrow> u256 \<Rightarrow> u256 \<Rightarrow> u256 \<Rightarrow> u256 \<times> u256" where
  "div_rem_loop shift sub_copy shift_copy ret =
     (let (ret', sub_copy') =
            (if sub_copy \<ge> shift_copy
             then (set_quotient_bit shift ret, u256_wrapping_sub sub_copy shift_copy)
             else (ret, sub_copy));
          shift_copy' = u256_wrapping_shr shift_copy 1 in
      if shift = 0 then (ret', sub_copy')
      else div_rem_loop (shift - 1) sub_copy' shift_copy' ret')"

text \<open>\<open>None\<close> is the panic on a zero divisor.\<close>

definition u256_div_rem :: "u256 \<Rightarrow> u256 \<Rightarrow> (u256 \<times> u256) option" where
  "u256_div_rem x rhs =
     (let my_bits = u256_bits x; your_bits = u256_bits rhs in
      if your_bits = 0 then None
      else if my_bits < your_bits then Some (u256_ZERO, x)
      else
        let shift = my_bits - your_bits in
        Some (div_rem_loop shift x (u256_wrapping_shl rhs shift) u256_ZERO))"

definition u256_inverse :: "u256 \<Rightarrow> u256 option" where
  "u256_inverse x =
     (if u256_is_zero x then Some u256_MAX
      else if u256_is_one x then Some u256_MAX
      else if u256_is_max x then Some u256_ONE
      else map_option (\<lambda>(q, r). u256_wrapping_inc q) (u256_div_rem (u256_not x) (u256_wrapping_inc x)))"

declare div_rem_loop.simps [simp del]

section \<open>The number a pair of halves stands for\<close>

text \<open>The base of the two halves, kept folded so that no proof computes with its digits.\<close>

definition B128 :: nat where
  "B128 = 2 ^ 128"

definition u256_val :: "u256 \<Rightarrow> nat" where
  "u256_val x = unat (u_hi x) * B128 + unat (u_lo x)"

lemma B128_pos [simp]: "0 < B128" "B128 \<noteq> 0"
  by (simp_all add: B128_def)

definition B256 :: nat where
  "B256 = B128 * B128"

lemma B256_eq: "B256 = 2 ^ 256"
  by (simp add: B256_def B128_def flip: power_add)

lemma B256_pos [simp]: "0 < B256"
  by (simp add: B256_def)

lemma B128_length: "B128 = 2 ^ LENGTH(128)"
  by (simp add: B128_def)

lemma unat_u128 [simp]: "unat (w :: u128) < B128"
  unfolding B128_length by (rule unsigned_less)

lemma two_digits_less:
  fixes h h' l l' b :: nat
  assumes "l < b" and "l' < b"
  shows "h * b + l < h' * b + l' \<longleftrightarrow> h < h' \<or> h = h' \<and> l < l'"
proof -
  have "h * b + b \<le> h' * b" if "h < h'" for h h' :: nat
    using mult_le_mono1 [of "Suc h" h' b] that by simp
  from this [of h h'] this [of h' h] assms show ?thesis
    by (cases h h' rule: linorder_cases) auto
qed

lemma two_digits_bound:
  fixes h l b :: nat
  assumes "h < b" and "l < b"
  shows "h * b + l < b * b"
  using two_digits_less [of l b 0 h b] assms by simp

lemma u256_val_less: "u256_val x < B256"
  unfolding u256_val_def B256_def by (intro two_digits_bound unat_u128)

lemma u256_val_U256: "u256_val (U256 h l) = unat h * B128 + unat l"
  by (simp add: u256_val_def)

lemma u256_val_less_iff: "x < y \<longleftrightarrow> u256_val x < u256_val y"
  by (simp add: less_u256_def u256_val_def two_digits_less word_less_nat_alt word_unat_eq_iff)

lemma u256_val_le_iff: "x \<le> y \<longleftrightarrow> u256_val x \<le> u256_val y"
  using u256_val_less_iff [of y x] by auto

lemma u256_val_inject: "u256_val x = u256_val y \<longleftrightarrow> x = y"
  by (metis antisym u256_val_le_iff order_refl)

lemma u256_val_ZERO [simp]: "u256_val u256_ZERO = 0"
  by (simp add: u256_val_def u256_ZERO_def)

lemma u256_val_ONE [simp]: "u256_val u256_ONE = 1"
  by (simp add: u256_val_def u256_ONE_def)

lemma unat_u128_max: "unat (- 1 :: u128) = B128 - 1"
  unfolding B128_length by (rule unsigned_minus_1_eq_mask [unfolded mask_eq_exp_minus_1])

lemma two_digits_max: "(b - 1) * b + (b - 1) = b * b - (1::nat)"
  by (cases b) simp_all

lemma u256_val_MAX: "u256_val u256_MAX = B256 - 1"
  using two_digits_max [of B128] by (simp add: u256_val_def u256_MAX_def unat_u128_max B256_def)

lemma overflowing_add_word:
  fixes a b :: "'a::len word"
  assumes "overflowing_add a b = (r, ov)"
  shows "unat r + (if ov then 2 ^ LENGTH('a) else 0) = unat a + unat b"
  using assms by (auto simp: overflowing_add_def unat_plus_if')

lemmas overflowing_add_u128 = overflowing_add_word [where 'a = 128, folded B128_length]

lemma u256_overflowing_add_val:
  assumes "u256_overflowing_add x y = (r, ov)"
  shows "u256_val r + (if ov then B256 else 0) = u256_val x + u256_val y"
proof -
  obtain high o1 low o2 high' o3 where
    h: "overflowing_add (u_hi x) (u_hi y) = (high, o1)" and
    l: "overflowing_add (u_lo x) (u_lo y) = (low, o2)" and
    c: "overflowing_add high 1 = (high', o3)"
    by (metis surj_pair)
  have scale: "a * B128 + (if ov then B128 * B128 else 0) = b * B128 + c * B128"
    if "a + (if ov then B128 else 0) = b + c" for a b c ov
    using arg_cong [OF that, of "\<lambda>n. n * B128"] by (simp add: add_mult_distrib split: if_splits)
  note hv = scale [OF overflowing_add_u128 [OF h]]
  note cv = scale [OF overflowing_add_u128 [OF c]]
  have no_both: "\<not> (o1 \<and> o3)"
  proof
    assume "o1 \<and> o3"
    then have "unat high + B128 = unat (u_hi x) + unat (u_hi y)" "unat high' + B128 = unat high + 1"
      using overflowing_add_u128 [OF h] overflowing_add_u128 [OF c] by simp_all
    with unat_u128 [of "u_hi x"] unat_u128 [of "u_hi y"] show False by linarith
  qed
  show ?thesis
  proof (cases o2)
    case True
    then have "r = U256 high' low" and "ov \<longleftrightarrow> o1 \<or> o3"
      using assms by (simp_all add: u256_overflowing_add_def h l c)
    with True hv cv no_both overflowing_add_u128 [OF l] show ?thesis
      by (cases o1; cases o3) (simp_all add: u256_val_def B256_def)
  next
    case False
    then have "r = U256 high low" and "ov \<longleftrightarrow> o1"
      using assms by (simp_all add: u256_overflowing_add_def h l)
    with False hv overflowing_add_u128 [OF l] show ?thesis
      by (cases o1) (simp_all add: u256_val_def B256_def)
  qed
qed

lemma add_flag_mod:
  fixes r s b :: nat
  assumes "r + (if ov then b else 0) = s" and "r < b"
  shows "r = s mod b" and "s < 2 * b \<Longrightarrow> ov \<longleftrightarrow> b \<le> s"
  using assms by (auto split: if_splits)

lemma u256_wrapping_add_val: "u256_val (u256_wrapping_add x y) = (u256_val x + u256_val y) mod B256"
  using add_flag_mod(1) [OF u256_overflowing_add_val, of x y "u256_wrapping_add x y"
      "snd (u256_overflowing_add x y)"] u256_val_less [of "u256_wrapping_add x y"]
  by (simp add: u256_wrapping_add_def)

lemma u256_overflowing_add_flag:
  "snd (u256_overflowing_add x y) \<longleftrightarrow> B256 \<le> u256_val x + u256_val y"
  using add_flag_mod(2) [OF u256_overflowing_add_val, of x y "u256_wrapping_add x y"
      "snd (u256_overflowing_add x y)"] u256_val_less [of "u256_wrapping_add x y"]
    u256_val_less [of x] u256_val_less [of y]
  by (simp add: u256_wrapping_add_def)

lemma unat_not_u128: "unat (NOT w :: u128) = B128 - 1 - unat w"
proof -
  have "NOT w = - 1 - w" by (simp add: not_eq_complement)
  then show ?thesis by (simp add: unat_sub word_n1_ge unat_u128_max)
qed

lemma two_digits_complement:
  fixes h l b :: nat
  assumes "h < b" and "l < b"
  shows "(b - 1 - h) * b + (b - 1 - l) + (h * b + l) = b * b - 1"
proof -
  have "(b - 1 - h) * b + h * b = (b - 1) * b"
    using assms(1) by (simp flip: add_mult_distrib)
  with assms(2) two_digits_max [of b] show ?thesis by simp
qed

lemma u256_not_val: "u256_val (u256_not x) = B256 - 1 - u256_val x"
  using two_digits_complement [of "unat (u_hi x)" B128 "unat (u_lo x)"]
  by (simp add: u256_val_def u256_not_def unat_not_u128 B256_def)

lemma u256_wrapping_sub_val:
  assumes "u256_val y \<le> u256_val x"
  shows "u256_val (u256_wrapping_sub x y) = u256_val x - u256_val y"
proof -
  have y: "u256_val y < B256" and x: "u256_val x < B256" by (rule u256_val_less)+
  have "u256_val (u256_wrapping_sub x y) =
      ((u256_val x + (B256 - 1 - u256_val y)) mod B256 + 1) mod B256"
    by (simp add: u256_wrapping_sub_def u256_overflowing_sub_def u256_wrapping_add_val u256_not_val)
  also have "\<dots> = (u256_val x + (B256 - 1 - u256_val y) + 1) mod B256"
    by (rule mod_add_left_eq)
  also have "u256_val x + (B256 - 1 - u256_val y) + 1 = u256_val x - u256_val y + B256"
    using y assms by simp
  finally show ?thesis using x by (simp add: less_imp_diff_less)
qed

lemma u256_wrapping_inc_val: "u256_val (u256_wrapping_inc x) = (u256_val x + 1) mod B256"
proof -
  have "u256_wrapping_inc x = u256_wrapping_add x u256_ONE"
  proof (cases "u_lo x + 1 = 0")
    case True
    then have "u_lo x = - 1" by (simp add: eq_neg_iff_add_eq_0)
    then show ?thesis
      by (simp add: u256_wrapping_inc_def u256_wrapping_add_def u256_overflowing_add_def
          overflowing_add_def u256_ONE_def unat_u128_max B128_def)
  next
    case False
    then have "u_lo x \<noteq> - 1" by auto
    then have "unat (u_lo x) \<noteq> B128 - 1"
      unfolding unat_u128_max [symmetric] by (simp only: word_unat_eq_iff not_False_eq_True)
    with False unat_u128 [of "u_lo x"] have "\<not> B128 \<le> unat (u_lo x) + 1" by linarith
    with False show ?thesis
      by (simp add: u256_wrapping_inc_def u256_wrapping_add_def u256_overflowing_add_def
          overflowing_add_def u256_ONE_def B128_def)
  qed
  then show ?thesis by (simp add: u256_wrapping_add_val)
qed

lemma unat_push_bit_u128: "unat (push_bit k w :: u128) = unat w * 2 ^ k mod B128"
  unfolding B128_length by (subst unsigned_push_bit_eq) (simp only: take_bit_eq_mod push_bit_eq_mult)

lemma unat_drop_bit_u128: "unat (drop_bit k w :: u128) = unat w div 2 ^ k"
  by (subst unat_drop_bit_eq) (simp only: drop_bit_eq_div)

lemma B128_split: "k \<le> 128 \<Longrightarrow> B128 = 2 ^ k * 2 ^ (128 - k)"
  unfolding B128_def by (simp only: le_add_diff_inverse flip: power_add)

lemma unat_add_u128: "unat a + unat b < B128 \<Longrightarrow> unat (a + b :: u128) = unat a + unat b"
  unfolding B128_length by (rule unat_add_lem [THEN iffD1])

lemma shl_low_part:
  fixes h l :: nat
  assumes "0 < k" and "k < 128" and "l < B128"
  shows "h * 2 ^ k mod B128 + l div 2 ^ (128 - k) < B128"
    and "(h * 2 ^ k mod B128 + l div 2 ^ (128 - k)) * B128 + l * 2 ^ k mod B128 =
           (h * B128 + l) * 2 ^ k mod B256"
proof -
  note split = B128_split [of k]
  have k: "B128 = 2 ^ k * 2 ^ (128 - k)" using split assms by simp
  have dl: "l div 2 ^ (128 - k) = l * 2 ^ k div B128"
    unfolding k by (simp add: mult.commute)
  have "l div 2 ^ (128 - k) < 2 ^ k"
    using assms(3) unfolding k by (simp add: less_mult_imp_div_less)
  moreover have "h * 2 ^ k mod B128 = (h mod 2 ^ (128 - k)) * 2 ^ k"
    unfolding k by (simp add: mult.commute mod_mult_mult1)
  moreover have "h mod 2 ^ (128 - k) + 1 \<le> 2 ^ (128 - k)" by (simp add: Suc_leI)
  then have "(h mod 2 ^ (128 - k)) * 2 ^ k + 2 ^ k \<le> B128"
    using mult_le_mono1 [of "h mod 2 ^ (128 - k) + 1" "2 ^ (128 - k)" "2 ^ k"]
    unfolding k by (simp add: mult.commute)
  ultimately show le: "h * 2 ^ k mod B128 + l div 2 ^ (128 - k) < B128" by linarith
  have "(h * 2 ^ k mod B128 + l div 2 ^ (128 - k)) * B128 + l * 2 ^ k mod B128 =
      (h * 2 ^ k mod B128) * B128 + l * 2 ^ k"
    unfolding dl by (simp add: add_mult_distrib div_mult_mod_eq)
  also have "(h * 2 ^ k mod B128) * B128 = (h * 2 ^ k * B128) mod B256"
    by (simp add: B256_def mod_mult_mult2)
  finally have eq: "(h * 2 ^ k mod B128 + l div 2 ^ (128 - k)) * B128 + l * 2 ^ k mod B128 =
      (h * 2 ^ k * B128) mod B256 + l * 2 ^ k" .
  have "(h * 2 ^ k mod B128 + l div 2 ^ (128 - k)) * B128 + l * 2 ^ k mod B128 < B256"
    unfolding B256_def by (intro two_digits_bound le) simp
  then have "(h * 2 ^ k * B128) mod B256 + l * 2 ^ k < B256" unfolding eq .
  then have "(h * 2 ^ k * B128) mod B256 + l * 2 ^ k = (h * 2 ^ k * B128 + l * 2 ^ k) mod B256"
    by (metis mod_add_left_eq mod_less)
  with eq show "(h * 2 ^ k mod B128 + l div 2 ^ (128 - k)) * B128 + l * 2 ^ k mod B128 =
           (h * B128 + l) * 2 ^ k mod B256"
    by (simp add: algebra_simps)
qed

lemma u256_wrapping_shl_val:
  "u256_val (u256_wrapping_shl x s) = u256_val x * 2 ^ (s mod 256) mod B256"
proof -
  define h l t where "h = unat (u_hi x)" and "l = unat (u_lo x)" and "t = s mod 256"
  have l: "l < B128" and t: "t < 256" by (simp_all add: l_def t_def)
  show ?thesis
  proof (cases "128 \<le> t")
    case True
    define k where "k = t - 128"
    with True t have k: "t mod 128 = k" "t = 128 + k" by (simp_all add: mod_if)
    have "u256_val (u256_wrapping_shl x s) = (l * 2 ^ k mod B128) * B128"
      using True k
      by (simp add: u256_wrapping_shl_def u256_val_def unat_push_bit_u128 Let_def l_def flip: t_def)
    also have "\<dots> = (l * 2 ^ k * B128) mod B256"
      by (simp add: B256_def mod_mult_mult2)
    also have "\<dots> = (l * 2 ^ k * B128 + h * 2 ^ k * B256) mod B256" by simp
    also have "l * 2 ^ k * B128 + h * 2 ^ k * B256 = (h * B128 + l) * 2 ^ t"
      unfolding k(2) power_add B256_def B128_def [symmetric]
      by (simp add: algebra_simps)
    finally show ?thesis by (simp add: u256_val_def h_def l_def t_def)
  next
    case False
    then have t: "t mod 128 = t" by simp
    show ?thesis
    proof (cases "t = 0")
      case True
      then show ?thesis
        using u256_val_less [of x]
        by (simp add: u256_wrapping_shl_def u256_val_def Let_def flip: t_def)
    next
      case pos: False
      note low = shl_low_part [of t l h, OF _ _ l]
      have "unat (push_bit t (u_hi x) + drop_bit (128 - t) (u_lo x)) =
          h * 2 ^ t mod B128 + l div 2 ^ (128 - t)"
        using low(1) pos False
        by (subst unat_add_u128) (simp_all add: unat_push_bit_u128 unat_drop_bit_u128 h_def l_def)
      then show ?thesis
        using low(2) pos False t
        by (simp add: u256_wrapping_shl_def u256_val_def Let_def unat_push_bit_u128 h_def l_def
            flip: t_def)
    qed
  qed
qed

lemma shr_low_part:
  fixes h l :: nat
  assumes "0 < k" and "k < 128" and "l < B128"
  shows "l div 2 ^ k + h * 2 ^ (128 - k) mod B128 < B128"
    and "(h div 2 ^ k) * B128 + (l div 2 ^ k + h * 2 ^ (128 - k) mod B128) =
           (h * B128 + l) div 2 ^ k"
proof -
  have k: "B128 = 2 ^ k * 2 ^ (128 - k)" using B128_split [of k] assms by simp
  have hm: "h * 2 ^ (128 - k) mod B128 = (h mod 2 ^ k) * 2 ^ (128 - k)"
    unfolding k by (simp add: mod_mult_mult2)
  have "l div 2 ^ k < 2 ^ (128 - k)"
    using assms(3) unfolding k by (simp add: less_mult_imp_div_less mult.commute)
  moreover have "(h mod 2 ^ k) * 2 ^ (128 - k) + 2 ^ (128 - k) \<le> B128"
    using mult_le_mono1 [of "h mod 2 ^ k + 1" "2 ^ k" "2 ^ (128 - k)"]
    unfolding k by (simp add: Suc_leI)
  ultimately show "l div 2 ^ k + h * 2 ^ (128 - k) mod B128 < B128" unfolding hm by linarith
  have "h * B128 + l = l + 2 ^ k * (h * 2 ^ (128 - k))" unfolding k by (simp only: ac_simps)
  then have "(h * B128 + l) div 2 ^ k = h * 2 ^ (128 - k) + l div 2 ^ k"
    by (simp only:) simp
  moreover have "h * 2 ^ (128 - k) = (h div 2 ^ k) * B128 + (h mod 2 ^ k) * 2 ^ (128 - k)"
    unfolding k by (simp only: mult.assoc [symmetric] add_mult_distrib [symmetric] div_mult_mod_eq)
  ultimately show "(h div 2 ^ k) * B128 + (l div 2 ^ k + h * 2 ^ (128 - k) mod B128) =
           (h * B128 + l) div 2 ^ k"
    unfolding hm by simp
qed

lemma u256_wrapping_shr_val: "u256_val (u256_wrapping_shr x s) = u256_val x div 2 ^ (s mod 256)"
proof -
  define h l t where "h = unat (u_hi x)" and "l = unat (u_lo x)" and "t = s mod 256"
  have l: "l < B128" and t: "t < 256" by (simp_all add: l_def t_def)
  show ?thesis
  proof (cases "128 \<le> t")
    case True
    define k where "k = t - 128"
    with True t have k: "t mod 128 = k" "t = 128 + k" by (simp_all add: mod_if)
    have "(h * B128 + l) div 2 ^ t = h div 2 ^ k"
      using l unfolding k(2) power_add B128_def [symmetric] by (simp add: div_mult2_eq)
    then show ?thesis
      using True k
      by (simp add: u256_wrapping_shr_def u256_val_def unat_drop_bit_u128 Let_def h_def l_def
          flip: t_def)
  next
    case False
    then have t: "t mod 128 = t" by simp
    show ?thesis
    proof (cases "t = 0")
      case True
      then show ?thesis by (simp add: u256_wrapping_shr_def u256_val_def Let_def flip: t_def)
    next
      case pos: False
      note low = shr_low_part [of t l h, OF _ _ l]
      have "unat (drop_bit t (u_lo x) + push_bit (128 - t) (u_hi x)) =
          l div 2 ^ t + h * 2 ^ (128 - t) mod B128"
        using low(1) pos False
        by (subst unat_add_u128) (simp_all add: unat_push_bit_u128 unat_drop_bit_u128 h_def l_def)
      then show ?thesis
        using low(2) pos False t
        by (simp add: u256_wrapping_shr_def u256_val_def Let_def unat_drop_bit_u128 h_def l_def
            flip: t_def)
    qed
  qed
qed

lemma bit_length_unique: "2 ^ k \<le> n \<Longrightarrow> n < 2 ^ Suc k \<Longrightarrow> bit_length n = Suc k"
  using bit_length_le_iff [of n k] bit_length_le_iff [of n "Suc k"] by linarith

lemma bit_length_u128: "bit_length (unat (w :: u128)) \<le> 128"
  using unsigned_less [of w] by (simp add: bit_length_le_iff)

lemma leading_zeros_u128: "128 - leading_zeros (w :: u128) = bit_length (unat w)"
  using bit_length_u128 [of w] by (simp add: leading_zeros_def)

lemma u256_bits_val: "u256_bits x = bit_length (u256_val x)"
proof (cases "u_hi x = 0")
  case True
  then show ?thesis by (simp add: u256_bits_def u256_val_def leading_zeros_u128)
next
  case False
  define h l where "h = unat (u_hi x)" and "l = unat (u_lo x)"
  from False have h0: "h \<noteq> 0" by (simp add: h_def unat_eq_0)
  then obtain k where k: "bit_length h = Suc k" by (cases "bit_length h") auto
  have lo: "2 ^ k \<le> h" using bit_length_lower [OF h0] k by simp
  have up: "h + 1 \<le> 2 ^ Suc k" using bit_length_upper [of h] k by simp
  have "bit_length (h * B128 + l) = Suc (128 + k)"
  proof (rule bit_length_unique)
    show "2 ^ (128 + k) \<le> h * B128 + l"
      using mult_le_mono1 [OF lo, of B128] unfolding power_add B128_def [symmetric]
      by (simp add: mult.commute trans_le_add1)
    have "l < B128" by (simp add: l_def)
    then show "h * B128 + l < 2 ^ Suc (128 + k)"
      using mult_le_mono1 [OF up, of B128]
      unfolding add_Suc_right [symmetric] power_add B128_def [symmetric]
      by (simp add: mult.commute)
  qed
  moreover have "256 - leading_zeros (u_hi x) = 128 + bit_length h"
    using bit_length_u128 [of "u_hi x"] by (simp add: leading_zeros_def h_def)
  ultimately show ?thesis
    using False k by (simp add: u256_bits_def u256_val_def h_def l_def word_gt_0)
qed

section \<open>Multiplication\<close>

text \<open>The value of a list of 64-bit words, least significant first.\<close>

primrec ws_val :: "u64 list \<Rightarrow> nat" where
  "ws_val [] = 0"
| "ws_val (w # ws) = unat w + 2 ^ 64 * ws_val ws"

lemma unat_u64: "unat (w :: u64) < 2 ^ 64"
  using unsigned_less [of w] by simp

lemma ucast_u64_u128: "unat (ucast (w :: u64) :: u128) = unat w"
  using unat_u64 [of w] by (simp add: unsigned_ucast_eq take_bit_eq_mod)

lemma mul_u64_no_overflow:
  fixes c r w :: nat
  assumes "c < 2 ^ 64" and "r < 2 ^ 64" and "w < 2 ^ 64"
  shows "c + r * w < 2 ^ 128"
proof -
  have "r * w \<le> (2 ^ 64 - 1) * (2 ^ 64 - 1)"
    using assms by (intro mult_le_mono) simp_all
  with assms(1) show ?thesis by simp
qed

lemma mul_u64_loop_val:
  assumes "unat carry < 2 ^ 64" and "mul_u64_loop rhs carry ws = (ws', carry')"
  shows "length ws' = length ws \<and> unat carry' < 2 ^ 64 \<and>
    ws_val ws' + 2 ^ (64 * length ws) * unat carry' = unat carry + unat rhs * ws_val ws"
  using assms
proof (induction ws arbitrary: carry ws')
  case Nil
  then show ?case by simp
next
  case (Cons w ws)
  define n where "n = carry + ucast rhs * ucast w"
  obtain us where us: "mul_u64_loop rhs (drop_bit 64 n) ws = (us, carry')" and ws': "ws' = ucast n # us"
    using Cons.prems(2) by (auto simp: Let_def n_def split: prod.splits)
  have bound: "unat carry + unat rhs * unat w < 2 ^ 128"
    using Cons.prems(1) by (intro mul_u64_no_overflow) (simp_all add: unat_u64 del: power_numeral)
  have n: "unat n = unat carry + unat rhs * unat w"
    using bound unfolding n_def
    by (subst unat_add_lem [THEN iffD1]; (subst unat_mult_lem [THEN iffD1])?)
      (simp_all add: ucast_u64_u128)
  have c: "unat (drop_bit 64 n) = unat n div 2 ^ 64"
    by (subst unat_drop_bit_eq) (simp only: drop_bit_eq_div)
  have "unat (drop_bit 64 n) < 2 ^ 64"
    using bound unfolding c n by (simp add: less_mult_imp_div_less)
  from Cons.IH [OF this us] have IH: "length us = length ws" "unat carry' < 2 ^ 64"
    "ws_val us + 2 ^ (64 * length ws) * unat carry' = unat n div 2 ^ 64 + unat rhs * ws_val ws"
    by (simp_all add: c)
  have low: "unat (ucast n :: u64) = unat n mod 2 ^ 64"
    by (simp add: unsigned_ucast_eq take_bit_eq_mod)
  have "ws_val ws' + 2 ^ (64 * length (w # ws)) * unat carry' =
      unat n mod 2 ^ 64 + 2 ^ 64 * (ws_val us + 2 ^ (64 * length ws) * unat carry')"
    by (simp add: ws' low power_add algebra_simps)
  also have "\<dots> = unat n mod 2 ^ 64 + 2 ^ 64 * (unat n div 2 ^ 64) + 2 ^ 64 * (unat rhs * ws_val ws)"
    unfolding IH(3) by (simp add: algebra_simps)
  also have "\<dots> = unat carry + unat rhs * ws_val (w # ws)"
    unfolding mod_mult_div_eq n by (simp add: algebra_simps)
  finally show ?case using IH by (simp add: ws')
qed

lemma or_push_bit_nat:
  fixes a b :: nat
  assumes "a < 2 ^ k"
  shows "a OR push_bit k b = a + 2 ^ k * b"
proof -
  have "a = take_bit k a" using assms by (simp add: take_bit_nat_eq_self)
  then have "\<not> bit a n \<or> \<not> bit (push_bit k b) n" for n
    by (metis bit_push_bit_iff bit_take_bit_iff not_less)
  then have "a + push_bit k b = a OR push_bit k b" by (rule disjunctive_add)
  then show ?thesis by (simp add: push_bit_eq_mult mult.commute)
qed

lemma join_u64: "unat (ucast (a :: u64) OR push_bit 64 (ucast (b :: u64)) :: u128) = unat a + 2 ^ 64 * unat b"
proof -
  have "unat b * 2 ^ 64 < 2 ^ 128" using unat_u64 [of b] by simp
  then have "unat (push_bit 64 (ucast b) :: u128) = push_bit 64 (unat b)"
    by (subst unsigned_push_bit_eq) (simp add: ucast_u64_u128 take_bit_eq_mod push_bit_eq_mult)
  then show ?thesis
    using or_push_bit_nat [OF unat_u64 [of a], of "unat b"]
    by (simp add: unsigned_or_eq ucast_u64_u128)
qed

lemma split_u64: "unat (ucast (w :: u128) :: u64) + 2 ^ 64 * unat (ucast (drop_bit 64 w) :: u64) = unat w"
proof -
  have "unat w div 2 ^ 64 < 2 ^ 64"
    using unat_u128 [of w] unfolding B128_def by (simp add: less_mult_imp_div_less)
  then have "unat (ucast (drop_bit 64 w) :: u64) = unat w div 2 ^ 64"
    by (subst unsigned_ucast_eq, subst unat_drop_bit_eq) (simp add: take_bit_eq_mod drop_bit_eq_div)
  moreover have "unat (ucast w :: u64) = unat w mod 2 ^ 64"
    by (simp add: unsigned_ucast_eq take_bit_eq_mod)
  ultimately show ?thesis by (simp only: mod_mult_div_eq)
qed

lemma u256_mul_u64_val:
  assumes "u256_mul_u64 x rhs = (r, ov)"
  shows "u256_val r = u256_val x * unat rhs mod B256"
    and "ov \<longleftrightarrow> B256 \<le> u256_val x * unat rhs"
proof -
  let ?split = "[ucast (u_lo x), ucast (drop_bit 64 (u_lo x)), ucast (u_hi x),
    ucast (drop_bit 64 (u_hi x))] :: u64 list"
  obtain ws c where loop: "mul_u64_loop rhs 0 ?split = (ws, c)" by fastforce
  have len: "length ws = 4" and
    val: "ws_val ws + 2 ^ (64 * 4) * unat c = unat rhs * ws_val ?split"
    using mul_u64_loop_val [OF _ loop] by simp_all
  obtain w0 w1 w2 w3 where ws: "ws = [w0, w1, w2, w3]"
    using len by (auto simp: numeral_eq_Suc length_Suc_conv)
  have base: "(2::nat) ^ 64 * 2 ^ 64 = B128" by (simp add: B128_def)
  have four: "ws_val [a, b, c, d] = unat c * B128 + 2 ^ 64 * unat d * B128 + (unat a + 2 ^ 64 * unat b)"
    for a b c d :: u64
    by (simp add: base [symmetric] algebra_simps)
  have split: "ws_val ?split = u256_val x"
    unfolding four u256_val_def
    by (simp only: split_u64 flip: add_mult_distrib)
  have "(U256 (ucast w2 OR push_bit 64 (ucast w3)) (ucast w0 OR push_bit 64 (ucast w1)), c \<noteq> 0) = (r, ov)"
    using assms by (simp add: u256_mul_u64_def loop ws del: mul_u64_loop.simps)
  then have r: "r = U256 (ucast w2 OR push_bit 64 (ucast w3)) (ucast w0 OR push_bit 64 (ucast w1))"
    and ov: "ov \<longleftrightarrow> unat c \<noteq> 0"
    by (simp_all add: unat_eq_0)
  have res: "ws_val ws = u256_val r"
    unfolding ws four r u256_val_U256 join_u64 by (simp add: add_mult_distrib)
  have main: "u256_val r + B256 * unat c = u256_val x * unat rhs"
    using val unfolding res split B256_eq by (simp add: mult.commute)
  then show "u256_val r = u256_val x * unat rhs mod B256"
    using u256_val_less [of r] by (metis mod_less mod_mult_self2)
  show "ov \<longleftrightarrow> B256 \<le> u256_val x * unat rhs"
    unfolding ov main [symmetric] using u256_val_less [of r]
    by (metis add_leD2 le_add2 less_add_same_cancel2 linorder_not_less mult_0_right mult_le_mono2
        nat_mult_1_right not_gr_zero add.right_neutral less_one trans_le_add2)
qed

lemma u256_low_u64_val: "unat (u256_low_u64 y) = u256_val y mod 2 ^ 64"
proof -
  have "unat (u256_low_u64 y) = unat (u_lo y) mod 2 ^ 64"
    by (simp add: u256_low_u64_def u256_low_u128_def unsigned_ucast_eq take_bit_eq_mod)
  also have "\<dots> = (unat (u_hi y) * 2 ^ 64 * 2 ^ 64 + unat (u_lo y)) mod 2 ^ 64"
    by (simp only: mod_mult_self3)
  finally show ?thesis by (simp add: u256_val_def B128_def mult.commute)
qed

section \<open>Division\<close>

lemma u256_low_u32_val: "unat (u256_low_u32 y) = u256_val y mod 2 ^ 32"
proof -
  have "unat (u256_low_u32 y) = unat (u256_low_u64 y) mod 2 ^ 32"
    by (simp add: u256_low_u32_def u256_low_u64_def unsigned_ucast_eq take_bit_eq_mod mod_mod_cancel)
  then show ?thesis by (simp add: u256_low_u64_val mod_mod_cancel)
qed

lemma unat_or_bit:
  fixes w :: u128
  assumes "k < 128" and "2 ^ Suc k dvd unat w"
  shows "unat (w OR push_bit k 1) = unat w + 2 ^ k"
proof -
  obtain m where m: "unat w = 2 ^ Suc k * m" using assms(2) by (auto elim: dvdE)
  have "(2::nat) ^ k < 2 ^ 128" using assms(1) by (intro power_strict_increasing) simp_all
  then have "unat (push_bit k 1 :: u128) = push_bit k 1"
    by (subst unsigned_push_bit_eq) (simp add: take_bit_eq_mod push_bit_eq_mult)
  then have "unat (w OR push_bit k 1) = push_bit k 1 OR push_bit (Suc k) m"
    by (simp add: unsigned_or_eq m push_bit_eq_mult or.commute mult.commute)
  also have "\<dots> = push_bit k 1 + 2 ^ Suc k * m"
    by (rule or_push_bit_nat) (simp add: push_bit_eq_mult)
  finally show ?thesis by (simp add: m push_bit_eq_mult)
qed

lemma set_quotient_bit_val:
  assumes "shift < 256" and "2 ^ Suc shift dvd u256_val ret"
  shows "u256_val (set_quotient_bit shift ret) = u256_val ret + 2 ^ shift"
proof (cases "shift < 128")
  case True
  have "(2::nat) ^ Suc shift dvd B128" unfolding B128_def using True by (intro le_imp_power_dvd) simp
  then have "2 ^ Suc shift dvd unat (u_lo ret)"
    using assms(2) unfolding u256_val_def by (simp add: dvd_add_right_iff)
  then have "unat (u_lo ret OR push_bit shift 1) = unat (u_lo ret) + 2 ^ shift"
    by (rule unat_or_bit [OF True])
  with True show ?thesis
    by (simp add: set_quotient_bit_def u256_val_def)
next
  case False
  define k where "k = shift - 128"
  have k: "shift = 128 + k" "k < 128" using False assms(1) by (simp_all add: k_def)
  have d: "B128 * 2 ^ Suc k dvd unat (u_hi ret) * B128 + unat (u_lo ret)"
    using assms(2) unfolding u256_val_def k add_Suc_right [symmetric] power_add B128_def [symmetric] .
  then have "B128 dvd unat (u_lo ret)"
    by (metis dvd_add_right_iff dvd_mult_left dvd_triv_right)
  then have lo: "unat (u_lo ret) = 0"
    using unat_u128 [of "u_lo ret"] by (meson nat_dvd_not_less neq0_conv)
  with d have "2 ^ Suc k dvd unat (u_hi ret)"
    by (simp add: mult.commute [of _ B128])
  then have "unat (u_hi ret OR push_bit k 1) = unat (u_hi ret) + 2 ^ k"
    by (rule unat_or_bit [OF k(2)])
  moreover have "shift div 128 \<noteq> 0" "shift mod 128 = k" using k by simp_all
  ultimately show ?thesis
    unfolding set_quotient_bit_def u256_val_def k power_add B128_def [symmetric]
    by (simp add: add_mult_distrib)
qed

lemma div_rem_loop_val:
  assumes "shift < 256" and "u256_val shift_copy = d * 2 ^ shift"
    and "u256_val sub_copy < d * 2 ^ Suc shift" and "2 ^ Suc shift dvd u256_val ret"
    and "div_rem_loop shift sub_copy shift_copy ret = (q, r)"
  shows "u256_val q * d + u256_val r = u256_val ret * d + u256_val sub_copy \<and> u256_val r < d"
  using assms
proof (induction shift arbitrary: sub_copy shift_copy ret)
  case 0
  have bit: "u256_val (set_quotient_bit 0 ret) = u256_val ret + 1"
    using set_quotient_bit_val [of 0 ret] 0 by simp
  from 0 show ?case
    unfolding div_rem_loop.simps [of 0]
    by (auto simp: u256_val_le_iff u256_wrapping_sub_val bit algebra_simps split: if_splits)
next
  case (Suc shift)
  let ?shc = "u256_wrapping_shr shift_copy 1"
  have shc: "u256_val ?shc = d * 2 ^ shift"
    using Suc.prems(2) by (simp add: u256_wrapping_shr_val)
  have dv: "2 ^ Suc shift dvd u256_val ret"
    using Suc.prems(4) by (rule dvd_trans [rotated]) (simp add: le_imp_power_dvd)
  show ?case
  proof (cases "shift_copy \<le> sub_copy")
    case True
    let ?ret = "set_quotient_bit (Suc shift) ret" and ?sub = "u256_wrapping_sub sub_copy shift_copy"
    have sub: "u256_val ?sub = u256_val sub_copy - d * 2 ^ Suc shift"
      using True Suc.prems(2) by (simp add: u256_val_le_iff u256_wrapping_sub_val)
    have ret: "u256_val ?ret = u256_val ret + 2 ^ Suc shift"
      using Suc.prems(1,4) by (rule set_quotient_bit_val)
    have le: "d * 2 ^ Suc shift \<le> u256_val sub_copy"
      using True Suc.prems(2) by (simp add: u256_val_le_iff)
    have "div_rem_loop shift ?sub ?shc ?ret = (q, r)"
      using Suc.prems(5) True by (subst (asm) div_rem_loop.simps) (simp add: Let_def)
    moreover have "u256_val ?sub < d * 2 ^ Suc shift" using Suc.prems(3) le sub by simp
    moreover have "2 ^ Suc shift dvd u256_val ?ret" unfolding ret using dv by simp
    ultimately have "u256_val q * d + u256_val r = u256_val ?ret * d + u256_val ?sub \<and> u256_val r < d"
      using Suc.prems(1) shc by (intro Suc.IH) simp_all
    with ret sub le show ?thesis by (simp add: algebra_simps)
  next
    case False
    have "div_rem_loop shift sub_copy ?shc ret = (q, r)"
      using Suc.prems(5) False by (subst (asm) div_rem_loop.simps) (simp add: Let_def)
    moreover have "u256_val sub_copy < d * 2 ^ Suc shift"
      using False Suc.prems(2) by (simp add: u256_val_le_iff)
    ultimately show ?thesis
      using Suc.prems(1) shc dv by (intro Suc.IH) simp_all
  qed
qed

lemma u256_div_rem_val:
  assumes "u256_val y \<noteq> 0"
  shows "\<exists>q r. u256_div_rem x y = Some (q, r) \<and> u256_val q = u256_val x div u256_val y \<and>
    u256_val r = u256_val x mod u256_val y"
proof -
  define X Y where "X = u256_val x" and "Y = u256_val y"
  have Y0: "Y \<noteq> 0" and yb: "bit_length Y \<noteq> 0" using assms by (simp_all add: Y_def)
  show ?thesis
  proof (cases "bit_length X < bit_length Y")
    case True
    have "X < 2 ^ (bit_length Y - 1)"
      using True yb by (simp flip: bit_length_le_iff)
    also have "\<dots> \<le> Y" by (rule bit_length_lower [OF Y0])
    finally have "X < Y" .
    then show ?thesis
      using True yb by (simp add: u256_div_rem_def u256_bits_val X_def Y_def)
  next
    case False
    define s where "s = bit_length X - bit_length Y"
    have "X < B256" by (simp add: X_def u256_val_less)
    then have "bit_length X \<le> 256" by (simp add: B256_eq bit_length_le_iff)
    then have s: "s < 256" using yb False unfolding s_def by arith
    have "Y * 2 ^ s < 2 ^ bit_length Y * 2 ^ s"
      using bit_length_upper [of Y] by simp
    also have "\<dots> = 2 ^ bit_length X" using False by (simp add: s_def flip: power_add)
    also have "\<dots> \<le> B256" unfolding B256_eq using \<open>bit_length X \<le> 256\<close> by (intro power_increasing) simp_all
    finally have shc: "u256_val (u256_wrapping_shl y s) = Y * 2 ^ s"
      using s by (simp add: u256_wrapping_shl_val Y_def)
    have "bit_length X = (bit_length Y - 1) + Suc s" using False yb unfolding s_def by arith
    then have "(2::nat) ^ bit_length X = 2 ^ (bit_length Y - 1) * 2 ^ Suc s"
      by (simp only: power_add)
    also have "\<dots> \<le> Y * 2 ^ Suc s"
      by (intro mult_le_mono1 bit_length_lower Y0)
    finally have "X < Y * 2 ^ Suc s" using bit_length_upper [of X] by linarith
    moreover obtain q r where qr: "div_rem_loop s x (u256_wrapping_shl y s) u256_ZERO = (q, r)"
      by fastforce
    ultimately have "u256_val q * Y + u256_val r = u256_val u256_ZERO * Y + X \<and> u256_val r < Y"
      unfolding X_def by (intro div_rem_loop_val [OF s shc _ _ qr]) simp_all
    then have "u256_val q = X div Y" "u256_val r = X mod Y"
      by (metis add_0 div_mult_self3 div_less add.right_neutral Y0 mult_zero_left u256_val_ZERO,
          metis add_0 mod_mult_self3 mod_less mult_zero_left u256_val_ZERO)
    then show ?thesis
      using False yb qr by (simp add: u256_div_rem_def u256_bits_val X_def Y_def s_def)
  qed
qed

lemma u256_inverse_val:
  assumes "1 < u256_val x"
  shows "\<exists>w. u256_inverse x = Some w \<and> u256_val w = B256 div (u256_val x + 1)"
proof -
  define X where "X = u256_val x"
  have X: "X < B256" "1 < X" using u256_val_less [of x] assms by (simp_all add: X_def)
  have nz: "\<not> u256_is_zero x" "\<not> u256_is_one x"
    using assms by (auto simp: u256_is_zero_def u256_is_one_def u256_val_def)
  show ?thesis
  proof (cases "u256_is_max x")
    case True
    then have "x = u256_MAX" by (simp add: u256_is_max_def u256_MAX_def u256.expand)
    then show ?thesis
      using True nz by (simp add: u256_inverse_def u256_val_MAX)
  next
    case False
    then have "x \<noteq> u256_MAX" by (auto simp: u256_is_max_def u256_MAX_def)
    then have "X \<noteq> B256 - 1" unfolding X_def u256_val_MAX [symmetric] u256_val_inject .
    with X have lt: "X + 1 < B256" by linarith
    then have inc: "u256_val (u256_wrapping_inc x) = X + 1"
      by (simp add: u256_wrapping_inc_val X_def)
    obtain q r where qr: "u256_div_rem (u256_not x) (u256_wrapping_inc x) = Some (q, r)"
      and q: "u256_val q = (B256 - 1 - X) div (X + 1)"
      using u256_div_rem_val [of "u256_wrapping_inc x" "u256_not x"]
      by (auto simp: inc u256_not_val X_def)
    have "B256 = (B256 - 1 - X) + (X + 1)" using lt by simp
    then have quot: "B256 div (X + 1) = (B256 - 1 - X) div (X + 1) + 1"
      by (metis add_gr_0 div_add_self2 less_numeral_extra(1) less_irrefl)
    have "B256 div (X + 1) < B256" using X by (intro div_less_dividend) simp_all
    moreover have "u256_val (u256_wrapping_inc q) = B256 div (X + 1) mod B256"
      unfolding u256_wrapping_inc_val q quot ..
    ultimately have "u256_val (u256_wrapping_inc q) = B256 div (X + 1)" by simp
    then show ?thesis using nz False qr by (simp add: u256_inverse_def X_def)
  qed
qed

section \<open>Full multiplication\<close>

lemma u256_mul_u64_fst: "u256_val (fst (u256_mul_u64 x w)) = u256_val x * unat w mod B256"
  using u256_mul_u64_val(1) [of x w] by (cases "u256_mul_u64 x w") simp

lemma u256_word_val:
  "unat (u256_low_u64 (u256_wrapping_shr y s)) = u256_val y div 2 ^ (s mod 256) mod 2 ^ 64"
  by (simp only: u256_low_u64_val u256_wrapping_shr_val)

lemma split_192:
  "(r::nat) mod 2 ^ 192 = r mod 2 ^ 64 + r div 2 ^ 64 mod 2 ^ 64 * 2 ^ 64 + r div 2 ^ 128 mod 2 ^ 64 * 2 ^ 128"
proof -
  have "r mod 2 ^ (128 + 64) = 2 ^ 128 * (r div 2 ^ 128 mod 2 ^ 64) + r mod 2 ^ 128"
    unfolding power_add by (rule mod_mult2_eq)
  moreover have "r mod 2 ^ (64 + 64) = 2 ^ 64 * (r div 2 ^ 64 mod 2 ^ 64) + r mod 2 ^ 64"
    unfolding power_add by (rule mod_mult2_eq)
  ultimately show ?thesis by simp
qed

text \<open>
  What \<open>overflowing_mul\<close> computes: the product with the low 192 bits of \<open>rhs\<close> plus
  the unshifted product with its high 64 bits.
\<close>

lemma u256_overflowing_mul_sum:
  "u256_val (fst (u256_overflowing_mul x rhs)) =
     (u256_val x * (u256_val rhs mod 2 ^ 192) + u256_val x * (u256_val rhs div 2 ^ 192)) mod B256"
proof -
  define X R where "X = u256_val x" and "R = u256_val rhs"
  have high: "R div 2 ^ 192 mod 2 ^ 64 = R div 2 ^ 192"
    using u256_val_less [of rhs] unfolding R_def B256_eq
    by (intro mod_less less_mult_imp_div_less) (simp flip: power_add)
  have "u256_val (fst (u256_overflowing_mul x rhs)) =
    (X * (R mod 2 ^ 64) + X * (R div 2 ^ 64 mod 2 ^ 64) * 2 ^ 64 +
     X * (R div 2 ^ 128 mod 2 ^ 64) * 2 ^ 128 + X * (R div 2 ^ 192 mod 2 ^ 64)) mod B256"
    unfolding u256_overflowing_mul_def X_def R_def
    by (simp add: Let_def case_prod_beta u256_wrapping_add_val u256_wrapping_shl_val
        u256_mul_u64_fst u256_word_val u256_wrapping_add_def [symmetric] mod_simps
        del: One_nat_def power_numeral)
  then show ?thesis
    unfolding split_192 X_def [symmetric] R_def [symmetric] high
    by (simp only: distrib_left mult.assoc add.assoc)
qed

end
