(* ===== verification/Pow.thy ===== *)
theory Pow
  imports U256_Arith
begin

text \<open>
  Targets, work and the compact encoding of targets, from \<open>src/dash/src/pow.rs\<close>:
  \<open>Target\<close>, \<open>Work\<close>, \<open>CompactTarget\<close> and their conversions, the decimal
  formatting of \<open>U256\<close>, and the proof-of-work test \<open>is_met_by\<close>. A block hash is its
  list of 32 bytes.
\<close>

section \<open>Types\<close>

datatype target = Target (target_0: u256)

datatype work = Work (work_0: u256)

datatype compact_target = CompactTarget (compact_0: u32)

definition from_consensus :: "u32 \<Rightarrow> compact_target" where
  "from_consensus bits = CompactTarget bits"

definition to_consensus :: "compact_target \<Rightarrow> u32" where
  "to_consensus c = compact_0 c"

definition target_ZERO :: target where
  "target_ZERO = Target u256_ZERO"

definition target_MAX :: target where
  "target_MAX = Target (U256 (push_bit 80 0xFFFF) 0)"

section \<open>Operations\<close>

definition compact_mant_expt :: "u32 \<Rightarrow> u32 \<times> nat" where
  "compact_mant_expt bits =
     (let unshifted_expt = unat (drop_bit 24 bits) in
      if unshifted_expt \<le> 3 then (drop_bit (8 * (3 - unshifted_expt)) (bits AND 0xFFFFFF), 0)
      else (bits AND 0xFFFFFF, 8 * (unshifted_expt - 3)))"

definition from_compact :: "compact_target \<Rightarrow> target" where
  "from_compact c =
     (let (mant, expt) = compact_mant_expt (compact_0 c) in
      if mant > 0x7FFFFF then target_ZERO
      else Target (u256_wrapping_shl (u256_from (ucast mant)) expt))"

definition to_compact_lossy :: "target \<Rightarrow> compact_target" where
  "to_compact_lossy t =
     (let size = (u256_bits (target_0 t) + 7) div 8;
          compact =
            (if size \<le> 3 then ucast (push_bit (8 * (3 - size)) (u256_low_u64 (target_0 t)))
             else u256_low_u32 (u256_wrapping_shr (target_0 t) (8 * (size - 3)))) in
      if compact AND 0x00800000 \<noteq> 0
      then CompactTarget (drop_bit 8 compact OR push_bit 24 (word_of_nat (size + 1)))
      else CompactTarget (compact OR push_bit 24 (word_of_nat size)))"

definition is_met_by :: "target \<Rightarrow> u8 list \<Rightarrow> bool" where
  "is_met_by t hash = (u256_from_le_bytes hash \<le> target_0 t)"

definition to_work :: "target \<Rightarrow> work option" where
  "to_work t = map_option Work (u256_inverse (target_0 t))"

definition to_target :: "work \<Rightarrow> target option" where
  "to_target w = map_option Target (u256_inverse (work_0 w))"

text \<open>\<open>Work + Work\<close> and \<open>Work - Work\<close> in the release profile, where the
  \<open>debug_assert!\<close> on overflow is not compiled.\<close>

definition work_add :: "work \<Rightarrow> work \<Rightarrow> work" where
  "work_add a b = Work (fst (u256_overflowing_add (work_0 a) (work_0 b)))"

definition work_sub :: "work \<Rightarrow> work \<Rightarrow> work" where
  "work_sub a b = Work (fst (u256_overflowing_sub (work_0 a) (work_0 b)))"

definition difficulty :: "target \<Rightarrow> u128 option" where
  "difficulty t =
     map_option (\<lambda>(q, r). u256_saturating_to_u128 q) (u256_div_rem (target_0 target_MAX) (target_0 t))"

text \<open>
  The loop of \<open>fmt_decimal\<close>, from the last position of the 78-byte buffer towards the
  front. \<open>None\<close> is a panic: the position running below the buffer, or a division by zero.
  The digits from the last position written on are the text.
\<close>

fun fmt_decimal_loop :: "nat \<Rightarrow> u256 \<Rightarrow> u8 list \<Rightarrow> u8 list option" where
  "fmt_decimal_loop i cur buf =
     (case u256_div_rem cur (U256 0 10) of
        None \<Rightarrow> None
      | Some (q, r) \<Rightarrow>
          let digit = ucast (u256_low_u128 r); buf' = (digit + 48) # buf in
          if u256_is_zero q then Some buf'
          else if i = 0 then None
          else fmt_decimal_loop (i - 1) q buf')"

declare fmt_decimal_loop.simps [simp del]

definition fmt_decimal :: "u256 \<Rightarrow> u8 list option" where
  "fmt_decimal x = fmt_decimal_loop 77 x []"

definition u256_display :: "u256 \<Rightarrow> u8 list option" where
  "u256_display x = (if u256_is_zero x then Some [48] else fmt_decimal x)"

section \<open>Decimal text\<close>

definition dec_val :: "u8 list \<Rightarrow> nat" where
  "dec_val s = fold (\<lambda>b n. n * 10 + (unat b - 48)) s 0"

lemma dec_val_acc: "fold (\<lambda>b n. n * 10 + (unat b - 48)) s a = a * 10 ^ length s + dec_val s"
  unfolding dec_val_def
proof (induction s rule: rev_induct)
  case (snoc b s)
  then show ?case by (simp add: add_mult_distrib)
qed simp

lemma dec_val_Cons: "dec_val (b # s) = (unat b - 48) * 10 ^ length s + dec_val s"
  using dec_val_acc [of s "unat b - 48"] by (simp add: dec_val_def)

definition is_digit :: "u8 \<Rightarrow> bool" where
  "is_digit b \<longleftrightarrow> 48 \<le> b \<and> b \<le> 57"

lemma u256_val_ten: "u256_val (U256 0 10) = 10"
  by (simp add: u256_val_def)

lemma u256_is_zero_val: "u256_is_zero x \<longleftrightarrow> u256_val x = 0"
  by (simp add: u256_is_zero_def u256_val_def unat_eq_0)

lemma digit_byte:
  assumes "u256_val r = d" and "d < 10"
  shows "unat (ucast (u256_low_u128 r) + 48 :: u8) = d + 48"
proof -
  have "u256_val r < B128" using assms by (simp add: B128_def)
  then have "unat (u_hi r) = 0" unfolding u256_val_def by (cases "unat (u_hi r)") simp_all
  then have "unat (u_lo r) = d" using assms(1) by (simp add: u256_val_def)
  then have "unat (ucast (u256_low_u128 r) :: u8) = d"
    using assms(2) by (simp add: u256_low_u128_def unsigned_ucast_eq take_bit_eq_mod)
  then show ?thesis using assms(2) by (simp add: unat_word_ariths)
qed

lemma fmt_decimal_loop_val:
  assumes "u256_val cur < 10 ^ Suc i" and "cur \<noteq> u256_ZERO"
  shows "\<exists>ds. fmt_decimal_loop i cur buf = Some (ds @ buf) \<and> ds \<noteq> [] \<and> length ds \<le> Suc i \<and>
    dec_val ds = u256_val cur \<and> (\<forall>b \<in> set ds. is_digit b) \<and> hd ds \<noteq> 48"
  using assms
proof (induction i cur buf rule: fmt_decimal_loop.induct)
  case (1 i cur buf)
  obtain q r where qr: "u256_div_rem cur (U256 0 10) = Some (q, r)"
    and q: "u256_val q = u256_val cur div 10" and r: "u256_val r = u256_val cur mod 10"
    using u256_div_rem_val [of "U256 0 10" cur] unfolding u256_val_ten by auto
  define d :: u8 where "d = ucast (u256_low_u128 r) + 48"
  have d: "unat d = u256_val cur mod 10 + 48" unfolding d_def using r by (intro digit_byte) simp_all
  then have dig: "is_digit d" by (simp add: is_digit_def word_le_nat_alt)
  show ?case
  proof (cases "u256_is_zero q")
    case True
    then have "u256_val cur < 10" using q by (simp add: u256_is_zero_val)
    moreover have "u256_val cur \<noteq> 0" using 1(3) u256_val_inject [of cur u256_ZERO] by simp
    moreover have "d \<noteq> 48" using d calculation by (auto simp: word_unat_eq_iff)
    ultimately show ?thesis
      using True qr d dig
      by (intro exI [of _ "[d]"]) (subst fmt_decimal_loop.simps, simp add: Let_def d_def dec_val_def)
  next
    case False
    then have nz: "q \<noteq> u256_ZERO" by (auto simp: u256_is_zero_val)
    have i: "i \<noteq> 0"
      using 1(2) False q by (auto simp: u256_is_zero_val intro: ccontr)
    have "u256_val q < 10 ^ Suc (i - 1)"
      using 1(2) i q by (simp add: less_mult_imp_div_less mult.commute)
    from 1(1) [OF qr refl refl refl False i this nz]
    obtain ds where ds: "fmt_decimal_loop (i - 1) q (d # buf) = Some (ds @ d # buf)" "ds \<noteq> []"
      "length ds \<le> i" "dec_val ds = u256_val q" "\<forall>b \<in> set ds. is_digit b" "hd ds \<noteq> 48"
      using i unfolding d_def by auto
    have "dec_val (ds @ [d]) = u256_val cur"
      using ds(4) d q by (simp add: dec_val_def)
    then show ?thesis
      using False i qr ds dig
      by (intro exI [of _ "ds @ [d]"]) (subst fmt_decimal_loop.simps, simp add: Let_def d_def)
  qed
qed

section \<open>The compact encoding\<close>

lemma or_disjoint_u32:
  assumes "unat (a :: u32) < 2 ^ 24"
  shows "unat (a OR push_bit 24 (word_of_nat s)) = unat a + s mod 256 * 2 ^ 24"
proof -
  have "unat (push_bit 24 (word_of_nat s) :: u32) = push_bit 24 (s mod 256)"
    using mod_mult_mult2 [of "s mod 2 ^ 32" "2 ^ 24" 256]
    by (subst unsigned_push_bit_eq)
      (simp add: unsigned_of_nat take_bit_eq_mod push_bit_eq_mult mod_mod_cancel)
  then have "unat (a OR push_bit 24 (word_of_nat s)) = unat a OR push_bit 24 (s mod 256)"
    by (simp only: unsigned_or_eq)
  also have "\<dots> = unat a + 2 ^ 24 * (s mod 256)" by (rule or_push_bit_nat [OF assms])
  finally show ?thesis by (simp only: mult.commute)
qed

lemma compact_parts:
  assumes "unat c = m + e * 2 ^ 24" and "m < 2 ^ 24" and "e < 256"
  shows "unat (drop_bit 24 (c :: u32)) = e" and "unat (c AND 0xFFFFFF) = m"
proof -
  show "unat (drop_bit 24 c) = e"
    by (subst unat_drop_bit_eq) (use assms in \<open>simp add: drop_bit_eq_div\<close>)
  have "unat (c AND 0xFFFFFF) = take_bit 24 (unat c)"
    by (simp add: unsigned_and_eq take_bit_eq_mask mask_eq_exp_minus_1)
  then show "unat (c AND 0xFFFFFF) = m" using assms by (simp add: take_bit_eq_mod)
qed

lemma u256_val_from_u32: "u256_val (u256_from (ucast (m :: u32))) = unat m"
proof -
  have "unat m < 2 ^ 32" using unsigned_less [of m] by simp
  then show ?thesis by (simp add: u256_from_def u256_val_def unsigned_ucast_eq take_bit_eq_mod)
qed

lemma from_compact_small:
  assumes "unat c = m + e * 2 ^ 24" and "m < 2 ^ 24" and "e \<le> 3" and "m div 256 ^ (3 - e) < 2 ^ 23"
  shows "u256_val (target_0 (from_compact (CompactTarget c))) = m div 256 ^ (3 - e)"
proof -
  note parts = compact_parts [OF assms(1,2)]
  have "unat (drop_bit (8 * (3 - e)) (c AND 0xFFFFFF)) = m div 2 ^ (8 * (3 - e))"
    using parts assms(3) by (subst unat_drop_bit_eq) (simp add: drop_bit_eq_div)
  also have "\<dots> = m div 256 ^ (3 - e)" by (simp add: power_mult)
  finally have mant: "unat (drop_bit (8 * (3 - e)) (c AND 0xFFFFFF)) = m div 256 ^ (3 - e)" .
  have "m div 256 ^ (3 - e) < B256"
    using assms(4) by (simp add: B256_eq)
  with mant show ?thesis
    using assms parts
    by (simp add: from_compact_def compact_mant_expt_def Let_def word_less_nat_alt
        u256_wrapping_shl_val u256_val_from_u32)
qed

lemma from_compact_large:
  assumes "unat c = m + e * 2 ^ 24" and "m < 2 ^ 23" and "3 < e" and "e < 35"
    and "m * 256 ^ (e - 3) < B256"
  shows "u256_val (target_0 (from_compact (CompactTarget c))) = m * 256 ^ (e - 3)"
proof -
  note parts = compact_parts [OF assms(1)]
  have "2 ^ (8 * (e - 3)) = (256::nat) ^ (e - 3)" by (simp add: power_mult)
  then show ?thesis
    using assms parts
    by (simp add: from_compact_def compact_mant_expt_def Let_def word_less_nat_alt
        u256_wrapping_shl_val u256_val_from_u32)
qed

text \<open>
  The mantissa and the byte count \<open>to_compact_lossy\<close> writes, as numbers: the count is one
  more than the whole bytes of the target, so that the sign bit of the mantissa stays clear.
\<close>

definition compact_size :: "nat \<Rightarrow> nat" where
  "compact_size n = (if n = 0 then 0 else bit_length n div 8 + 1)"

definition compact_mant :: "nat \<Rightarrow> nat" where
  "compact_mant n =
     (if compact_size n \<le> 3 then n * 256 ^ (3 - compact_size n) else n div 256 ^ (compact_size n - 3))"

lemma power_256: "256 ^ k = (2::nat) ^ (8 * k)"
  by (simp add: power_mult)

lemma compact_mant_less: "compact_mant n < 2 ^ 23"
proof (cases "n = 0")
  case False
  define b where "b = bit_length n"
  have size: "compact_size n = b div 8 + 1" using False by (simp add: compact_size_def b_def)
  have n: "n < 2 ^ b" by (simp add: b_def bit_length_upper)
  show ?thesis
  proof (cases "b div 8 + 1 \<le> 3")
    case True
    have "n * 2 ^ (8 * (3 - (b div 8 + 1))) < 2 ^ b * 2 ^ (8 * (3 - (b div 8 + 1)))"
      using n by simp
    also have "\<dots> = (2::nat) ^ (b + 8 * (3 - (b div 8 + 1)))" by (rule power_add [symmetric])
    also have "\<dots> \<le> 2 ^ 23" using True by (intro power_increasing) arith+
    finally show ?thesis using True by (simp add: compact_mant_def size power_256)
  next
    case False
    have "n < 2 ^ (23 + 8 * (b div 8 - 2))"
      using n by (rule less_le_trans) (use False in \<open>intro power_increasing, arith+\<close>)
    then have "n div 2 ^ (8 * (b div 8 - 2)) < 2 ^ 23"
      by (intro less_mult_imp_div_less) (simp only: power_add)
    then show ?thesis using False by (simp add: compact_mant_def size power_256)
  qed
qed (simp add: compact_mant_def compact_size_def)

lemma compact_size_le: "n < B256 \<Longrightarrow> compact_size n \<le> 33"
  using bit_length_le_iff [of n 256] by (auto simp: compact_size_def B256_eq)

text \<open>The three leading bytes before the sign bit is looked at, and their count.\<close>

definition raw_size :: "nat \<Rightarrow> nat" where
  "raw_size n = (bit_length n + 7) div 8"

definition raw_mant :: "nat \<Rightarrow> nat" where
  "raw_mant n = (if raw_size n \<le> 3 then n * 256 ^ (3 - raw_size n) else n div 256 ^ (raw_size n - 3))"

lemma raw_mant_bounds:
  assumes "n \<noteq> 0"
  shows "raw_mant n < 2 ^ (bit_length n + 24 - 8 * raw_size n)"
    and "2 ^ (bit_length n + 24 - 8 * raw_size n - 1) \<le> raw_mant n"
proof -
  define b s where "b = bit_length n" and "s = raw_size n"
  have bs: "b \<le> 8 * s" "8 * s < b + 8" "b \<noteq> 0" using assms by (auto simp: b_def s_def raw_size_def)
  have n: "n < 2 ^ b" "2 ^ (b - 1) \<le> n"
    using bit_length_upper bit_length_lower assms by (simp_all add: b_def)
  have "raw_mant n < 2 ^ (b + 24 - 8 * s) \<and> 2 ^ (b + 24 - 8 * s - 1) \<le> raw_mant n"
  proof (cases "s \<le> 3")
    case True
    have "b + 24 - 8 * s = b + 8 * (3 - s)" "b + 24 - 8 * s - 1 = (b - 1) + 8 * (3 - s)"
      using True bs by arith+
    then show ?thesis
      using n True by (simp only: raw_mant_def power_256 power_add flip: s_def) simp
  next
    case False
    have e: "b = (b + 24 - 8 * s) + 8 * (s - 3)" "b - 1 = (b + 24 - 8 * s - 1) + 8 * (s - 3)"
      using False bs by arith+
    have "n < 2 ^ (b + 24 - 8 * s) * 2 ^ (8 * (s - 3))"
      using n(1) by (subst (asm) e(1)) (simp only: power_add)
    moreover have "2 ^ (b + 24 - 8 * s - 1) * 2 ^ (8 * (s - 3)) \<le> n"
      using n(2) by (subst (asm) e(2)) (simp only: power_add)
    ultimately show ?thesis
      using False
      by (simp add: raw_mant_def power_256 less_mult_imp_div_less less_eq_div_iff_mult_less_eq
          flip: s_def)
  qed
  then show "raw_mant n < 2 ^ (bit_length n + 24 - 8 * raw_size n)"
    and "2 ^ (bit_length n + 24 - 8 * raw_size n - 1) \<le> raw_mant n"
    by (simp_all add: b_def s_def)
qed

lemma raw_mant_less: "raw_mant n < 2 ^ 24"
proof (cases "n = 0")
  case False
  have "(2::nat) ^ (bit_length n + 24 - 8 * raw_size n) \<le> 2 ^ 24"
    by (intro power_increasing) (auto simp: raw_size_def)
  with raw_mant_bounds(1) [OF False] show ?thesis by (rule less_le_trans)
qed (simp add: raw_mant_def)

lemma raw_mant_sign:
  "2 ^ 23 \<le> raw_mant n \<longleftrightarrow> n \<noteq> 0 \<and> bit_length n = 8 * raw_size n"
proof (cases "n = 0")
  case False
  define e where "e = bit_length n + 24 - 8 * raw_size n"
  have "raw_mant n < 2 ^ e" "2 ^ (e - 1) \<le> raw_mant n"
    using raw_mant_bounds [OF False] by (simp_all add: e_def)
  moreover have "(2::nat) ^ e \<le> 2 ^ 23" if "e \<noteq> 24"
    using that by (intro power_increasing) (auto simp: e_def raw_size_def)
  ultimately have "2 ^ 23 \<le> raw_mant n \<longleftrightarrow> e = 24"
    by (cases "e = 24") (auto simp: not_le dest: less_le_trans)
  also have "\<dots> \<longleftrightarrow> bit_length n = 8 * raw_size n"
    by (auto simp: e_def raw_size_def)
  finally show ?thesis using False by simp
qed (simp add: raw_mant_def)

lemma compact_of_raw:
  "compact_size n = (if 2 ^ 23 \<le> raw_mant n then raw_size n + 1 else raw_size n)"
  "compact_mant n = (if 2 ^ 23 \<le> raw_mant n then raw_mant n div 256 else raw_mant n)"
proof -
  show size: "compact_size n = (if 2 ^ 23 \<le> raw_mant n then raw_size n + 1 else raw_size n)"
    unfolding raw_mant_sign by (auto simp: compact_size_def raw_size_def)
  consider "raw_size n < 3" | "raw_size n = 3" | "3 < raw_size n" by linarith
  then show "compact_mant n = (if 2 ^ 23 \<le> raw_mant n then raw_mant n div 256 else raw_mant n)"
  proof cases
    case 1
    then have "3 - raw_size n = Suc (3 - (raw_size n + 1))" by simp
    with 1 show ?thesis unfolding compact_mant_def raw_mant_def size by simp
  next
    case 2
    then show ?thesis unfolding compact_mant_def raw_mant_def size by simp
  next
    case 3
    then have "raw_size n + 1 - 3 = Suc (raw_size n - 3)" by simp
    with 3 show ?thesis unfolding compact_mant_def raw_mant_def size
      by (simp add: power_Suc2 div_mult2_eq del: power_Suc)
  qed
qed

lemma sign_bit_u32: "unat (c :: u32) < 2 ^ 24 \<Longrightarrow> c AND 0x00800000 \<noteq> 0 \<longleftrightarrow> 2 ^ 23 \<le> unat c"
proof -
  assume c: "unat c < 2 ^ 24"
  have "c AND 0x00800000 \<noteq> 0 \<longleftrightarrow> bit c 23"
    using and_exp_eq_0_iff_not_bit [of c 23] by simp
  also have "\<dots> \<longleftrightarrow> odd (unat c div 2 ^ 23)" 
    using bit_unsigned_iff [of c 23, where 'a = nat] by (simp add: bit_iff_odd [of "unat c"])
  also have "\<dots> \<longleftrightarrow> 2 ^ 23 \<le> unat c" 
  proof (cases "2 ^ 23 \<le> unat c")
    case True
    then have "unat c div 2 ^ 23 = 1" using c by (intro div_nat_eqI) simp_all
    with True show ?thesis by simp
  qed simp
  finally show ?thesis .
qed

lemma raw_compact_word:
  fixes x :: u256
  defines "n \<equiv> u256_val x"
  shows "unat (if raw_size n \<le> 3 then ucast (push_bit (8 * (3 - raw_size n)) (u256_low_u64 x))
    else u256_low_u32 (u256_wrapping_shr x (8 * (raw_size n - 3))) :: u32) = raw_mant n"
proof (cases "raw_size n \<le> 3")
  case True
  have "n < 2 ^ 24"
    using True bit_length_le_iff [of n 24] unfolding raw_size_def by linarith
  then have "unat (u256_low_u64 x) = n"
    by (simp add: u256_low_u64_val flip: n_def)
  moreover have m: "n * 2 ^ (8 * (3 - raw_size n)) < 2 ^ 24"
    using raw_mant_less [of n] True by (simp add: raw_mant_def power_256)
  moreover define w where "w = push_bit (8 * (3 - raw_size n)) (u256_low_u64 x)"
  ultimately have "unat w = n * 2 ^ (8 * (3 - raw_size n))"
    unfolding w_def by (subst unsigned_push_bit_eq) (simp add: take_bit_eq_mod push_bit_eq_mult)
  with m True show ?thesis
    unfolding w_def [symmetric]
    by (simp add: unsigned_ucast_eq take_bit_eq_mod raw_mant_def power_256)
next
  case False
  have "bit_length n \<le> 256"
    using u256_val_less [of x] by (simp add: bit_length_le_iff n_def B256_eq)
  then have "8 * (raw_size n - 3) < 256" by (simp add: raw_size_def)
  then have "unat (u256_low_u32 (u256_wrapping_shr x (8 * (raw_size n - 3)))) =
      n div 2 ^ (8 * (raw_size n - 3)) mod 2 ^ 32"
    by (simp only: u256_low_u32_val u256_wrapping_shr_val mod_less flip: n_def)
  with False raw_mant_less [of n] show ?thesis by (simp add: raw_mant_def power_256)
qed

lemma to_compact_lossy_val:
  fixes t :: target
  defines "n \<equiv> u256_val (target_0 t)"
  shows "unat (compact_0 (to_compact_lossy t)) = compact_mant n + compact_size n * 2 ^ 24"
proof -
  define c :: u32 where "c = (if raw_size n \<le> 3
      then ucast (push_bit (8 * (3 - raw_size n)) (u256_low_u64 (target_0 t)))
      else u256_low_u32 (u256_wrapping_shr (target_0 t) (8 * (raw_size n - 3))))"
  have c: "unat c = raw_mant n" unfolding c_def n_def by (rule raw_compact_word)
  have sign: "c AND 0x00800000 \<noteq> 0 \<longleftrightarrow> 2 ^ 23 \<le> raw_mant n"
    using sign_bit_u32 [of c] raw_mant_less [of n] by (simp only: c)
  have size: "compact_size n mod 256 = compact_size n"
    using compact_size_le [of n] u256_val_less [of "target_0 t"] by (simp add: n_def)
  have "to_compact_lossy t =
    (if c AND 0x00800000 \<noteq> 0
      then CompactTarget (drop_bit 8 c OR push_bit 24 (word_of_nat (raw_size n + 1)))
      else CompactTarget (c OR push_bit 24 (word_of_nat (raw_size n))))"
    unfolding to_compact_lossy_def Let_def u256_bits_val n_def [symmetric]
      raw_size_def [symmetric] c_def by (rule refl)
  moreover have "unat (drop_bit 8 c) = raw_mant n div 256"
    by (subst unat_drop_bit_eq) (simp add: c drop_bit_eq_div)
  ultimately show ?thesis
    using size raw_mant_less [of n] unfolding sign compact_of_raw
    by (auto simp: or_disjoint_u32 c simp del: of_nat_add of_nat_Suc of_nat_1 split: if_splits)
qed

lemma bit_length_div_8: "n \<noteq> 0 \<Longrightarrow> compact_size n - 3 = bit_length n div 8 - 2"
  by (simp add: compact_size_def)

lemma from_compact_mant_size:
  assumes "n < B256" and "unat c = compact_mant n + compact_size n * 2 ^ 24"
  shows "u256_val (target_0 (from_compact (CompactTarget c))) =
    n div 256 ^ (compact_size n - 3) * 256 ^ (compact_size n - 3)"
proof (cases "compact_size n \<le> 3")
  case True
  then have "compact_mant n div 256 ^ (3 - compact_size n) = n" by (simp add: compact_mant_def)
  moreover have "n < 2 ^ 23"
    using compact_mant_less [of n] div_le_dividend [of "compact_mant n" "256 ^ (3 - compact_size n)"]
    unfolding calculation by linarith
  ultimately show ?thesis
    using True from_compact_small [OF assms(2) _ True] compact_mant_less [of n] by simp
next
  case False
  then have m: "compact_mant n = n div 256 ^ (compact_size n - 3)" by (simp add: compact_mant_def)
  have "compact_mant n * 256 ^ (compact_size n - 3) < B256"
    unfolding m using assms(1) by (meson div_times_less_eq_dividend le_less_trans)
  moreover have "compact_size n < 35" using compact_size_le [OF assms(1)] by simp
  ultimately show ?thesis
    using False from_compact_large [OF assms(2) compact_mant_less] unfolding m by simp
qed

lemma compact_truncate_size:
  fixes n :: nat
  defines "k \<equiv> compact_size n - 3"
  defines "n' \<equiv> n div 256 ^ k * 256 ^ k"
  shows "bit_length n' = bit_length n" and "n' div 256 ^ k = n div 256 ^ k"
proof -
  show d: "n' div 256 ^ k = n div 256 ^ k" by (simp add: n'_def)
  show "bit_length n' = bit_length n"
  proof (cases "n = 0")
    case False
    define b where "b = bit_length n"
    have b: "b \<noteq> 0" "2 ^ (b - 1) \<le> n" "n < 2 ^ b"
      using False bit_length_lower bit_length_upper by (simp_all add: b_def)
    have "8 * k \<le> b - 1" using False b(1) by (auto simp: k_def compact_size_def simp flip: b_def)
    then have split: "b - 1 = (b - 1 - 8 * k) + 8 * k" by simp
    have "2 ^ (b - 1 - 8 * k) * 2 ^ (8 * k) \<le> n" using b(2) by (subst (asm) split) (simp only: power_add)
    then have "2 ^ (b - 1 - 8 * k) \<le> n div 256 ^ k"
      by (simp add: power_256 less_eq_div_iff_mult_less_eq)
    then have "2 ^ (b - 1 - 8 * k) * 2 ^ (8 * k) \<le> n'"
      unfolding n'_def power_256 by (rule mult_le_mono1)
    then have "2 ^ (b - 1) \<le> n'" by (subst split) (simp only: power_add)
    moreover have "n' < 2 ^ Suc (b - 1)"
      using b(1) le_less_trans [OF div_times_less_eq_dividend b(3)] unfolding n'_def by simp
    ultimately have "bit_length n' = Suc (b - 1)" by (rule bit_length_unique)
    then show ?thesis using b(1) unfolding b_def [symmetric] by linarith
  qed (simp add: n'_def)
qed

lemma compact_truncate_idem:
  fixes n :: nat
  defines "k \<equiv> compact_size n - 3"
  defines "n' \<equiv> n div 256 ^ k * 256 ^ k"
  shows "compact_size n' = compact_size n" and "compact_mant n' = compact_mant n"
proof -
  note trunc = compact_truncate_size [of n, folded k_def, folded n'_def]
  show size: "compact_size n' = compact_size n"
    using trunc(1) bit_length_zero_iff [of n'] bit_length_zero_iff [of n]
    by (auto simp: compact_size_def)
  show "compact_mant n' = compact_mant n"
    using trunc(2) unfolding compact_mant_def size by (simp add: k_def n'_def)
qed

lemma from_to_compact_val:
  fixes t :: target
  defines "n \<equiv> u256_val (target_0 t)"
  shows "u256_val (target_0 (from_compact (to_compact_lossy t))) =
    n div 256 ^ (compact_size n - 3) * 256 ^ (compact_size n - 3)"
  using from_compact_mant_size [of n "compact_0 (to_compact_lossy t)"] u256_val_less
  by (simp add: to_compact_lossy_val n_def)

lemma from_to_compact_le:
  "u256_val (target_0 (from_compact (to_compact_lossy t))) \<le> u256_val (target_0 t)"
  unfolding from_to_compact_val by (rule div_times_less_eq_dividend)

section \<open>Properties\<close>

text \<open>
  \<open>U256::div_rem\<close> is integer division on the 256-bit numbers: it panics exactly on a
  zero divisor and otherwise returns the quotient and the remainder.
\<close>

theorem div_rem_correct:
  "case u256_div_rem x y of
     None \<Rightarrow> u256_val y = 0
   | Some (q, r) \<Rightarrow> u256_val y \<noteq> 0 \<and> u256_val q = u256_val x div u256_val y \<and>
       u256_val r = u256_val x mod u256_val y"
proof (cases "u256_val y = 0")
  case True
  then show ?thesis by (simp add: u256_div_rem_def u256_bits_val)
next
  case False
  from u256_div_rem_val [OF False, of x] show ?thesis using False by auto
qed

text \<open>
  C38: \<open>U256::overflowing_mul\<close> returns, modulo \<open>2 ^ 256\<close>, the product with the low 192 bits of
  its right factor plus the product with the number its high 64 bits stand for. That is the
  product of the factors when the right one is below \<open>2 ^ 192\<close>; the high word is not shifted.
\<close>

theorem overflowing_mul_exact:
  "u256_val (fst (u256_overflowing_mul x rhs)) =
     (u256_val x * (u256_val rhs mod 2 ^ 192) + u256_val x * (u256_val rhs div 2 ^ 192)) mod 2 ^ 256"
  unfolding B256_eq [symmetric] by (rule u256_overflowing_mul_sum)

text \<open>
  With a factor of \<open>2 ^ 192\<close> the highest word is added without its shift: the product of one
  and \<open>2 ^ 192\<close> comes out as one.
\<close>

lemma overflowing_mul_high_word:
  "fst (u256_overflowing_mul u256_ONE (U256 (2 ^ 64) 0)) = u256_ONE"
proof -
  have "u256_val (U256 (2 ^ 64) 0) = 2 ^ 192"
    by (simp add: u256_val_def B128_def)
  then have "u256_val (fst (u256_overflowing_mul u256_ONE (U256 (2 ^ 64) 0))) = 1 mod B256"
    by (simp add: u256_overflowing_mul_sum)
  moreover have "1 < B256" by (simp add: B256_eq)
  ultimately have "u256_val (fst (u256_overflowing_mul u256_ONE (U256 (2 ^ 64) 0))) = u256_val u256_ONE"
    by simp
  then show ?thesis by (simp only: u256_val_inject)
qed

text \<open>
  C37: \<open>Target::to_work\<close> never panics and is \<open>2 ^ 256 div (target + 1)\<close>, except that the
  targets zero and one give the largest value.
\<close>

theorem to_work_correct:
  "\<exists>w. to_work t = Some w \<and>
     u256_val (work_0 w) =
       (let n = u256_val (target_0 t) in if n \<le> 1 then 2 ^ 256 - 1 else 2 ^ 256 div (n + 1))"
proof (cases "u256_val (target_0 t) \<le> 1")
  case True
  then have "u256_val (target_0 t) = u256_val u256_ZERO \<or> u256_val (target_0 t) = u256_val u256_ONE"
    by (simp add: le_Suc_eq)
  then have "target_0 t = u256_ZERO \<or> target_0 t = u256_ONE" by (simp only: u256_val_inject)
  then have "u256_inverse (target_0 t) = Some u256_MAX"
    by (auto simp: u256_inverse_def u256_is_zero_def u256_is_one_def u256_ZERO_def u256_ONE_def)
  then show ?thesis using True unfolding B256_eq [symmetric] by (simp add: to_work_def u256_val_MAX)
next
  case False
  then show ?thesis
    using u256_inverse_val [of "target_0 t"] unfolding B256_eq [symmetric] by (auto simp: to_work_def)
qed

text \<open>
  C36: Decoding the compact form of a target gives the target with all but its leading bytes
  (three, or two when the sign bit would be set) cleared, and encoding that again gives the same
  compact form.
\<close>

theorem compact_round_trip:
  "u256_val (target_0 (from_compact (to_compact_lossy t))) =
     (let n = u256_val (target_0 t); k = bit_length n div 8 - 2 in n div 256 ^ k * 256 ^ k) \<and>
   to_compact_lossy (from_compact (to_compact_lossy t)) = to_compact_lossy t"
proof -
  define n where "n = u256_val (target_0 t)"
  define k where "k = compact_size n - 3"
  have val: "u256_val (target_0 (from_compact (to_compact_lossy t))) = n div 256 ^ k * 256 ^ k"
    unfolding n_def k_def by (rule from_to_compact_val)
  then have dec: "u256_val (target_0 (from_compact (to_compact_lossy t))) =
     (let n = u256_val (target_0 t); k = bit_length n div 8 - 2 in n div 256 ^ k * 256 ^ k)"
    by (cases "n = 0") (simp_all add: bit_length_div_8 Let_def n_def k_def)
  have "unat (compact_0 (to_compact_lossy (from_compact (to_compact_lossy t)))) =
      unat (compact_0 (to_compact_lossy t))"
    using compact_truncate_idem [of n]
    by (simp only: to_compact_lossy_val val flip: n_def k_def)
  then have "to_compact_lossy (from_compact (to_compact_lossy t)) = to_compact_lossy t"
    by (simp add: compact_target.expand word_unat_eq_iff)
  with dec show ?thesis by (rule conjI)
qed

text \<open>
  Formatting a 256-bit number never panics (the 78-byte buffer is large enough) and prints
  decimal digits, without a leading zero unless the number is zero, that stand for the number.
\<close>

theorem u256_display_correct:
  "\<exists>s. u256_display x = Some s \<and> list_all is_digit s \<and> dec_val s = u256_val x \<and>
     (hd s = 48 \<longleftrightarrow> u256_val x = 0) \<and> length s \<le> 78"
proof (cases "u256_is_zero x")
  case True
  then show ?thesis
    by (simp add: u256_display_def u256_is_zero_val dec_val_def is_digit_def)
next
  case False
  have "B256 \<le> 10 ^ Suc 77" unfolding B256_eq by simp
  then have "u256_val x < 10 ^ Suc 77" using u256_val_less [of x] by linarith
  moreover have "x \<noteq> u256_ZERO" using False by (auto simp: u256_is_zero_val)
  ultimately obtain ds where "fmt_decimal x = Some ds" "dec_val ds = u256_val x"
    "\<forall>b \<in> set ds. is_digit b" "hd ds \<noteq> 48" "length ds \<le> Suc 77"
    using fmt_decimal_loop_val [of x 77 "[]"] unfolding fmt_decimal_def by auto
  then show ?thesis
    using False by (auto simp: u256_display_def u256_is_zero_val list_all_iff)
qed

end
