(* ===== verification/Consensus.thy ===== *)
theory Consensus
  imports Prelude
begin

text \<open>
  Consensus encoding, from \<open>src/dash/src/consensus/encode.rs\<close>: integers, byte arrays,
  \<open>VarInt\<close>, vectors and checksummed data. \<open>Encodable::consensus_encode\<close> is the list of
  bytes it writes; \<open>Decodable::consensus_decode_from_finite_reader\<close> is a function from the
  bytes left in the reader to an error or to the value and the bytes then left. The locale
  \<open>codec\<close> is the contract every encodable type keeps: what is written can be read back. The
  locale \<open>canonical_codec\<close> adds that nothing else is accepted.
\<close>

section \<open>Readers\<close>

text \<open>The types of special transactions; one variant of \<open>encode::Error\<close> names them.\<close>

datatype transaction_type =
    Classic
  | ProviderRegistration
  | ProviderUpdateService
  | ProviderUpdateRegistrar
  | ProviderUpdateRevocation
  | Coinbase
  | QuorumCommitment
  | MnhfSignal
  | AssetLock
  | AssetUnlock
  | ClassicalWithNonStandardVersionTypeBytes u16

text \<open>
  The variants of \<open>encode::Error\<close> that the modelled decoders produce, with the kinds of I/O error
  apart.
\<close>

datatype enc_error =
    Io_UnexpectedEof
  | Io_InvalidData
  | Io_InvalidInput
  | OversizedVectorAllocation nat nat
  | InvalidChecksum "u8 list" "u8 list"
  | NonMinimalVarInt
  | ParseFailed string
  | UnsupportedSegwitFlag u8
  | UnknownSpecialTransactionType u16
  | WrongSpecialTransactionPayloadConversion transaction_type transaction_type
  | InvalidEnumValue u16 u16

type_synonym 'a decoder = "u8 list \<Rightarrow> ('a \<times> u8 list, enc_error) result"

definition dret :: "'a \<Rightarrow> 'a decoder" where
  "dret x bs = Ok (x, bs)"

definition dfail :: "enc_error \<Rightarrow> 'a decoder" where
  "dfail e bs = Err e"

definition dbind :: "'a decoder \<Rightarrow> ('a \<Rightarrow> 'b decoder) \<Rightarrow> 'b decoder" where
  "dbind d f bs = (case d bs of Err e \<Rightarrow> Err e | Ok (x, bs') \<Rightarrow> f x bs')"

definition read_slice :: "nat \<Rightarrow> u8 list decoder" where
  "read_slice n bs = (if length bs < n then Err Io_UnexpectedEof else Ok (take n bs, drop n bs))"

definition MAX_VEC_SIZE :: nat where
  "MAX_VEC_SIZE = 4000000"

text \<open>
  \<open>Decodable::consensus_decode\<close> of a type that only defines the reading from a finite reader: it
  sees the next \<open>MAX_VEC_SIZE\<close> bytes.
\<close>

definition consensus_decode :: "'a decoder \<Rightarrow> 'a decoder" where
  "consensus_decode d bs =
     (case d (take MAX_VEC_SIZE bs) of
        Err e \<Rightarrow> Err e
      | Ok (x, rest) \<Rightarrow> Ok (x, rest @ drop MAX_VEC_SIZE bs))"

text \<open>\<open>decoder_fn!\<close> and \<open>encoder_fn!\<close>: the fixed-width integers, little-endian.\<close>

definition read_int :: "'a::len word decoder" where
  "read_int = dbind (read_slice (LENGTH('a) div 8)) (\<lambda>bs. dret (from_le_bytes bs))"

definition emit_int :: "'a::len word \<Rightarrow> u8 list" where
  "emit_int v = to_le_bytes v"

definition read_u8 :: "u8 decoder" where
  "read_u8 = dbind (read_slice 1) (\<lambda>s. dret (s ! 0))"

definition emit_u8 :: "u8 \<Rightarrow> u8 list" where
  "emit_u8 v = [v]"

definition read_bool :: "bool decoder" where
  "read_bool = dbind read_u8 (\<lambda>bit. dret (bit \<noteq> 0))"

definition emit_bool :: "bool \<Rightarrow> u8 list" where
  "emit_bool v = [if v then 1 else 0]"

section \<open>Variable-length integers\<close>

definition varint_len :: "u64 \<Rightarrow> nat" where
  "varint_len n =
     (if n \<le> 0xFC then 1 else if n \<le> 0xFFFF then 3 else if n \<le> 0xFFFFFFFF then 5 else 9)"

definition varint_encode :: "u64 \<Rightarrow> u8 list" where
  "varint_encode n =
     (if n \<le> 0xFC then emit_u8 (ucast n)
      else if n \<le> 0xFFFF then emit_u8 0xFD @ emit_int (ucast n :: u16)
      else if n \<le> 0xFFFFFFFF then emit_u8 0xFE @ emit_int (ucast n :: u32)
      else emit_u8 0xFF @ emit_int n)"

definition varint_decode :: "u64 decoder" where
  "varint_decode = dbind read_u8 (\<lambda>n.
     if n = 0xFF then
       dbind read_int (\<lambda>x. if x < 0x100000000 then dfail NonMinimalVarInt else dret x)
     else if n = 0xFE then
       dbind read_int (\<lambda>x :: u32. if x < 0x10000 then dfail NonMinimalVarInt else dret (ucast x))
     else if n = 0xFD then
       dbind read_int (\<lambda>x :: u16. if x < 0xFD then dfail NonMinimalVarInt else dret (ucast x))
     else dret (ucast n))"

section \<open>Vectors\<close>

fun decode_times :: "nat \<Rightarrow> 'a decoder \<Rightarrow> 'a list decoder" where
  "decode_times 0 d = dret []"
| "decode_times (Suc n) d = dbind d (\<lambda>x. dbind (decode_times n d) (\<lambda>xs. dret (x # xs)))"

definition vec_encode :: "('a \<Rightarrow> u8 list) \<Rightarrow> 'a list \<Rightarrow> u8 list" where
  "vec_encode enc xs = varint_encode (word_of_nat (length xs)) @ concat (map enc xs)"

definition vec_decode :: "'a decoder \<Rightarrow> 'a list decoder" where
  "vec_decode d = dbind varint_decode (\<lambda>n. decode_times (unat n) d)"

definition consensus_encode_with_size :: "u8 list \<Rightarrow> u8 list" where
  "consensus_encode_with_size bs = varint_encode (word_of_nat (length bs)) @ bs"

text \<open>
  Reading a given number of bytes in chunks. The source asserts that the chunk size, a constant
  at both calls, is not zero.
\<close>

function read_bytes_from_finite_reader :: "nat \<Rightarrow> nat \<Rightarrow> u8 list \<Rightarrow> u8 list decoder" where
  "read_bytes_from_finite_reader len chunk_size ret =
     (if len = 0 \<or> chunk_size = 0 then dret ret
      else dbind (read_slice (min len chunk_size))
        (\<lambda>c. read_bytes_from_finite_reader (len - min len chunk_size) chunk_size (ret @ c)))"
  by auto
termination
  by (relation "measure (\<lambda>(len, chunk_size, ret). len)") auto

declare read_bytes_from_finite_reader.simps [simp del]

definition bytes_decode :: "u8 list decoder" where
  "bytes_decode = dbind varint_decode
     (\<lambda>len. read_bytes_from_finite_reader (unat len) (128 * 1024) [])"

section \<open>Checksummed data\<close>

text \<open>The double SHA-256 of the \<open>hashes\<close> crate is the parameter \<open>sha256d\<close>.\<close>

definition sha2_checksum :: "(u8 list \<Rightarrow> u8 list) \<Rightarrow> u8 list \<Rightarrow> u8 list" where
  "sha2_checksum sha256d data = take 4 (sha256d data)"

definition checked_data_encode :: "(u8 list \<Rightarrow> u8 list) \<Rightarrow> u8 list \<Rightarrow> u8 list" where
  "checked_data_encode sha256d data =
     emit_int (word_of_nat (length data) :: u32) @ sha2_checksum sha256d data @ data"

definition checked_data_decode :: "(u8 list \<Rightarrow> u8 list) \<Rightarrow> u8 list decoder" where
  "checked_data_decode sha256d =
     dbind (read_int :: u32 decoder) (\<lambda>len.
     dbind (read_slice 4) (\<lambda>checksum.
     dbind (read_bytes_from_finite_reader (unat len) MAX_VEC_SIZE []) (\<lambda>ret.
       let expected_checksum = sha2_checksum sha256d ret in
       if expected_checksum \<noteq> checksum then dfail (InvalidChecksum expected_checksum checksum)
       else dret ret)))"

section \<open>Whole messages\<close>

definition deserialize_partial :: "'a decoder \<Rightarrow> u8 list \<Rightarrow> ('a \<times> nat, enc_error) result" where
  "deserialize_partial d data =
     (case d data of Err e \<Rightarrow> Err e | Ok (rv, rest) \<Rightarrow> Ok (rv, length data - length rest))"

definition deserialize :: "'a decoder \<Rightarrow> u8 list \<Rightarrow> ('a, enc_error) result" where
  "deserialize d data =
     (case deserialize_partial d data of
        Err e \<Rightarrow> Err e
      | Ok (rv, consumed) \<Rightarrow>
          if consumed = length data then Ok rv
          else Err (ParseFailed ''data not consumed entirely when explicitly deserializing''))"

section \<open>The reader combinators\<close>

named_theorems codec_simps

lemma dret_Ok_iff [codec_simps]: "dret x bs = Ok (y, r) \<longleftrightarrow> x = y \<and> bs = r"
  by (simp add: dret_def)

lemma dfail_Ok_iff [codec_simps]: "dfail e bs = Ok (y, r) \<longleftrightarrow> False"
  by (simp add: dfail_def)

lemma dbind_Ok_iff [codec_simps]:
  "dbind d f bs = Ok (y, r) \<longleftrightarrow> (\<exists>x bs'. d bs = Ok (x, bs') \<and> f x bs' = Ok (y, r))"
  by (auto simp: dbind_def split: sum.splits)

lemma read_slice_append [simp]: "length s = n \<Longrightarrow> read_slice n (s @ rest) = Ok (s, rest)"
  by (simp add: read_slice_def)

lemma read_slice_Ok_iff [codec_simps]:
  "read_slice n bs = Ok (s, r) \<longleftrightarrow> length s = n \<and> bs = s @ r"
  by (auto simp: read_slice_def)

section \<open>The contract of an encodable type\<close>

locale codec =
  fixes enc :: "'a \<Rightarrow> u8 list" and dec :: "'a decoder" and valid :: "'a \<Rightarrow> bool"
  assumes round_trip: "valid x \<Longrightarrow> dec (enc x @ rest) = Ok (x, rest)"
begin

lemma decode_end: "valid x \<Longrightarrow> dec (enc x) = Ok (x, [])"
  using round_trip [of x "[]"] by simp

lemma limited_codec: "codec enc (consensus_decode dec) (\<lambda>x. valid x \<and> length (enc x) \<le> MAX_VEC_SIZE)"
proof
  fix x rest
  assume x: "valid x \<and> length (enc x) \<le> MAX_VEC_SIZE"
  then have "take MAX_VEC_SIZE (enc x @ rest) = enc x @ take (MAX_VEC_SIZE - length (enc x)) rest"
    "drop MAX_VEC_SIZE (enc x @ rest) = drop (MAX_VEC_SIZE - length (enc x)) rest" by simp_all
  with x show "consensus_decode dec (enc x @ rest) = Ok (x, rest)"
    by (simp only: consensus_decode_def) (simp add: round_trip)
qed

lemma deserialize_serialize: "valid x \<Longrightarrow> deserialize dec (enc x) = Ok x"
  by (simp add: deserialize_def deserialize_partial_def decode_end)

lemma bind_enc: "valid x \<Longrightarrow> dbind dec f (enc x @ rest) = f x rest"
  by (simp add: dbind_def round_trip)

lemma prefix_free: "valid x \<Longrightarrow> valid y \<Longrightarrow> enc x @ r = enc y @ r' \<Longrightarrow> x = y \<and> r = r'"
  by (metis round_trip sum.inject(2) prod.inject)

lemma enc_inject: "valid x \<Longrightarrow> valid y \<Longrightarrow> enc x = enc y \<longleftrightarrow> x = y"
  using prefix_free [of x y "[]" "[]"] by auto

lemma decode_times_concat:
  "list_all valid xs \<Longrightarrow> decode_times (length xs) dec (concat (map enc xs) @ rest) = Ok (xs, rest)"
proof (induction xs)
  case (Cons x xs)
  then have "dec (enc x @ concat (map enc xs) @ rest) = Ok (x, concat (map enc xs) @ rest)"
    by (simp add: round_trip)
  with Cons show ?case by (simp add: codec_simps)
qed (simp add: dret_def)

end

locale canonical_codec = codec +
  assumes canonical: "dec bs = Ok (x, rest) \<Longrightarrow> valid x \<and> bs = enc x @ rest"
begin

lemma decode_iff: "dec bs = Ok (x, rest) \<longleftrightarrow> valid x \<and> bs = enc x @ rest"
  using canonical round_trip by blast

lemma limited_canonical_codec:
  "canonical_codec enc (consensus_decode dec) (\<lambda>x. valid x \<and> length (enc x) \<le> MAX_VEC_SIZE)"
proof (intro canonical_codec.intro limited_codec canonical_codec_axioms.intro)
  fix bs x rest
  assume "consensus_decode dec bs = Ok (x, rest)"
  then obtain r where r: "dec (take MAX_VEC_SIZE bs) = Ok (x, r)" "rest = r @ drop MAX_VEC_SIZE bs"
    by (auto simp: consensus_decode_def split: sum.splits)
  then have "valid x" and "take MAX_VEC_SIZE bs = enc x @ r" by (simp_all add: canonical)
  moreover have "bs = take MAX_VEC_SIZE bs @ drop MAX_VEC_SIZE bs" by simp
  moreover have "length (enc x) \<le> MAX_VEC_SIZE"
    using arg_cong [OF calculation(2), of length] by simp
  ultimately show "(valid x \<and> length (enc x) \<le> MAX_VEC_SIZE) \<and> bs = enc x @ rest"
    using r(2) by (metis append.assoc)
qed

lemma decode_times_iff:
  "decode_times n dec bs = Ok (xs, rest) \<longleftrightarrow>
     length xs = n \<and> list_all valid xs \<and> bs = concat (map enc xs) @ rest"
proof (induction n arbitrary: bs xs)
  case 0
  then show ?case by (auto simp: codec_simps)
next
  case (Suc n)
  have "decode_times (Suc n) dec bs = Ok (xs, rest) \<longleftrightarrow>
      (\<exists>x xs'. valid x \<and> length xs' = n \<and> list_all valid xs' \<and>
        bs = enc x @ concat (map enc xs') @ rest \<and> x # xs' = xs)"
    by (auto simp: dbind_Ok_iff dret_Ok_iff decode_iff Suc.IH)
  then show ?case by (cases xs) auto
qed

lemma deserialize_iff: "deserialize dec bs = Ok x \<longleftrightarrow> valid x \<and> bs = enc x"
proof
  assume "deserialize dec bs = Ok x"
  then obtain rest where "dec bs = Ok (x, rest)" "length bs - length rest = length bs"
    by (auto simp: deserialize_def deserialize_partial_def split: sum.splits prod.splits if_splits)
  then show "valid x \<and> bs = enc x" using canonical [of bs x rest] by auto
qed (simp add: deserialize_serialize)

end

section \<open>Integers and byte arrays\<close>

lemma length_to_le_bytes: "length (to_le_bytes (v :: 'a::len word)) = LENGTH('a) div 8"
  by (simp add: to_le_bytes_def)

lemma int_canonical_codec:
  assumes "8 dvd LENGTH('a)"
  shows "canonical_codec (emit_int :: 'a::len word \<Rightarrow> u8 list) read_int (\<lambda>_. True)"
proof
  fix x :: "'a word" and rest
  show "read_int (emit_int x @ rest) = Ok (x, rest)"
    using assms
    by (simp add: read_int_def emit_int_def codec_simps length_to_le_bytes from_to_le_bytes_word)
next
  fix bs rest and x :: "'a word"
  assume "read_int bs = Ok (x, rest)"
  then show "True \<and> bs = emit_int x @ rest"
    using assms by (auto simp: read_int_def emit_int_def codec_simps to_from_le_bytes_word)
qed

interpretation c_u16: canonical_codec "emit_int :: u16 \<Rightarrow> u8 list" read_int "\<lambda>_. True"
  by (rule int_canonical_codec) simp

interpretation c_u32: canonical_codec "emit_int :: u32 \<Rightarrow> u8 list" read_int "\<lambda>_. True"
  by (rule int_canonical_codec) simp

interpretation c_u64: canonical_codec "emit_int :: u64 \<Rightarrow> u8 list" read_int "\<lambda>_. True"
  by (rule int_canonical_codec) simp

interpretation c_u8: canonical_codec emit_u8 read_u8 "\<lambda>_. True"
proof
  show "read_u8 (emit_u8 x @ rest) = Ok (x, rest)" for x rest
    by (simp add: emit_u8_def read_u8_def read_slice_def dbind_def dret_def)
  show "True \<and> bs = emit_u8 x @ rest" if "read_u8 bs = Ok (x, rest)" for bs x rest
    using that by (cases bs) (auto simp: emit_u8_def read_u8_def read_slice_def dbind_def dret_def)
qed

declare c_u8.decode_iff [codec_simps] c_u16.decode_iff [codec_simps]
  c_u32.decode_iff [codec_simps] c_u64.decode_iff [codec_simps]

interpretation c_bool: codec emit_bool read_bool "\<lambda>_. True"
  by unfold_locales
    (simp add: emit_bool_def read_bool_def read_u8_def read_slice_def dbind_def dret_def)

definition array_encode :: "u8 list \<Rightarrow> u8 list" where
  "array_encode bs = bs"

text \<open>\<open>impl_array!\<close>: byte arrays of a fixed size, and the 32-byte hashes.\<close>

lemma array_canonical_codec: "canonical_codec array_encode (read_slice n) (\<lambda>bs. length bs = n)"
  by unfold_locales (auto simp: array_encode_def read_slice_Ok_iff)

interpretation c_hash: canonical_codec array_encode "read_slice 32" "\<lambda>bs. length bs = 32"
  by (rule array_canonical_codec)

section \<open>Variable-length integers round trip\<close>

lemma unat_ucast_u64:
  fixes x :: "'a::len word"
  assumes "LENGTH('a) \<le> 64"
  shows "unat (ucast x :: u64) = unat x"
proof -
  have "unat x < 2 ^ LENGTH('a)" by (rule unsigned_less)
  also have "\<dots> \<le> 2 ^ 64" using assms by (intro power_increasing) simp_all
  finally show ?thesis by (simp add: unsigned_ucast_eq take_bit_eq_mod)
qed

lemma ucast_down_up:
  fixes n :: u64
  assumes "unat n < 2 ^ LENGTH('a)" and "LENGTH('a) \<le> 64"
  shows "ucast (ucast n :: 'a::len word) = n"
proof -
  have "unat (ucast n :: 'a word) = unat n"
    using assms(1) by (simp add: unsigned_ucast_eq take_bit_eq_mod)
  then show ?thesis by (simp add: word_unat_eq_iff unat_ucast_u64 assms(2))
qed

lemma ucast_up_down:
  fixes x :: "'a::len word"
  assumes "LENGTH('a) \<le> 64"
  shows "ucast (ucast x :: u64) = x"
  using unsigned_less [of x]
  by (simp add: word_unat_eq_iff unsigned_ucast_eq [where 'c = 'a] unat_ucast_u64 [OF assms] take_bit_eq_mod)

lemma dbind_read [simp]:
  "dbind read_u8 f (emit_u8 b @ rest) = f b rest"
  "dbind read_int g (emit_int (v :: u16) @ rest) = g v rest"
  "dbind read_int h (emit_int (w :: u32) @ rest) = h w rest"
  "dbind read_int k (emit_int (x :: u64) @ rest) = k x rest"
  by (simp_all add: c_u8.bind_enc c_u16.bind_enc c_u32.bind_enc c_u64.bind_enc)

lemma dbind_read_slice [simp]: "length s = n \<Longrightarrow> dbind (read_slice n) f (s @ rest) = f s rest"
  by (simp add: dbind_def)

lemma unat_ucast_small:
  fixes n :: u64
  shows "n \<le> 0xFC \<Longrightarrow> unat (ucast n :: u8) = unat n"
    and "n \<le> 0xFFFF \<Longrightarrow> unat (ucast n :: u16) = unat n"
    and "n \<le> 0xFFFFFFFF \<Longrightarrow> unat (ucast n :: u32) = unat n"
  by (simp_all add: unsigned_ucast_eq take_bit_eq_mod word_le_nat_alt)

lemma varint_round_trip: "varint_decode (varint_encode n @ rest) = Ok (n, rest)"
proof -
  consider "n \<le> 0xFC" | "\<not> n \<le> 0xFC" "n \<le> 0xFFFF" | "\<not> n \<le> 0xFC" "\<not> n \<le> 0xFFFF" "n \<le> 0xFFFFFFFF"
    | "\<not> n \<le> 0xFC" "\<not> n \<le> 0xFFFF" "\<not> n \<le> 0xFFFFFFFF"
    by blast
  then show ?thesis
  proof cases
    case 1
    then have "unat (ucast n :: u8) \<le> 252" by (simp add: unat_ucast_small word_le_nat_alt)
    then have "ucast n \<notin> {0xFF, 0xFE, 0xFD :: u8}" by auto
    moreover have "ucast (ucast n :: u8) = n"
      using 1 by (intro ucast_down_up) (simp_all add: word_le_nat_alt)
    ultimately show ?thesis using 1 by (simp add: varint_decode_def varint_encode_def dret_def)
  next
    case 2
    then have "\<not> (ucast n :: u16) < 0xFD" by (simp add: unat_ucast_small word_le_nat_alt word_less_nat_alt)
    moreover have "ucast (ucast n :: u16) = n"
      using 2 by (intro ucast_down_up) (simp_all add: word_le_nat_alt)
    ultimately show ?thesis using 2 by (simp add: varint_decode_def varint_encode_def dret_def)
  next
    case 3
    then have "\<not> (ucast n :: u32) < 0x10000" by (simp add: unat_ucast_small word_le_nat_alt word_less_nat_alt)
    moreover have "ucast (ucast n :: u32) = n"
      using 3 by (intro ucast_down_up) (simp_all add: word_le_nat_alt)
    ultimately show ?thesis using 3 by (simp add: varint_decode_def varint_encode_def dret_def)
  next
    case 4
    then have "\<not> n < 0x100000000" by (simp add: word_le_nat_alt word_less_nat_alt)
    then show ?thesis using 4 by (simp add: varint_decode_def varint_encode_def dret_def)
  qed
qed

lemma unat_bounds:
  "unat (x :: u8) < 256" "unat (y :: u16) < 65536" "unat (z :: u32) < 4294967296"
  using unsigned_less [of x] unsigned_less [of y] unsigned_less [of z] by simp_all

lemma varint_canonical: "varint_decode bs = Ok (n, rest) \<Longrightarrow> bs = varint_encode n @ rest"
proof -
  assume "varint_decode bs = Ok (n, rest)"
  then obtain b bs' where bs: "bs = emit_u8 b @ bs'" and
    cases: "(if b = 0xFF then dbind read_int (\<lambda>x. if x < 0x100000000 then dfail NonMinimalVarInt else dret x)
     else if b = 0xFE then
       dbind read_int (\<lambda>x :: u32. if x < 0x10000 then dfail NonMinimalVarInt else dret (ucast x))
     else if b = 0xFD then
       dbind read_int (\<lambda>x :: u16. if x < 0xFD then dfail NonMinimalVarInt else dret (ucast x))
     else dret (ucast b)) bs' = Ok (n, rest)"
    by (auto simp: varint_decode_def dbind_Ok_iff c_u8.decode_iff)
  consider "b = 0xFF" | "b = 0xFE" | "b = 0xFD" | "b \<notin> {0xFF, 0xFE, 0xFD}" by blast
  then show ?thesis
  proof cases
    case 1
    then have "bs' = emit_int n @ rest" "\<not> n < 0x100000000"
      using cases by (auto simp: dbind_Ok_iff c_u64.decode_iff dret_Ok_iff dfail_Ok_iff split: if_splits)
    with 1 bs show ?thesis by (auto simp: varint_encode_def word_le_nat_alt word_less_nat_alt)
  next
    case 2
    then obtain x :: u32 where x: "bs' = emit_int x @ rest" "\<not> x < 0x10000" "n = ucast x"
      using cases by (auto simp: dbind_Ok_iff c_u32.decode_iff dret_Ok_iff dfail_Ok_iff split: if_splits)
    with 2 bs unat_bounds(3) [of x] show ?thesis
      by (auto simp: varint_encode_def word_le_nat_alt word_less_nat_alt unat_ucast_u64 ucast_up_down)
  next
    case 3
    then obtain x :: u16 where x: "bs' = emit_int x @ rest" "\<not> x < 0xFD" "n = ucast x"
      using cases by (auto simp: dbind_Ok_iff c_u16.decode_iff dret_Ok_iff dfail_Ok_iff split: if_splits)
    with 3 bs unat_bounds(2) [of x] show ?thesis
      by (auto simp: varint_encode_def word_le_nat_alt word_less_nat_alt unat_ucast_u64 ucast_up_down)
  next
    case 4
    then have n: "n = ucast b" "bs' = rest" using cases by (simp_all add: dret_Ok_iff)
    have "unat b \<noteq> 255" "unat b \<noteq> 254" "unat b \<noteq> 253" using 4 by (auto simp: word_unat_eq_iff)
    with unat_bounds(1) [of b] have "unat b \<le> 252" by linarith
    with n bs show ?thesis
      by (simp add: varint_encode_def word_le_nat_alt unat_ucast_u64 ucast_up_down)
  qed
qed

interpretation c_varint: canonical_codec varint_encode varint_decode "\<lambda>_. True"
  by unfold_locales (simp_all add: varint_round_trip varint_canonical)

section \<open>Vectors round trip\<close>

abbreviation vec_wf :: "('a \<Rightarrow> bool) \<Rightarrow> 'a list \<Rightarrow> bool" where
  "vec_wf valid xs \<equiv> list_all valid xs \<and> length xs < 2 ^ 64"

lemma unat_u64_less: "unat (n :: u64) < 2 ^ 64"
  by (rule less_le_trans [OF unsigned_less]) simp

lemma unat_length_u64: "n < 2 ^ 64 \<Longrightarrow> unat (word_of_nat n :: u64) = n"
  by (simp add: unsigned_of_nat take_bit_eq_mod)

context codec
begin

lemma vec_codec: "codec (vec_encode enc) (vec_decode dec) (vec_wf valid)"
  by unfold_locales
    (simp add: vec_encode_def vec_decode_def c_varint.bind_enc
      unat_length_u64 decode_times_concat)

end

context canonical_codec
begin

lemma vec_canonical_codec: "canonical_codec (vec_encode enc) (vec_decode dec) (vec_wf valid)"
proof (intro canonical_codec.intro vec_codec canonical_codec_axioms.intro)
  fix bs xs rest
  assume "vec_decode dec bs = Ok (xs, rest)"
  then obtain n :: u64 where n: "unat n = length xs" and "list_all valid xs"
    "bs = varint_encode n @ concat (map enc xs) @ rest"
    by (auto simp: vec_decode_def dbind_Ok_iff c_varint.decode_iff decode_times_iff)
  moreover have "length xs < 2 ^ 64" using n unat_u64_less [of n] by simp
  moreover have "word_of_nat (length xs) = n" by (simp flip: n)
  ultimately show "vec_wf valid xs \<and> bs = vec_encode enc xs @ rest"
    by (simp add: vec_encode_def)
qed

end

lemma read_bytes_append:
  assumes "chunk_size \<noteq> 0"
  shows "read_bytes_from_finite_reader len chunk_size ret bs =
    (if length bs < len then Err Io_UnexpectedEof else Ok (ret @ take len bs, drop len bs))"
  using assms
proof (induction len chunk_size ret arbitrary: bs rule: read_bytes_from_finite_reader.induct)
  case (1 len chunk_size ret)
  show ?case
  proof (cases "len = 0")
    case True
    then show ?thesis by (subst read_bytes_from_finite_reader.simps) (simp add: dret_def)
  next
    case False
    define k where "k = min len chunk_size"
    have k: "0 < k" "k \<le> len" using False 1(2) by (auto simp: k_def)
    then have "take len bs = take k bs @ take (len - k) (drop k bs)"
      by (simp flip: take_add)
    with False 1(2) k 1(1) [of "take k bs" "drop k bs"] show ?thesis
      by (subst read_bytes_from_finite_reader.simps)
        (auto simp: dbind_def read_slice_def k_def [symmetric] split: if_splits)
  qed
qed

lemma bytes_canonical_codec:
  "canonical_codec consensus_encode_with_size bytes_decode (\<lambda>bs. length bs < 2 ^ 64)"
proof
  fix x rest :: "u8 list"
  assume "length x < 2 ^ 64"
  then show "bytes_decode (consensus_encode_with_size x @ rest) = Ok (x, rest)"
    by (simp add: bytes_decode_def consensus_encode_with_size_def read_bytes_append unat_length_u64
        c_varint.bind_enc)
next
  fix bs x rest
  assume "bytes_decode bs = Ok (x, rest)"
  then obtain n :: u64 and bs' where n: "bs = varint_encode n @ bs'" "\<not> length bs' < unat n"
    "x = take (unat n) bs'" "rest = drop (unat n) bs'"
    by (auto simp: bytes_decode_def dbind_Ok_iff c_varint.decode_iff read_bytes_append split: if_splits)
  then have len: "unat n = length x" by simp
  then have "word_of_nat (length x) = n" by (simp flip: len)
  moreover have "length x < 2 ^ 64" using unat_u64_less [of n] by (simp flip: len)
  ultimately show "length x < 2 ^ 64 \<and> bs = consensus_encode_with_size x @ rest"
    using n by (simp add: consensus_encode_with_size_def)
qed

interpretation c_bytes: canonical_codec consensus_encode_with_size bytes_decode
  "\<lambda>bs. length bs < 2 ^ 64"
  by (rule bytes_canonical_codec)

text \<open>
  Checksummed data reads back, and whatever is accepted carries the right checksum, for every
  hash function that gives at least four bytes.
\<close>

lemma checked_data_canonical_codec:
  assumes "\<And>data. 4 \<le> length (sha256d data)"
  shows "canonical_codec (checked_data_encode sha256d) (checked_data_decode sha256d)
    (\<lambda>bs. length bs < 2 ^ 32)"
proof
  have sum: "length (sha2_checksum sha256d data) = 4" for data
    using assms [of data] by (simp add: sha2_checksum_def)
  have chunk: "MAX_VEC_SIZE \<noteq> 0" by (simp add: MAX_VEC_SIZE_def)
  {
    fix x rest :: "u8 list"
    assume x: "length x < 2 ^ 32"
    then have "unat (word_of_nat (length x) :: u32) = length x"
      by (simp add: unsigned_of_nat take_bit_eq_mod)
    then show "checked_data_decode sha256d (checked_data_encode sha256d x @ rest) = Ok (x, rest)"
      by (simp add: checked_data_decode_def checked_data_encode_def read_bytes_append [OF chunk] sum
          dbind_def [of "read_bytes_from_finite_reader _ _ _"] dret_def)
  next
    fix bs x rest
    assume "checked_data_decode sha256d bs = Ok (x, rest)"
    then obtain n :: u32 and c bs' where n: "bs = emit_int n @ c @ bs'" "\<not> length bs' < unat n"
      "x = take (unat n) bs'" "rest = drop (unat n) bs'" "sha2_checksum sha256d x = c"
      by (auto simp: checked_data_decode_def dbind_Ok_iff c_u32.decode_iff read_slice_Ok_iff
          read_bytes_append [OF chunk] Let_def dret_Ok_iff dfail_Ok_iff split: if_splits)
    then have len: "unat n = length x" by simp
    then have "word_of_nat (length x) = n" by (simp flip: len)
    moreover have "length x < 2 ^ 32" using unat_bounds(3) [of n] by (simp flip: len)
    ultimately show "length x < 2 ^ 32 \<and> bs = checked_data_encode sha256d x @ rest"
      using n by (simp add: checked_data_encode_def)
  }
qed

section \<open>Properties\<close>

text \<open>
  The encoding of a variable-length integer has the announced length and is the only byte
  string that decodes to it: reading a prefix succeeds with \<open>n\<close> exactly when the prefix is the
  encoding of \<open>n\<close>, so no number has two accepted encodings.
\<close>

theorem varint_decode_iff:
  "(varint_decode bs = Ok (n, rest) \<longleftrightarrow> bs = varint_encode n @ rest) \<and>
   length (varint_encode n) = varint_len n"
  using c_varint.decode_iff [of bs n rest]
  by (simp add: varint_encode_def varint_len_def emit_u8_def emit_int_def length_to_le_bytes)

text \<open>
  A byte string is accepted as checksummed data exactly when it is the encoding of the data it
  gives: the length and the checksum both match and nothing follows.
\<close>

theorem checked_data_deserialize_iff:
  assumes "\<And>data. 4 \<le> length (sha256d data)"
  shows "deserialize (checked_data_decode sha256d) bs = Ok data \<longleftrightarrow>
    length data < 2 ^ 32 \<and> bs = checked_data_encode sha256d data"
  using canonical_codec.deserialize_iff [OF checked_data_canonical_codec [OF assms]] by simp

theorem checked_data_deserialize_iff_witness:
  "deserialize (checked_data_decode (\<lambda>d. replicate 32 7))
     (checked_data_encode (\<lambda>d. replicate 32 7) [1, 2, 3]) = Ok [1, 2, 3]"
  by (subst checked_data_deserialize_iff) simp_all

end
