(* ===== verification/Block_Header.thy ===== *)
theory Block_Header
  imports Pow Consensus
begin

text \<open>
  Block headers, from \<open>src/dash/src/blockdata/block.rs\<close>: the header, its version field, its
  consensus encoding, and the proof-of-work check. The block hash function (X11 or double
  SHA-256, from hash crates outside the repository's sources) is the parameter \<open>H\<close>, applied to
  the encoded header; hashes are lists of 32 bytes.
\<close>

section \<open>Data\<close>

type_synonym block_hash = "u8 list"

datatype version = Version (version_0: u32)

record header =
  h_version :: version
  prev_blockhash :: block_hash
  merkle_root :: "u8 list"
  h_time :: u32
  bits :: compact_target
  nonce :: u32

definition USE_VERSION_BITS :: u32 where
  "USE_VERSION_BITS = 0x20000000"

definition VERSION_BITS_MASK :: u32 where
  "VERSION_BITS_MASK = 0x1FFFFFFF"

definition is_signalling_soft_fork :: "version \<Rightarrow> u8 \<Rightarrow> bool" where
  "is_signalling_soft_fork v b =
     (if b > 28 then False
      else if version_0 v AND NOT VERSION_BITS_MASK \<noteq> USE_VERSION_BITS then False
      else (version_0 v AND VERSION_BITS_MASK) AND push_bit (unat b) 1 > 0)"

section \<open>Encoding\<close>

definition version_encode :: "version \<Rightarrow> u8 list" where
  "version_encode v = emit_int (version_0 v)"

definition version_decode :: "version decoder" where
  "version_decode = dbind read_int (\<lambda>v. dret (Version v))"

definition compact_encode :: "compact_target \<Rightarrow> u8 list" where
  "compact_encode c = emit_int (compact_0 c)"

definition compact_decode :: "compact_target decoder" where
  "compact_decode = dbind read_int (\<lambda>c. dret (CompactTarget c))"

definition header_encode :: "header \<Rightarrow> u8 list" where
  "header_encode h =
     version_encode (h_version h) @ array_encode (prev_blockhash h) @ array_encode (merkle_root h) @
     emit_int (h_time h) @ compact_encode (bits h) @ emit_int (nonce h)"

definition header_decode :: "header decoder" where
  "header_decode =
     dbind version_decode (\<lambda>v. dbind (read_slice 32) (\<lambda>p. dbind (read_slice 32) (\<lambda>m.
     dbind read_int (\<lambda>t. dbind compact_decode (\<lambda>b. dbind read_int (\<lambda>n.
       dret \<lparr>h_version = v, prev_blockhash = p, merkle_root = m, h_time = t, bits = b, nonce = n\<rparr>))))))"

section \<open>Proof of work\<close>

definition block_hash :: "(u8 list \<Rightarrow> block_hash) \<Rightarrow> header \<Rightarrow> block_hash" where
  "block_hash H h = H (header_encode h)"

definition header_target :: "header \<Rightarrow> target" where
  "header_target h = from_compact (bits h)"

definition header_difficulty :: "header \<Rightarrow> u128 option" where
  "header_difficulty h = difficulty (header_target h)"

definition header_work :: "header \<Rightarrow> work option" where
  "header_work h = to_work (header_target h)"

datatype pow_error = BlockBadTarget | BlockBadProofOfWork

definition validate_pow ::
    "(u8 list \<Rightarrow> block_hash) \<Rightarrow> header \<Rightarrow> target \<Rightarrow> (block_hash, pow_error) result" where
  "validate_pow H h required_target =
     (let target = header_target h in
      if target \<noteq> required_target then Err BlockBadTarget
      else
        let hash = block_hash H h in
        if is_met_by target hash then Ok hash else Err BlockBadProofOfWork)"

section \<open>The header codec\<close>

definition header_valid :: "header \<Rightarrow> bool" where
  "header_valid h \<longleftrightarrow> length (prev_blockhash h) = 32 \<and> length (merkle_root h) = 32"

interpretation c_version: canonical_codec version_encode version_decode "\<lambda>_. True"
  by unfold_locales
    (auto simp: version_encode_def version_decode_def dret_def dbind_Ok_iff c_u32.decode_iff)

interpretation c_compact: canonical_codec compact_encode compact_decode "\<lambda>_. True"
  by unfold_locales
    (auto simp: compact_encode_def compact_decode_def dret_def dbind_Ok_iff c_u32.decode_iff)

interpretation c_header: canonical_codec header_encode header_decode header_valid
proof
  show "header_decode (header_encode h @ rest) = Ok (h, rest)" if "header_valid h" for h rest
    using that
    by (simp add: header_encode_def header_decode_def header_valid_def c_version.bind_enc
        c_compact.bind_enc c_hash.bind_enc dret_def)
  show "header_valid h \<and> bs = header_encode h @ rest" if "header_decode bs = Ok (h, rest)" for bs h rest
    using that
    by (auto simp: header_encode_def header_decode_def header_valid_def dbind_Ok_iff dret_Ok_iff
        c_version.decode_iff c_compact.decode_iff c_hash.decode_iff c_u32.decode_iff)
qed

lemma length_header_encode: "header_valid h \<Longrightarrow> length (header_encode h) = 80"
  by (simp add: header_encode_def header_valid_def version_encode_def compact_encode_def
      array_encode_def emit_int_def length_to_le_bytes)

lemma u256_from_le_bytes_val:
  assumes "length bs = 32"
  shows "u256_val (u256_from_le_bytes bs) = le_val bs"
proof -
  have lens: "length (take 16 bs) = 16" "length (drop 16 bs) = 16" using assms by simp_all
  have small: "le_val xs < B128" if "length xs = 16" for xs
    using le_val_bound [of xs] that by (simp add: B128_def)
  have val: "unat (from_le_bytes xs :: u128) = le_val xs" if "length xs = 16" for xs
    using small [OF that] by (simp add: from_le_bytes_def unsigned_of_nat take_bit_eq_mod B128_def)
  have "le_val bs = le_val (take 16 bs @ drop 16 bs)" by simp
  also have "\<dots> = le_val (take 16 bs) + 256 ^ 16 * le_val (drop 16 bs)"
    unfolding le_val_append lens(1) by (rule refl)
  also have "(256::nat) ^ 16 = B128" by (simp add: B128_def)
  finally show ?thesis
    using val [OF lens(1)] val [OF lens(2)]
    by (simp add: u256_from_le_bytes_def split_in_half_def u256_val_def mult.commute)
qed

lemma is_met_by_val: "length h = 32 \<Longrightarrow> is_met_by t h \<longleftrightarrow> le_val h \<le> u256_val (target_0 t)"
  by (simp add: is_met_by_def u256_val_le_iff u256_from_le_bytes_val)

text \<open>A header with the target three, on which the witnesses evaluate the model.\<close>

definition sample_header :: header where
  "sample_header = \<lparr>h_version = Version 1, prev_blockhash = replicate 32 0,
     merkle_root = replicate 32 0, h_time = 0, bits = CompactTarget 0x03000003, nonce = 0\<rparr>"

lemma sample_header_target: "u256_val (target_0 (header_target sample_header)) = 3"
  using from_compact_small [where c = "0x03000003" and m = 3 and e = 3]
  by (simp add: header_target_def sample_header_def)

section \<open>Properties\<close>

text \<open>
  Parsing a byte string as a block header succeeds exactly on the 80-byte encodings of
  headers, and gives the header that was encoded.
\<close>

theorem header_deserialize_iff:
  "deserialize header_decode bs = Ok h \<longleftrightarrow> header_valid h \<and> bs = header_encode h \<and> length bs = 80"
  using c_header.deserialize_iff [of bs h] length_header_encode [of h] by auto

text \<open>
  A header passes the proof-of-work check exactly when its own target is the required one and
  the number its hash stands for (little-endian) does not exceed it; the result is the hash.
\<close>

theorem validate_pow_iff:
  assumes "length (block_hash H h) = 32"
  shows "validate_pow H h t = Ok r \<longleftrightarrow>
    r = block_hash H h \<and> header_target h = t \<and> le_val r \<le> u256_val (target_0 t)"
  using assms by (auto simp: validate_pow_def Let_def is_met_by_val)

theorem validate_pow_iff_witness:
  "validate_pow (\<lambda>_. replicate 32 0) sample_header (header_target sample_header) = Ok (replicate 32 0)"
  by (subst validate_pow_iff) (simp_all add: block_hash_def numeral_eq_Suc)

end
