(* ===== verification/Chain_Work.thy ===== *)
theory Chain_Work
  imports Block_Header
begin

text \<open>
  Cumulative chain work, from \<open>src/dash-spv/src/chain/chain_work.rs\<close>: a 256-bit number kept
  as 32 big-endian bytes, added and compared byte by byte. The lemmas show that these are the
  addition modulo \<open>2 ^ 256\<close> and the order of the number.
\<close>

section \<open>Definitions\<close>

datatype chain_work = ChainWork (cw_work: "u8 list")

definition cw_zero :: chain_work where
  "cw_zero = ChainWork (replicate 32 0)"

definition cw_from_target :: "target \<Rightarrow> chain_work option" where
  "cw_from_target t = map_option (\<lambda>w. ChainWork (u256_to_be_bytes (work_0 w))) (to_work t)"

definition cw_from_header :: "header \<Rightarrow> chain_work option" where
  "cw_from_header h = cw_from_target (header_target h)"

text \<open>
  The loop of \<open>combine\<close> runs from the last byte to the first; here it runs over the reversed
  byte lists.
\<close>

fun combine_loop :: "u16 \<Rightarrow> u8 list \<Rightarrow> u8 list \<Rightarrow> u8 list" where
  "combine_loop carry (a # as) (b # bs) =
     (let sum = ucast a + ucast b + carry in
      ucast (sum AND 0xff) # combine_loop (drop_bit 8 sum) as bs)"
| "combine_loop carry _ _ = []"

definition cw_combine :: "chain_work \<Rightarrow> chain_work \<Rightarrow> chain_work" where
  "cw_combine x y = ChainWork (rev (combine_loop 0 (rev (cw_work x)) (rev (cw_work y))))"

text \<open>The sum over a header slice; \<open>None\<close> would be a panic while computing a header's work.\<close>

fun cw_accumulate :: "chain_work \<Rightarrow> header list \<Rightarrow> chain_work option" where
  "cw_accumulate base [] = Some base"
| "cw_accumulate base (h # hs) =
     (case cw_from_header h of None \<Rightarrow> None | Some w \<Rightarrow> cw_accumulate (cw_combine base w) hs)"

definition cw_is_zero :: "chain_work \<Rightarrow> bool" where
  "cw_is_zero w = list_all (\<lambda>b. b = 0) (cw_work w)"

datatype ordering = Less | Equal | Greater

definition u8_cmp :: "u8 \<Rightarrow> u8 \<Rightarrow> ordering" where
  "u8_cmp a b = (if a < b then Less else if a = b then Equal else Greater)"

fun bytes_cmp :: "u8 list \<Rightarrow> u8 list \<Rightarrow> ordering" where
  "bytes_cmp (a # as) (b # bs) = (case u8_cmp a b of Equal \<Rightarrow> bytes_cmp as bs | r \<Rightarrow> r)"
| "bytes_cmp _ _ = Equal"

definition cw_cmp :: "chain_work \<Rightarrow> chain_work \<Rightarrow> ordering" where
  "cw_cmp x y = bytes_cmp (cw_work x) (cw_work y)"

definition cw_from_bytes :: "u8 list \<Rightarrow> chain_work" where
  "cw_from_bytes bytes = ChainWork bytes"

section \<open>The number a work value stands for\<close>

definition cw_valid :: "chain_work \<Rightarrow> bool" where
  "cw_valid w \<longleftrightarrow> length (cw_work w) = 32"

definition cw_val :: "chain_work \<Rightarrow> nat" where
  "cw_val w = le_val (rev (cw_work w))"

lemma unat_ucast_u8_u16: "unat (ucast (b :: u8) :: u16) = unat b"
  using unat_bounds(1) [of b] by (simp add: unsigned_ucast_eq take_bit_eq_mod)

lemma combine_digit:
  assumes "unat carry \<le> 1"
  shows "unat (ucast a + ucast b + carry :: u16) = unat (a :: u8) + unat (b :: u8) + unat carry"
proof -
  have "unat a + unat b + unat carry < 2 ^ 16"
    using unat_bounds(1) [of a] unat_bounds(1) [of b] assms by simp
  then show ?thesis by (simp add: unat_word_ariths unat_ucast_u8_u16)
qed

lemma add_digit_mod:
  fixes s A m :: nat
  shows "s mod 256 + 256 * ((A + s div 256) mod m) = (s + 256 * A) mod (256 * m)"
proof -
  have "(s + 256 * A) div 256 = A + s div 256" "(s + 256 * A) mod 256 = s mod 256" by simp_all
  then show ?thesis by (simp add: mod_mult2_eq)
qed

lemma combine_loop_val:
  assumes "length as = length bs" and "unat carry \<le> 1"
  shows "length (combine_loop carry as bs) = length as \<and>
    le_val (combine_loop carry as bs) = (le_val as + le_val bs + unat carry) mod 256 ^ length as"
  using assms
proof (induction as bs arbitrary: carry rule: list_induct2')
  case (4 a as b bs)
  define sum :: u16 where "sum = ucast a + ucast b + carry"
  have sum: "unat sum = unat a + unat b + unat carry"
    unfolding sum_def by (rule combine_digit [OF 4(3)])
  then have "unat sum < 512" using unat_bounds(1) [of a] unat_bounds(1) [of b] 4(3) by simp
  then have "unat sum div 256 < 2" by (intro less_mult_imp_div_less) simp
  moreover have "unat (drop_bit 8 sum) = unat sum div 256"
    by (subst unat_drop_bit_eq) (simp add: drop_bit_eq_div)
  ultimately have carry: "unat (drop_bit 8 sum) = unat sum div 256" "unat sum div 256 \<le> 1"
    by simp_all
  have "unat (sum AND 0xff) = take_bit 8 (unat sum)"
    by (simp add: unsigned_and_eq take_bit_eq_mask mask_eq_exp_minus_1)
  then have digit: "unat (ucast (sum AND 0xff) :: u8) = unat sum mod 256"
    by (simp add: unsigned_ucast_eq [where 'c = 8] take_bit_eq_mod)
  from 4(1) [of "drop_bit 8 sum"] 4(2) carry
  have IH: "length (combine_loop (drop_bit 8 sum) as bs) = length as"
    "le_val (combine_loop (drop_bit 8 sum) as bs) =
      (le_val as + le_val bs + unat sum div 256) mod 256 ^ length as"
    by simp_all
  have "le_val (combine_loop carry (a # as) (b # bs)) =
      unat sum mod 256 + 256 * ((le_val as + le_val bs + unat sum div 256) mod 256 ^ length as)"
    by (simp add: IH(2) digit flip: sum_def)
  also have "\<dots> = (unat sum + 256 * (le_val as + le_val bs)) mod (256 * 256 ^ length as)"
    by (rule add_digit_mod)
  also have "unat sum + 256 * (le_val as + le_val bs) = le_val (a # as) + le_val (b # bs) + unat carry"
    by (simp add: sum)
  finally show ?case using IH(1) by (simp flip: sum_def)
qed simp_all

lemma cw_combine_val:
  assumes "cw_valid x" and "cw_valid y"
  shows "cw_valid (cw_combine x y)" and "cw_val (cw_combine x y) = (cw_val x + cw_val y) mod 2 ^ 256"
  using combine_loop_val [of "rev (cw_work x)" "rev (cw_work y)" 0] assms
  by (simp_all add: cw_combine_def cw_valid_def cw_val_def)

lemma le_val_snoc: "le_val (xs @ [b]) = le_val xs + 256 ^ length xs * unat b"
  by (simp add: le_val_append)

lemma bytes_cmp_val:
  assumes "length as = length bs"
  shows "bytes_cmp as bs =
    (if le_val (rev as) < le_val (rev bs) then Less
     else if le_val (rev as) = le_val (rev bs) then Equal else Greater)"
  using assms
proof (induction as bs rule: list_induct2)
  case (Cons a as b bs)
  have less: "le_val (rev as) < 256 ^ length as" "le_val (rev bs) < 256 ^ length as"
    using le_val_bound [of "rev as"] le_val_bound [of "rev bs"] Cons.hyps by simp_all
  note digits = two_digits_less [OF less, of "unat a" "unat b"] two_digits_less [OF less(2,1), of "unat b" "unat a"]
  have eq: "le_val (rev (x # xs)) = unat x * 256 ^ length xs + le_val (rev xs)" for x xs
    by (simp add: le_val_snoc)
  show ?case
    unfolding eq Cons.hyps [symmetric] using digits Cons.IH
    by (cases "unat a" "unat b" rule: linorder_cases)
      (auto simp: u8_cmp_def word_less_nat_alt word_unat_eq_iff split: if_splits)
qed simp

lemma u256_to_be_bytes_val:
  "length (u256_to_be_bytes x) = 32" "le_val (rev (u256_to_be_bytes x)) = u256_val x"
proof -
  have val: "le_val (to_le_bytes w) = unat (w :: u128)" for w
    using unat_u128 [of w] by (simp add: to_le_bytes_def le_val_le_enc B128_def)
  show "length (u256_to_be_bytes x) = 32"
    by (simp add: u256_to_be_bytes_def to_be_bytes_def length_to_le_bytes)
  have "(256::nat) ^ 16 = B128" by (simp add: B128_def)
  then show "le_val (rev (u256_to_be_bytes x)) = u256_val x"
    by (simp add: u256_to_be_bytes_def to_be_bytes_def le_val_append length_to_le_bytes val u256_val_def)
qed

lemma u256_inverse_total: "\<exists>w. u256_inverse x = Some w"
proof (cases "u256_val x \<le> 1")
  case True
  then have "u256_val x = u256_val u256_ZERO \<or> u256_val x = u256_val u256_ONE" by (simp add: le_Suc_eq)
  then have "x = u256_ZERO \<or> x = u256_ONE" by (simp only: u256_val_inject)
  then show ?thesis
    by (auto simp: u256_inverse_def u256_is_zero_def u256_is_one_def u256_ZERO_def u256_ONE_def)
next
  case False
  then show ?thesis using u256_inverse_val [of x] by auto
qed

definition header_work_val :: "header \<Rightarrow> nat" where
  "header_work_val h = (case header_work h of None \<Rightarrow> 0 | Some w \<Rightarrow> u256_val (work_0 w))"

lemma header_work_val_bounds: "0 < header_work_val h" "header_work_val h < 2 ^ 256"
proof -
  obtain w where w: "u256_inverse (target_0 (header_target h)) = Some w"
    using u256_inverse_total by blast
  then have val: "header_work_val h = u256_val w"
    by (simp add: header_work_val_def header_work_def to_work_def)
  show "header_work_val h < 2 ^ 256" using u256_val_less [of w] by (simp add: val B256_eq)
  show "0 < header_work_val h"
  proof (cases "u256_val (target_0 (header_target h)) \<le> 1")
    case True
    then have "u256_val (target_0 (header_target h)) = u256_val u256_ZERO \<or>
        u256_val (target_0 (header_target h)) = u256_val u256_ONE"
      by (simp add: le_Suc_eq)
    then have "target_0 (header_target h) = u256_ZERO \<or> target_0 (header_target h) = u256_ONE"
      by (simp only: u256_val_inject)
    then have "w = u256_MAX"
      using w by (auto simp: u256_inverse_def u256_is_zero_def u256_is_one_def u256_ZERO_def u256_ONE_def)
    then show ?thesis by (simp add: val u256_val_MAX B256_eq)
  next
    case False
    then have "u256_val w = B256 div (u256_val (target_0 (header_target h)) + 1)"
      using u256_inverse_val [of "target_0 (header_target h)"] w by auto
    then show ?thesis
      using u256_val_less [of "target_0 (header_target h)"] by (simp add: val div_greater_zero_iff)
  qed
qed

lemma cw_from_header_val:
  "\<exists>w. cw_from_header h = Some w \<and> cw_valid w \<and> cw_val w = header_work_val h"
  using u256_inverse_total [of "target_0 (header_target h)"]
  by (auto simp: cw_from_header_def cw_from_target_def header_work_val_def header_work_def to_work_def
      cw_valid_def cw_val_def u256_to_be_bytes_val)

lemma cw_accumulate_val:
  "cw_valid base \<Longrightarrow> \<exists>w. cw_accumulate base hs = Some w \<and> cw_valid w \<and>
     cw_val w = (cw_val base + sum_list (map header_work_val hs)) mod 2 ^ 256"
proof (induction hs arbitrary: base)
  case Nil
  have "cw_val base < 256 ^ 32"
    using le_val_bound [of "rev (cw_work base)"] Nil by (simp add: cw_valid_def cw_val_def)
  with Nil show ?case by simp
next
  case (Cons h hs)
  obtain w where w: "cw_from_header h = Some w" "cw_valid w" "cw_val w = header_work_val h"
    using cw_from_header_val by blast
  from Cons.IH [OF cw_combine_val(1) [OF Cons.prems w(2)]] w show ?case
    by (auto simp: cw_combine_val(2) [OF Cons.prems w(2)] mod_simps add.assoc)
qed

lemma le_val_zeros: "le_val (replicate n 0) = 0"
  by (induction n) simp_all

lemma cw_val_zero: "cw_val cw_zero = 0" "cw_valid cw_zero"
  by (simp_all add: cw_val_def cw_valid_def cw_zero_def le_val_zeros)

section \<open>Properties\<close>

text \<open>
  Accumulating a list of headers onto a base never panics and adds to the base the work of
  every header, modulo \<open>2 ^ 256\<close>; the result is again 32 bytes.
\<close>

theorem accumulate_correct:
  assumes "cw_valid base"
  shows "\<exists>w. cw_accumulate base hs = Some w \<and> cw_valid w \<and>
    cw_val w = (cw_val base + sum_list (map header_work_val hs)) mod 2 ^ 256"
  using assms by (rule cw_accumulate_val)

theorem accumulate_correct_witness:
  "\<exists>w. cw_accumulate cw_zero [sample_header] = Some w \<and> cw_valid w \<and> cw_val w = 2 ^ 254"
proof -
  have "header_work_val sample_header = 2 ^ 254"
    using u256_inverse_val [of "target_0 (header_target sample_header)"]
    by (auto simp: header_work_val_def header_work_def to_work_def B256_eq sample_header_target)
  then have "(cw_val cw_zero + sum_list (map header_work_val [sample_header])) mod 2 ^ 256 = 2 ^ 254"
    by (simp add: cw_val_zero)
  with accumulate_correct [of cw_zero "[sample_header]"] show ?thesis
    by (simp add: cw_valid_def cw_zero_def)
qed

text \<open>
  Comparing two work values compares the numbers they stand for.
\<close>

theorem cw_cmp_correct:
  assumes "cw_valid x" and "cw_valid y"
  shows "cw_cmp x y =
    (if cw_val x < cw_val y then Less else if cw_val x = cw_val y then Equal else Greater)"
  using assms bytes_cmp_val [of "cw_work x" "cw_work y"] by (simp add: cw_cmp_def cw_valid_def cw_val_def)

theorem cw_cmp_correct_witness:
  "cw_cmp cw_zero (ChainWork (replicate 31 0 @ [1])) = Less"
  by (subst cw_cmp_correct)
    (simp_all add: cw_val_zero, simp_all add: cw_valid_def cw_zero_def cw_val_def)

end
