(* ===== verification/Chain_Types.thy ===== *)
theory Chain_Types
  imports Chain_Work
begin

text \<open>
  Types the synchronisation components share: headers with their cached hash, from
  \<open>src/dash-spv/src/types.rs\<close>, fork candidates, from \<open>src/dash-spv/src/chain/chain_tip.rs\<close>,
  the errors of \<open>src/dash-spv/src/error.rs\<close>, and the validation of header batches, from
  \<open>src/dash-spv/src/validation/header.rs\<close>. The formatted arguments of error messages are left
  out; the constant part of the message is kept.
\<close>

section \<open>Data\<close>

text \<open>A peer is its socket address, the bytes of an IP address and a port.\<close>

type_synonym socket_addr = "u8 list \<times> u16"

record hashed_header =
  hh_header :: header
  hh_hash :: block_hash

definition hashed_from :: "(u8 list \<Rightarrow> block_hash) \<Rightarrow> header \<Rightarrow> hashed_header" where
  "hashed_from H h = \<lparr>hh_header = h, hh_hash = block_hash H h\<rparr>"

definition hashed_encode :: "hashed_header \<Rightarrow> u8 list" where
  "hashed_encode hh = header_encode (hh_header hh) @ array_encode (hh_hash hh)"

definition hashed_decode :: "hashed_header decoder" where
  "hashed_decode = dbind header_decode (\<lambda>h. dbind (read_slice 32) (\<lambda>x.
     dret \<lparr>hh_header = h, hh_hash = x\<rparr>))"

record fork_candidate =
  fc_ancestor_height :: u32
  fc_headers :: "hashed_header list"
  fc_total_work :: chain_work

text \<open>\<open>None\<close> is the panic on a candidate without headers.\<close>

definition fc_tip_hash :: "fork_candidate \<Rightarrow> block_hash option" where
  "fc_tip_hash c = (if fc_headers c = [] then None else Some (hh_hash (last (fc_headers c))))"

datatype sync_error =
    SyncInProgress string
  | InvalidState string
  | MissingDependency string
  | NetworkError string
  | Validation string
  | StorageError string
  | ForkChainBreak string
  | MasternodeSyncFailed string
  | NotSynced

type_synonym 'a sync_result = "('a, sync_error) result"

section \<open>Validating a batch of headers\<close>

datatype validation_error = InvalidHeaderChain | InvalidProofOfWork

text \<open>
  The checks run in parallel in the source, which reports the error of some failing header; here
  they run in order.
\<close>

definition validate_header_at :: "hashed_header list \<Rightarrow> nat \<Rightarrow> (unit, validation_error) result" where
  "validate_header_at hhs i =
     (let header = hhs ! i in
      if 0 < i \<and> prev_blockhash (hh_header header) \<noteq> hh_hash (hhs ! (i - 1)) then Err InvalidHeaderChain
      else if \<not> is_met_by (header_target (hh_header header)) (hh_hash header) then Err InvalidProofOfWork
      else Ok ())"

fun try_for_each :: "('a \<Rightarrow> (unit, 'e) result) \<Rightarrow> 'a list \<Rightarrow> (unit, 'e) result" where
  "try_for_each f [] = Ok ()"
| "try_for_each f (x # xs) = (case f x of Err e \<Rightarrow> Err e | Ok _ \<Rightarrow> try_for_each f xs)"

definition validate_headers :: "hashed_header list \<Rightarrow> (unit, validation_error) result" where
  "validate_headers hhs = try_for_each (validate_header_at hhs) [0..<length hhs]"

section \<open>Lemmas\<close>

definition linked :: "hashed_header list \<Rightarrow> bool" where
  "linked hhs \<longleftrightarrow> successively (\<lambda>a b. prev_blockhash (hh_header b) = hh_hash a) hhs"

definition pow_ok :: "hashed_header \<Rightarrow> bool" where
  "pow_ok hh \<longleftrightarrow> is_met_by (header_target (hh_header hh)) (hh_hash hh)"

lemma try_for_each_Ok: "try_for_each f xs = Ok () \<longleftrightarrow> (\<forall>x \<in> set xs. f x = Ok ())"
  by (induction xs) (auto split: sum.splits)

interpretation c_hashed: canonical_codec hashed_encode hashed_decode
  "\<lambda>hh. header_valid (hh_header hh) \<and> length (hh_hash hh) = 32"
proof
  show "hashed_decode (hashed_encode hh @ rest) = Ok (hh, rest)"
    if "header_valid (hh_header hh) \<and> length (hh_hash hh) = 32" for hh rest
    using that
    by (simp add: hashed_encode_def hashed_decode_def c_header.bind_enc c_hash.bind_enc dret_def)
  show "(header_valid (hh_header hh) \<and> length (hh_hash hh) = 32) \<and> bs = hashed_encode hh @ rest"
    if "hashed_decode bs = Ok (hh, rest)" for bs hh rest
    using that
    by (auto simp: hashed_encode_def hashed_decode_def dbind_Ok_iff dret_Ok_iff
        c_header.decode_iff c_hash.decode_iff)
qed

section \<open>Properties\<close>

text \<open>
  A batch of headers is accepted exactly when every header refers to the hash of the one
  before it and every hash meets the target of its header.
\<close>

theorem validate_headers_iff: "validate_headers hhs = Ok () \<longleftrightarrow> linked hhs \<and> list_all pow_ok hhs"
proof -
  have "validate_header_at hhs i = Ok () \<longleftrightarrow>
      (0 < i \<longrightarrow> prev_blockhash (hh_header (hhs ! i)) = hh_hash (hhs ! (i - 1))) \<and> pow_ok (hhs ! i)" for i
    by (auto simp: validate_header_at_def Let_def pow_ok_def)
  then have "validate_headers hhs = Ok () \<longleftrightarrow> (\<forall>i < length hhs. pow_ok (hhs ! i)) \<and>
      (\<forall>i < length hhs. 0 < i \<longrightarrow> prev_blockhash (hh_header (hhs ! i)) = hh_hash (hhs ! (i - 1)))"
    by (auto simp: validate_headers_def try_for_each_Ok)
  also have "(\<forall>i < length hhs. 0 < i \<longrightarrow> prev_blockhash (hh_header (hhs ! i)) = hh_hash (hhs ! (i - 1))) \<longleftrightarrow>
      linked hhs"
    unfolding linked_def successively_conv_nth
    by (metis Suc_pred diff_Suc_1 less_Suc_eq_0_disj zero_less_Suc)
  finally show ?thesis by (auto simp: list_all_length)
qed

end
