(* ===== verification/Network_Params.thy ===== *)
theory Network_Params
  imports Pow "HOL-Library.Char_ord"
begin

text \<open>
  The networks and their constants: \<open>Network\<close> of \<open>src/dash-network/src/lib.rs\<close>,
  \<open>ServiceFlags\<close> and the genesis hashes of \<open>src/dash/src/network/constants.rs\<close>, and the
  consensus parameters of \<open>src/dash/src/consensus/params.rs\<close>.
\<close>

section \<open>Networks\<close>

datatype network = Mainnet | Testnet | Devnet | Regtest

definition from_magic :: "u32 \<Rightarrow> network option" where
  "from_magic magic =
     (if magic = 0xBD6B0CBF then Some Mainnet
      else if magic = 0xFFCAE2CE then Some Testnet
      else if magic = 0xCEFFCAE2 then Some Devnet
      else if magic = 0xDCB7C1FC then Some Regtest
      else None)"

fun magic :: "network \<Rightarrow> u32" where
  "magic Mainnet = 0xBD6B0CBF"
| "magic Testnet = 0xFFCAE2CE"
| "magic Devnet = 0xCEFFCAE2"
| "magic Regtest = 0xDCB7C1FC"

fun v20_activation_height :: "network \<Rightarrow> u32" where
  "v20_activation_height Mainnet = 1987776"
| "v20_activation_height Testnet = 905100"
| "v20_activation_height Devnet = 0"
| "v20_activation_height Regtest = 0"

fun default_p2p_port :: "network \<Rightarrow> u16" where
  "default_p2p_port Mainnet = 9999"
| "default_p2p_port Testnet = 19999"
| "default_p2p_port Devnet = 19799"
| "default_p2p_port Regtest = 19899"

fun dns_seeds :: "network \<Rightarrow> string list" where
  "dns_seeds Mainnet = [''dnsseed.dash.org'']"
| "dns_seeds Testnet = [''testnet-seed.dashdot.io'']"
| "dns_seeds Devnet = []"
| "dns_seeds Regtest = []"

fun network_display :: "network \<Rightarrow> string" where
  "network_display Mainnet = ''mainnet''"
| "network_display Testnet = ''testnet''"
| "network_display Devnet = ''devnet''"
| "network_display Regtest = ''regtest''"

definition to_lowercase :: "string \<Rightarrow> string" where
  "to_lowercase = map (\<lambda>c. if CHR ''A'' \<le> c \<and> c \<le> CHR ''Z'' then char_of (of_char c + 32 :: nat) else c)"

datatype parse_network_error = ParseNetworkError string

text \<open>For ASCII text, on which \<open>str::to_lowercase\<close> acts byte by byte.\<close>

definition network_from_str :: "string \<Rightarrow> (network, parse_network_error) result" where
  "network_from_str s =
     (let t = to_lowercase s in
      if t = ''mainnet'' \<or> t = ''main'' then Ok Mainnet
      else if t = ''testnet'' \<or> t = ''test'' then Ok Testnet
      else if t = ''devnet'' \<or> t = ''dev'' then Ok Devnet
      else if t = ''regtest'' then Ok Regtest
      else Err (ParseNetworkError s))"

text \<open>
  The hexadecimal text is big-endian and its bytes are reversed, so the hash is the little-endian
  encoding of the number.
\<close>

fun known_genesis_block_hash :: "network \<Rightarrow> u8 list option" where
  "known_genesis_block_hash Mainnet =
     Some (le_enc 32 0x00000ffd590b1485b3caadc19b22e6379c733355108f107a430458cdf3407ab6)"
| "known_genesis_block_hash Testnet =
     Some (le_enc 32 0x00000bafbc94add76cb75e2ec92894837288a481e5c005f6563d91623bf8bc2c)"
| "known_genesis_block_hash Devnet = None"
| "known_genesis_block_hash Regtest =
     Some (le_enc 32 0x000008ca1832a4baf228eb1553c03d3a2c8e02399550dd6ea8d65cec3ef23d2e)"

section \<open>Service flags\<close>

datatype service_flags = ServiceFlags (sf_0: u64)

definition sf_NONE :: service_flags where "sf_NONE = ServiceFlags 0"
definition sf_NETWORK :: service_flags where "sf_NETWORK = ServiceFlags (push_bit 0 1)"
definition sf_BLOOM :: service_flags where "sf_BLOOM = ServiceFlags (push_bit 2 1)"
definition sf_COMPACT_FILTERS :: service_flags where
  "sf_COMPACT_FILTERS = ServiceFlags (push_bit 6 1)"
definition sf_NODE_HEADERS_COMPRESSED :: service_flags where
  "sf_NODE_HEADERS_COMPRESSED = ServiceFlags (push_bit 11 1)"

definition sf_add :: "service_flags \<Rightarrow> service_flags \<Rightarrow> service_flags" where
  "sf_add s other = ServiceFlags (sf_0 s OR sf_0 other)"

definition sf_remove :: "service_flags \<Rightarrow> service_flags \<Rightarrow> service_flags" where
  "sf_remove s other = ServiceFlags (sf_0 s XOR sf_0 other)"

definition sf_has :: "service_flags \<Rightarrow> service_flags \<Rightarrow> bool" where
  "sf_has s flags \<longleftrightarrow> sf_0 s OR sf_0 flags = sf_0 s"

section \<open>Consensus parameters\<close>

definition work_MAINNET_MIN :: work where
  "work_MAINNET_MIN = Work (U256 0x00000000ffff00000000000000000000 0)"

definition work_TESTNET_MIN :: work where
  "work_TESTNET_MIN = Work (U256 0x00000000ffff00000000000000000000 0)"

definition work_DEVNET_MIN :: work where
  "work_DEVNET_MIN = Work (U256 0x00000377ae0000000000000000000000 0)"

definition work_REGTEST_MIN :: work where
  "work_REGTEST_MIN = Work (U256 0x7fffff00000000000000000000000000 0)"

record params =
  p_network :: network
  bip16_time :: u32
  bip34_height :: u32
  bip65_height :: u32
  bip66_height :: u32
  rule_change_activation_threshold :: u32
  miner_confirmation_window :: u32
  pow_limit :: work
  pow_target_spacing :: u64
  pow_target_timespan :: u64
  allow_min_difficulty_blocks :: bool
  no_pow_retargeting :: bool

fun params_new :: "network \<Rightarrow> params" where
  "params_new Mainnet = \<lparr>
     p_network = Mainnet,
     bip16_time = 1333238400,
     bip34_height = 227931,
     bip65_height = 388381,
     bip66_height = 363725,
     rule_change_activation_threshold = 1916,
     miner_confirmation_window = 2016,
     pow_limit = work_MAINNET_MIN,
     pow_target_spacing = 10 * 60,
     pow_target_timespan = 14 * 24 * 60 * 60,
     allow_min_difficulty_blocks = False,
     no_pow_retargeting = False \<rparr>"
| "params_new Testnet = \<lparr>
     p_network = Testnet,
     bip16_time = 1333238400,
     bip34_height = 21111,
     bip65_height = 581885,
     bip66_height = 330776,
     rule_change_activation_threshold = 1512,
     miner_confirmation_window = 2016,
     pow_limit = work_TESTNET_MIN,
     pow_target_spacing = 10 * 60,
     pow_target_timespan = 14 * 24 * 60 * 60,
     allow_min_difficulty_blocks = True,
     no_pow_retargeting = False \<rparr>"
| "params_new Devnet = \<lparr>
     p_network = Devnet,
     bip16_time = 1333238400,
     bip34_height = 1,
     bip65_height = 1,
     bip66_height = 1,
     rule_change_activation_threshold = 1916,
     miner_confirmation_window = 2016,
     pow_limit = work_DEVNET_MIN,
     pow_target_spacing = 10 * 60,
     pow_target_timespan = 14 * 24 * 60 * 60,
     allow_min_difficulty_blocks = False,
     no_pow_retargeting = False \<rparr>"
| "params_new Regtest = \<lparr>
     p_network = Regtest,
     bip16_time = 1333238400,
     bip34_height = 100000000,
     bip65_height = 1351,
     bip66_height = 1251,
     rule_change_activation_threshold = 108,
     miner_confirmation_window = 144,
     pow_limit = work_REGTEST_MIN,
     pow_target_spacing = 10 * 60,
     pow_target_timespan = 14 * 24 * 60 * 60,
     allow_min_difficulty_blocks = True,
     no_pow_retargeting = True \<rparr>"

definition difficulty_adjustment_interval :: "params \<Rightarrow> u64" where
  "difficulty_adjustment_interval p = pow_target_timespan p div pow_target_spacing p"

section \<open>Properties\<close>

text \<open>
  The magic numbers identify the networks: reading the magic of a network gives the network
  back, and only the four magics are recognised.
\<close>

theorem magic_round_trip: "from_magic m = Some n \<longleftrightarrow> m = magic n"
  by (cases n) (auto simp: from_magic_def)

lemma network_name_round_trip: "network_from_str (network_display n) = Ok n"
  by (cases n) (simp_all add: network_from_str_def to_lowercase_def less_eq_char_def Let_def)

lemma p_network_new [simp]: "p_network (params_new n) = n"
  by (cases n) simp_all

lemma sf_has_add: "sf_has (sf_add s f) f"
  by (simp add: sf_has_def sf_add_def bit_eq_iff bit_simps)

text \<open>Removing a flag that is set clears it; removing one that is not set sets it.\<close>

lemma sf_remove_absent: "sf_remove sf_NONE sf_NETWORK = sf_NETWORK"
  by (simp add: sf_remove_def sf_NONE_def sf_NETWORK_def)

end
