(* ===== verification/Difficulty.thy ===== *)
theory Difficulty
  imports Chain_Work Network_Params
begin

text \<open>
  Difficulty retargeting, from \<open>src/dash-spv/src/chain/difficulty.rs\<close>: the 256-bit integer of
  four 64-bit limbs, Dark Gravity Wave v3, the minimum-difficulty rule and the proof-of-work
  limits. Divisions by zero are \<open>None\<close>; the \<open>debug_assert!\<close> on the carry of
  \<open>mul_u64\<close> is not compiled in the release profile, where the product is truncated.
\<close>

section \<open>Four-limb integers\<close>

datatype du256 = DU256 (limbs: "u64 list")

definition du_ZERO :: du256 where
  "du_ZERO = DU256 (replicate 4 0)"

definition u64_cmp :: "u64 \<Rightarrow> u64 \<Rightarrow> ordering" where
  "u64_cmp a b = (if a < b then Less else if a = b then Equal else Greater)"

fun limbs_cmp :: "u64 list \<Rightarrow> u64 list \<Rightarrow> ordering" where
  "limbs_cmp (a # as) (b # bs) = (case u64_cmp a b of Equal \<Rightarrow> limbs_cmp as bs | r \<Rightarrow> r)"
| "limbs_cmp _ _ = Equal"

definition du_cmp :: "du256 \<Rightarrow> du256 \<Rightarrow> ordering" where
  "du_cmp x y = limbs_cmp (rev (limbs x)) (rev (limbs y))"

definition du_from_be_bytes :: "u8 list \<Rightarrow> du256" where
  "du_from_be_bytes bytes =
     DU256 (rev (map (\<lambda>i. from_be_bytes (take 8 (drop (i * 8) bytes))) [0, 1, 2, 3]))"

definition du_to_be_bytes :: "du256 \<Rightarrow> u8 list" where
  "du_to_be_bytes x = concat (map to_be_bytes (rev (limbs x)))"

definition du_from_target :: "target \<Rightarrow> du256" where
  "du_from_target t = du_from_be_bytes (u256_to_be_bytes (target_0 t))"

fun du_add_loop :: "u128 \<Rightarrow> u64 list \<Rightarrow> u64 list \<Rightarrow> u64 list" where
  "du_add_loop carry (a # as) (b # bs) =
     (let sum = ucast a + ucast b + carry in ucast sum # du_add_loop (drop_bit 64 sum) as bs)"
| "du_add_loop carry _ _ = []"

definition du_add :: "du256 \<Rightarrow> du256 \<Rightarrow> du256" where
  "du_add x y = DU256 (du_add_loop 0 (limbs x) (limbs y))"

fun du_mul_loop :: "u64 \<Rightarrow> u128 \<Rightarrow> u64 list \<Rightarrow> u64 list" where
  "du_mul_loop rhs carry [] = []"
| "du_mul_loop rhs carry (a # as) =
     (let prod = ucast a * ucast rhs + carry in ucast prod # du_mul_loop rhs (drop_bit 64 prod) as)"

definition du_mul_u64 :: "du256 \<Rightarrow> u64 \<Rightarrow> du256" where
  "du_mul_u64 x rhs = DU256 (du_mul_loop rhs 0 (limbs x))"

text \<open>The division runs from the most significant limb; its list comes and goes in that order.\<close>

fun du_div_loop :: "u64 \<Rightarrow> u128 \<Rightarrow> u64 list \<Rightarrow> u64 list" where
  "du_div_loop rhs rem [] = []"
| "du_div_loop rhs rem (a # as) =
     (let cur = push_bit 64 rem OR ucast a in
      ucast (cur div ucast rhs) # du_div_loop rhs (cur mod ucast rhs) as)"

definition du_div_u64 :: "du256 \<Rightarrow> u64 \<Rightarrow> du256 option" where
  "du_div_u64 x rhs =
     (if rhs = 0 then None else Some (DU256 (rev (du_div_loop rhs 0 (rev (limbs x))))))"

section \<open>Retargeting\<close>

definition DGW_PAST_BLOCKS :: u32 where
  "DGW_PAST_BLOCKS = 24"

definition pow_limit_target :: "network \<Rightarrow> target" where
  "pow_limit_target network =
     (let bytes = replicate 32 (0 :: u8) in
      if network = Mainnet \<or> network = Testnet
      then let bytes = bytes[3 := 0x0f] in
        Target (u256_from_be_bytes (take 4 bytes @ map (\<lambda>b. 0xff) (drop 4 bytes)))
      else let bytes = bytes[0 := 0x7f] in
        Target (u256_from_be_bytes (take 1 bytes @ map (\<lambda>b. 0xff) (drop 1 bytes))))"

definition to_target_bits :: "du256 \<Rightarrow> compact_target" where
  "to_target_bits x = to_compact_lossy (Target (u256_from_be_bytes (du_to_be_bytes x)))"

text \<open>The running average, over the window from the newest header to the oldest.\<close>

fun dgw_average :: "u64 \<Rightarrow> du256 \<Rightarrow> header list \<Rightarrow> du256 option" where
  "dgw_average count avg [] = Some avg"
| "dgw_average count avg (h # hs) =
     (let target = du_from_target (from_compact (bits h)) in
      if count = 1 then dgw_average (count + 1) target hs
      else
        case du_div_u64 (du_add (du_mul_u64 avg count) target) (count + 1) of
          None \<Rightarrow> None
        | Some avg' \<Rightarrow> dgw_average (count + 1) avg' hs)"

definition time_gap :: "u32 \<Rightarrow> u32 \<Rightarrow> u64" where
  "time_gap later earlier = (if later \<ge> earlier then ucast later - ucast earlier else 0)"

definition saturating_mul_u64 :: "u64 \<Rightarrow> u64 \<Rightarrow> u64" where
  "saturating_mul_u64 a b = (if unat a * unat b < 2 ^ 64 then a * b else - 1)"

definition next_work_required_dgw_v3 :: "header list \<Rightarrow> u32 \<Rightarrow> params \<Rightarrow> compact_target option" where
  "next_work_required_dgw_v3 previous_headers tip_height params =
     (let limit_target = pow_limit_target (p_network params);
          pow_limit_bits = to_compact_lossy limit_target in
      if tip_height < DGW_PAST_BLOCKS then Some pow_limit_bits
      else if no_pow_retargeting params then Some pow_limit_bits
      else if as_u32 (length previous_headers) < DGW_PAST_BLOCKS then Some pow_limit_bits
      else
        let window = drop (length previous_headers - unat DGW_PAST_BLOCKS) previous_headers in
        case dgw_average 1 du_ZERO (rev window) of
          None \<Rightarrow> None
        | Some past_target_avg \<Rightarrow>
            let actual = time_gap (h_time (last window)) (h_time (hd window));
                target_timespan = ucast DGW_PAST_BLOCKS * pow_target_spacing params;
                actual_clamped =
                  min (max actual (target_timespan div 3)) (saturating_mul_u64 target_timespan 3) in
            case du_div_u64 (du_mul_u64 past_target_avg actual_clamped) target_timespan of
              None \<Rightarrow> None
            | Some bn_new \<Rightarrow>
                let limit = du_from_be_bytes (u256_to_be_bytes (target_0 limit_target)) in
                Some (to_target_bits (if du_cmp bn_new limit = Greater then limit else bn_new)))"

definition min_difficulty_bits :: "params \<Rightarrow> u32 \<Rightarrow> compact_target \<Rightarrow> u32 \<Rightarrow> compact_target option option" where
  "min_difficulty_bits params prev_tip_time prev_tip_bits candidate_time =
     (if \<not> allow_min_difficulty_blocks params then Some None
      else
        let limit_target = pow_limit_target (p_network params);
            gap = time_gap candidate_time prev_tip_time in
        if gap > 2 * 60 * 60 then Some (Some (to_compact_lossy limit_target))
        else if gap > pow_target_spacing params * 4 then
          let prev_target = du_from_be_bytes (u256_to_be_bytes (target_0 (from_compact prev_tip_bits)));
              limit = du_from_be_bytes (u256_to_be_bytes (target_0 limit_target)) in
          case du_div_u64 limit 10 of
            None \<Rightarrow> None
          | Some threshold \<Rightarrow>
              Some (Some (to_target_bits
                (if du_cmp prev_target threshold \<noteq> Less then limit else du_mul_u64 prev_target 10)))
        else Some None)"

section \<open>The number a limb list stands for\<close>

definition du_valid :: "du256 \<Rightarrow> bool" where
  "du_valid x \<longleftrightarrow> length (limbs x) = 4"

definition du_val :: "du256 \<Rightarrow> nat" where
  "du_val x = ws_val (limbs x)"

lemma ws_val_less: "ws_val ws < (2 ^ 64) ^ length ws"
proof (induction ws)
  case (Cons w ws)
  have "unat w + 2 ^ 64 * ws_val ws < 2 ^ 64 * Suc (ws_val ws)" using unat_u64 [of w] by simp
  also have "\<dots> \<le> 2 ^ 64 * (2 ^ 64) ^ length ws" using Cons by (intro mult_le_mono2) simp
  finally show ?case by (simp del: power_numeral)
qed simp

lemma B256_limbs: "((2::nat) ^ 64) ^ 4 = B256"
  by (simp add: B256_eq flip: power_mult)

lemma du_val_less: "du_valid x \<Longrightarrow> du_val x < B256"
  using ws_val_less [of "limbs x"] by (simp only: du_val_def du_valid_def B256_limbs)

lemma du_mul_loop_eq: "du_mul_loop rhs carry ws = fst (mul_u64_loop rhs carry ws)"
  by (induction ws arbitrary: carry) (simp_all add: Let_def case_prod_beta ac_simps)

lemma du_mul_u64_val:
  assumes "du_valid x"
  shows "du_valid (du_mul_u64 x r)" and "du_val (du_mul_u64 x r) = du_val x * unat r mod B256"
proof -
  obtain ws c where loop: "mul_u64_loop r 0 (limbs x) = (ws, c)" by fastforce
  have ws: "length ws = 4" "ws_val ws + 2 ^ (64 * 4) * unat c = unat r * ws_val (limbs x)"
    using mul_u64_loop_val [OF _ loop] assms by (simp_all add: du_valid_def)
  show "du_valid (du_mul_u64 x r)"
    using ws(1) loop by (simp add: du_valid_def du_mul_u64_def du_mul_loop_eq)
  have "ws_val ws < B256" using ws_val_less [of ws] by (simp only: ws(1) B256_limbs)
  moreover have "du_val x * unat r = ws_val ws + B256 * unat c"
    unfolding du_val_def B256_eq using ws(2) by (simp add: mult.commute)
  ultimately show "du_val (du_mul_u64 x r) = du_val x * unat r mod B256"
    using loop by (simp add: du_val_def du_mul_u64_def du_mul_loop_eq)
qed

lemma add_word_mod:
  fixes s A m :: nat
  shows "s mod 2 ^ 64 + 2 ^ 64 * ((A + s div 2 ^ 64) mod m) = (s + 2 ^ 64 * A) mod (2 ^ 64 * m)"
proof -
  have "(s + 2 ^ 64 * A) div 2 ^ 64 = A + s div 2 ^ 64" "(s + 2 ^ 64 * A) mod 2 ^ 64 = s mod 2 ^ 64"
    by simp_all
  then show ?thesis by (simp only: mod_mult2_eq)
qed

lemma du_add_loop_val:
  assumes "length as = length bs" and "unat carry \<le> 1"
  shows "length (du_add_loop carry as bs) = length as \<and>
    ws_val (du_add_loop carry as bs) = (ws_val as + ws_val bs + unat carry) mod (2 ^ 64) ^ length as"
  using assms
proof (induction as bs arbitrary: carry rule: list_induct2')
  case (4 a as b bs)
  define sum :: u128 where "sum = ucast a + ucast b + carry"
  have less: "unat a + unat b + unat carry < 2 ^ 65"
    using unat_u64 [of a] unat_u64 [of b] 4(3) by simp
  then have sum: "unat sum = unat a + unat b + unat carry"
    unfolding sum_def by (simp add: unat_word_ariths ucast_u64_u128)
  have "unat sum div 2 ^ 64 < 2" using less unfolding sum by (intro less_mult_imp_div_less) simp
  moreover have drop: "unat (drop_bit 64 sum) = unat sum div 2 ^ 64"
    by (subst unat_drop_bit_eq) (simp only: drop_bit_eq_div)
  ultimately have carry: "unat (drop_bit 64 sum) \<le> 1" by linarith
  have digit: "unat (ucast sum :: u64) = unat sum mod 2 ^ 64"
    by (simp add: unsigned_ucast_eq take_bit_eq_mod)
  from 4(1) [OF _ carry] 4(2)
  have IH: "length (du_add_loop (drop_bit 64 sum) as bs) = length as"
    "ws_val (du_add_loop (drop_bit 64 sum) as bs) =
      (ws_val as + ws_val bs + unat sum div 2 ^ 64) mod (2 ^ 64) ^ length as"
    by (simp_all add: drop)
  have "ws_val (du_add_loop carry (a # as) (b # bs)) = unat sum mod 2 ^ 64 +
      2 ^ 64 * ((ws_val as + ws_val bs + unat sum div 2 ^ 64) mod (2 ^ 64) ^ length as)"
    by (simp only: du_add_loop.simps Let_def ws_val.simps IH(2) digit flip: sum_def)
  also have "\<dots> = (unat sum + 2 ^ 64 * (ws_val as + ws_val bs)) mod (2 ^ 64 * (2 ^ 64) ^ length as)"
    by (rule add_word_mod)
  also have "unat sum + 2 ^ 64 * (ws_val as + ws_val bs) = ws_val (a # as) + ws_val (b # bs) + unat carry"
    by (simp add: sum)
  finally show ?case using IH(1) by (simp flip: sum_def del: power_numeral)
qed simp_all

lemma du_add_val:
  assumes "du_valid x" and "du_valid y"
  shows "du_valid (du_add x y)" and "du_val (du_add x y) = (du_val x + du_val y) mod B256"
  using du_add_loop_val [of "limbs x" "limbs y" 0] assms
  by (simp_all add: du_valid_def du_val_def du_add_def B256_eq flip: power_mult)


lemma ws_val_append: "ws_val (xs @ ys) = ws_val xs + (2 ^ 64) ^ length xs * ws_val ys"
  by (induction xs) (simp_all add: algebra_simps)

lemma du_div_cur:
  assumes "unat rem < unat rhs"
  shows "unat (push_bit 64 rem OR ucast a :: u128) = unat rem * 2 ^ 64 + unat (a :: u64)"
    and "unat rem * 2 ^ 64 + unat a < unat (rhs :: u64) * 2 ^ 64"
proof -
  have rem: "unat rem < 2 ^ 64" using assms unat_u64 [of rhs] by linarith
  then have "unat (push_bit 64 rem) = push_bit 64 (unat rem)"
    by (subst unsigned_push_bit_eq) (simp add: take_bit_eq_mod push_bit_eq_mult)
  then have "unat (push_bit 64 rem OR ucast a :: u128) = unat a OR push_bit 64 (unat rem)"
    by (simp only: unsigned_or_eq ucast_u64_u128 or.commute)
  also have "\<dots> = unat a + 2 ^ 64 * unat rem" by (rule or_push_bit_nat [OF unat_u64])
  finally show "unat (push_bit 64 rem OR ucast a :: u128) = unat rem * 2 ^ 64 + unat a" by simp
  have "Suc (unat rem) * 2 ^ 64 \<le> unat rhs * 2 ^ 64" using assms by (intro mult_le_mono1) simp
  then show "unat rem * 2 ^ 64 + unat a < unat rhs * 2 ^ 64" using unat_u64 [of a] by simp
qed

lemma du_div_loop_val:
  assumes "unat rem < unat rhs"
  shows "length (du_div_loop rhs rem as) = length as \<and>
    ws_val (rev (du_div_loop rhs rem as)) = (unat rem * (2 ^ 64) ^ length as + ws_val (rev as)) div unat rhs"
  using assms
proof (induction as arbitrary: rem)
  case (Cons a as)
  define cur :: u128 where "cur = push_bit 64 rem OR ucast a"
  define R W where "R = unat rhs" and "W = ((2::nat) ^ 64) ^ length as"
  have cur: "unat cur = unat rem * 2 ^ 64 + unat a" "unat cur < R * 2 ^ 64"
    using du_div_cur [OF Cons.prems] by (simp_all add: cur_def R_def)
  have R: "0 < R" using Cons.prems by (simp add: R_def)
  have rem: "unat (cur mod ucast rhs) = unat cur mod R"
    by (simp add: unat_mod ucast_u64_u128 R_def)
  have "unat cur div R < 2 ^ 64" using cur(2) R by (simp add: less_mult_imp_div_less mult.commute)
  moreover have "unat (cur div ucast rhs) = unat cur div R"
    by (simp add: unat_div ucast_u64_u128 R_def)
  ultimately have digit: "unat (ucast (cur div ucast rhs) :: u64) = unat cur div R"
    by (simp add: unsigned_ucast_eq [of "cur div ucast rhs"] take_bit_eq_mod)
  have IH: "length (du_div_loop rhs (cur mod ucast rhs) as) = length as"
    "ws_val (rev (du_div_loop rhs (cur mod ucast rhs) as)) =
      (unat cur mod R * W + ws_val (rev as)) div R"
    using Cons.IH [of "cur mod ucast rhs"] R by (simp_all add: rem R_def W_def)
  have "ws_val (rev (du_div_loop rhs rem (a # as))) =
      (unat cur mod R * W + ws_val (rev as)) div R + W * (unat cur div R)"
    by (simp add: Let_def ws_val_append IH digit W_def flip: cur_def)
  also have "\<dots> = (unat cur mod R * W + ws_val (rev as) + W * (unat cur div R) * R) div R"
    using R by simp
  also have "unat cur mod R * W + ws_val (rev as) + W * (unat cur div R) * R =
      (unat cur div R * R + unat cur mod R) * W + ws_val (rev as)"
    by (simp only: add_mult_distrib add_mult_distrib2 ac_simps)
  also have "\<dots> = unat rem * (2 ^ 64) ^ length (a # as) + ws_val (rev (a # as))"
    unfolding div_mult_mod_eq cur(1) by (simp add: W_def ws_val_append algebra_simps)
  finally show ?case using IH(1) by (simp add: Let_def R_def flip: cur_def)
qed simp

lemma du_div_u64_val:
  assumes "du_valid x" and "rhs \<noteq> 0"
  shows "\<exists>q. du_div_u64 x rhs = Some q \<and> du_valid q \<and> du_val q = du_val x div unat rhs"
proof -
  have "unat (0 :: u128) < unat rhs" using assms(2) by (simp add: unat_gt_0)
  from du_div_loop_val [OF this, of "rev (limbs x)"] assms show ?thesis
    by (simp add: du_div_u64_def du_valid_def du_val_def)
qed

lemma limbs_cmp_val:
  assumes "length as = length bs"
  shows "limbs_cmp as bs =
    (if ws_val (rev as) < ws_val (rev bs) then Less
     else if ws_val (rev as) = ws_val (rev bs) then Equal else Greater)"
  using assms
proof (induction as bs rule: list_induct2)
  case (Cons a as b bs)
  have less: "ws_val (rev as) < (2 ^ 64) ^ length as" "ws_val (rev bs) < (2 ^ 64) ^ length as"
    using ws_val_less [of "rev as"] ws_val_less [of "rev bs"] Cons.hyps by simp_all
  note digits = two_digits_less [OF less, of "unat a" "unat b"]
    two_digits_less [OF less(2,1), of "unat b" "unat a"]
  have eq: "ws_val (rev (x # xs)) = unat x * (2 ^ 64) ^ length xs + ws_val (rev xs)" for x xs
    by (simp add: ws_val_append)
  show ?case
    unfolding eq Cons.hyps [symmetric] using digits Cons.IH
    by (cases "unat a" "unat b" rule: linorder_cases)
      (auto simp: u64_cmp_def word_less_nat_alt word_unat_eq_iff split: if_splits)
qed simp

lemma du_cmp_val:
  "du_valid x \<Longrightarrow> du_valid y \<Longrightarrow> du_cmp x y =
    (if du_val x < du_val y then Less else if du_val x = du_val y then Equal else Greater)"
  using limbs_cmp_val [of "rev (limbs x)" "rev (limbs y)"] by (simp add: du_cmp_def du_valid_def du_val_def)

section \<open>Bytes\<close>

lemma le_val_to_le_bytes: "le_val (to_le_bytes w) = unat (w :: u64)"
  using unat_u64 [of w] by (simp add: to_le_bytes_def le_val_le_enc)

lemma le_val_concat_u64: "le_val (concat (map to_le_bytes ws)) = ws_val ws"
  by (induction ws) (simp_all add: le_val_append le_val_to_le_bytes length_to_le_bytes)

lemma du_to_be_bytes_val:
  assumes "du_valid x"
  shows "length (du_to_be_bytes x) = 32" and "le_val (rev (du_to_be_bytes x)) = du_val x"
proof -
  have "length (to_be_bytes w) = 8" for w :: u64
    by (simp add: to_be_bytes_def length_to_le_bytes)
  moreover obtain a b c d where "limbs x = [a, b, c, d]"
    using assms by (auto simp: du_valid_def numeral_eq_Suc length_Suc_conv)
  ultimately show "length (du_to_be_bytes x) = 32" by (simp add: du_to_be_bytes_def)
  have "rev (du_to_be_bytes x) = concat (map to_le_bytes (limbs x))"
    by (simp add: du_to_be_bytes_def rev_concat to_be_bytes_def rev_map comp_def)
  then show "le_val (rev (du_to_be_bytes x)) = du_val x" by (simp add: le_val_concat_u64 du_val_def)
qed

lemma unat_from_be_bytes_u64:
  "length bs = 8 \<Longrightarrow> unat (from_be_bytes bs :: u64) = le_val (rev bs)"
  using le_val_bound [of "rev bs"]
  by (simp add: from_be_bytes_def from_le_bytes_def unsigned_of_nat take_bit_eq_mod)

lemma du_from_be_bytes_val:
  assumes "length bs = 32"
  shows "du_valid (du_from_be_bytes bs)" and "du_val (du_from_be_bytes bs) = le_val (rev bs)"
proof -
  define c0 c1 c2 c3 where "c0 = take 8 bs" and "c1 = take 8 (drop 8 bs)" and
    "c2 = take 8 (drop 16 bs)" and "c3 = take 8 (drop 24 bs)"
  note c = c0_def c1_def c2_def c3_def
  have "drop 8 bs = c1 @ drop 16 bs" "drop 16 bs = c2 @ drop 24 bs" "drop 24 bs = c3"
    using append_take_drop_id [of 8 "drop 8 bs"] append_take_drop_id [of 8 "drop 16 bs"] assms
    by (simp_all add: c)
  then have bs: "bs = c0 @ c1 @ c2 @ c3" using append_take_drop_id [of 8 bs] by (simp add: c0_def)
  have len: "length c0 = 8" "length c1 = 8" "length c2 = 8" "length c3 = 8"
    unfolding c using assms by simp_all
  show "du_valid (du_from_be_bytes bs)" by (simp add: du_valid_def du_from_be_bytes_def)
  have "le_val (rev bs) = ws_val [from_be_bytes c3, from_be_bytes c2, from_be_bytes c1, from_be_bytes c0]"
    unfolding bs by (simp add: le_val_append len unat_from_be_bytes_u64)
  then show "du_val (du_from_be_bytes bs) = le_val (rev bs)"
    by (simp add: du_val_def du_from_be_bytes_def c)
qed

lemma u256_from_be_bytes_val:
  assumes "length bs = 32"
  shows "u256_val (u256_from_be_bytes bs) = le_val (rev bs)"
proof -
  have lens: "length (take 16 bs) = 16" "length (drop 16 bs) = 16" using assms by simp_all
  have val: "unat (from_be_bytes xs :: u128) = le_val (rev xs)" if "length xs = 16" for xs
    using le_val_bound [of "rev xs"] that
    by (simp add: from_be_bytes_def from_le_bytes_def unsigned_of_nat take_bit_eq_mod)
  have "le_val (rev bs) = le_val (rev (drop 16 bs) @ rev (take 16 bs))"
    by (simp flip: rev_append)
  also have "\<dots> = le_val (rev (drop 16 bs)) + 256 ^ 16 * le_val (rev (take 16 bs))"
    unfolding le_val_append length_rev lens(2) by (rule refl)
  also have "(256::nat) ^ 16 = B128" by (simp add: B128_def)
  finally show ?thesis
    using val [OF lens(1)] val [OF lens(2)]
    by (simp add: u256_from_be_bytes_def split_in_half_def u256_val_def mult.commute)
qed

lemma du_from_target_val:
  "du_valid (du_from_target t)" "du_val (du_from_target t) = u256_val (target_0 t)"
  unfolding du_from_target_def
  by (simp_all add: du_from_be_bytes_val u256_to_be_bytes_val)

lemma to_target_bits_val:
  "du_valid x \<Longrightarrow> \<exists>t. to_target_bits x = to_compact_lossy t \<and> u256_val (target_0 t) = du_val x"
  unfolding to_target_bits_def
  by (intro exI conjI, rule refl) (simp add: u256_from_be_bytes_val du_to_be_bytes_val)

section \<open>The retargeting rule on numbers\<close>

lemma dgw_average_valid: "du_valid avg \<Longrightarrow> dgw_average c avg hs = Some r \<Longrightarrow> du_valid r"
proof (induction hs arbitrary: c avg)
  case (Cons h hs)
  show ?case
  proof (cases "c = 1")
    case True
    with Cons.prems show ?thesis
      by (auto simp: Let_def intro: Cons.IH [OF du_from_target_val(1)])
  next
    case False
    let ?x = "du_add (du_mul_u64 avg c) (du_from_target (from_compact (bits h)))"
    obtain q where q: "du_div_u64 ?x (c + 1) = Some q" "dgw_average (c + 1) q hs = Some r"
      using Cons.prems(2) False by (auto simp: Let_def split: option.splits)
    then have "c + 1 \<noteq> 0" by (auto simp: du_div_u64_def)
    moreover have "du_valid ?x"
      by (intro du_add_val(1) du_mul_u64_val(1) du_from_target_val(1) Cons.prems)
    ultimately have "du_valid q" using du_div_u64_val [of ?x "c + 1"] q(1) by auto
    then show ?thesis using Cons.IH q(2) by blast
  qed
qed simp







lemma clamp_to_limit:
  fixes x l :: du256
  assumes "du_valid x" and "du_valid l"
  defines "y \<equiv> if du_cmp x l = Greater then l else x"
  shows "du_valid y" and "du_val y = min (du_val l) (du_val x)"
  using assms by (auto simp: du_cmp_val split: if_splits)


section \<open>Properties\<close>

text \<open>
  C40: Whatever the headers and the parameters, a retargeting result that is computed encodes a
  target no easier than the proof-of-work limit of the network.
\<close>

theorem dgw_within_pow_limit:
  assumes "next_work_required_dgw_v3 hs tip p = Some b"
  shows "u256_val (target_0 (from_compact b)) \<le> u256_val (target_0 (pow_limit_target (p_network p)))"
proof (cases "b = to_compact_lossy (pow_limit_target (p_network p))")
  case True
  then show ?thesis by (simp add: from_to_compact_le)
next
  case False
  define l where "l = du_from_be_bytes (u256_to_be_bytes (target_0 (pow_limit_target (p_network p))))"
  have l: "du_valid l" "du_val l = u256_val (target_0 (pow_limit_target (p_network p)))"
    using du_from_target_val [of "pow_limit_target (p_network p)"] by (simp_all add: l_def du_from_target_def)
  obtain avg c d x where avg: "dgw_average 1 du_ZERO (rev (drop (length hs - unat DGW_PAST_BLOCKS) hs)) = Some avg"
    and x: "du_div_u64 (du_mul_u64 avg c) d = Some x"
    and b: "b = to_target_bits (if du_cmp x l = Greater then l else x)"
    using assms False
    by (auto simp: next_work_required_dgw_v3_def Let_def simp flip: l_def split: if_splits option.splits)
  have "du_valid du_ZERO" by (simp add: du_valid_def du_ZERO_def)
  from dgw_average_valid [OF this avg] have "du_valid (du_mul_u64 avg c)" by (rule du_mul_u64_val(1))
  moreover have "d \<noteq> 0" using x by (auto simp: du_div_u64_def)
  ultimately have "du_valid x" using du_div_u64_val [of _ d] x by fastforce
  note y = clamp_to_limit [OF this l(1)]
  obtain t where t: "b = to_compact_lossy t" "u256_val (target_0 t) \<le> du_val l"
    using to_target_bits_val [OF y(1)] y(2) b by auto
  have "u256_val (target_0 (from_compact b)) \<le> u256_val (target_0 t)"
    unfolding t(1) by (rule from_to_compact_le)
  then show ?thesis using t(2) l(2) by linarith
qed

theorem dgw_within_pow_limit_witness:
  "u256_val (target_0 (from_compact (to_compact_lossy (pow_limit_target Mainnet)))) \<le>
     u256_val (target_0 (pow_limit_target (p_network (params_new Mainnet))))"
  by (rule dgw_within_pow_limit [of "[]" 10])
    (simp add: next_work_required_dgw_v3_def Let_def DGW_PAST_BLOCKS_def)






text \<open>
  When the minimum-difficulty rule applies, the bits it gives encode a target no easier than
  the proof-of-work limit.
\<close>

theorem min_difficulty_within_pow_limit:
  assumes "min_difficulty_bits p prev_time prev_bits time = Some (Some b)"
  shows "u256_val (target_0 (from_compact b)) \<le> u256_val (target_0 (pow_limit_target (p_network p)))"
proof -
  define l where "l = du_from_be_bytes (u256_to_be_bytes (target_0 (pow_limit_target (p_network p))))"
  define prev where "prev = du_from_be_bytes (u256_to_be_bytes (target_0 (from_compact prev_bits)))"
  have l: "du_valid l" "du_val l = u256_val (target_0 (pow_limit_target (p_network p)))"
    using du_from_target_val [of "pow_limit_target (p_network p)"] by (simp_all add: l_def du_from_target_def)
  have prev: "du_valid prev"
    using du_from_target_val [of "from_compact prev_bits"] by (simp add: prev_def du_from_target_def)
  obtain th where th: "du_div_u64 l 10 = Some th" "du_valid th" "du_val th = du_val l div 10"
    using du_div_u64_val [OF l(1), of 10] by auto
  have small: "du_val (du_mul_u64 prev 10) \<le> du_val l" if "du_cmp prev th = Less"
  proof -
    have "du_val prev < du_val l div 10"
      using that prev th by (simp add: du_cmp_val split: if_splits)
    then have "du_val prev * 10 \<le> du_val l" by linarith
    moreover have "du_val (du_mul_u64 prev 10) \<le> du_val prev * 10"
      by (simp add: du_mul_u64_val prev)
    ultimately show ?thesis by linarith
  qed
  consider "b = to_compact_lossy (pow_limit_target (p_network p))"
    | "b = to_target_bits (if du_cmp prev th \<noteq> Less then l else du_mul_u64 prev 10)"
    using assms th(1)
    by (auto simp: min_difficulty_bits_def Let_def simp flip: l_def prev_def split: if_splits)
  then show ?thesis
  proof cases
    case 1
    then show ?thesis by (simp add: from_to_compact_le)
  next
    case 2
    define x where "x = (if du_cmp prev th \<noteq> Less then l else du_mul_u64 prev 10)"
    have "du_valid x" "du_val x \<le> du_val l" "b = to_target_bits x"
      using l small 2 by (auto simp: x_def du_mul_u64_val(1) [OF prev])
    with to_target_bits_val [of x] obtain t where t: "b = to_compact_lossy t" "u256_val (target_0 t) \<le> du_val l"
      by auto
    have "u256_val (target_0 (from_compact b)) \<le> u256_val (target_0 t)"
      unfolding t(1) by (rule from_to_compact_le)
    then show ?thesis using t(2) l(2) by linarith
  qed
qed

theorem min_difficulty_within_pow_limit_witness:
  "u256_val (target_0 (from_compact (to_compact_lossy (pow_limit_target Testnet)))) \<le>
     u256_val (target_0 (pow_limit_target (p_network (params_new Testnet))))"
  by (rule min_difficulty_within_pow_limit [of _ 0 "CompactTarget 0" 10000])
    (simp add: min_difficulty_bits_def Let_def time_gap_def)

end
