(* ===== verification/Fork_Buffer.thy ===== *)
theory Fork_Buffer
  imports Chain_Types Difficulty
begin

text \<open>
  The staged fork buffer, from \<open>src/dash-spv/src/sync/block_headers/fork_buffer.rs\<close>: branches
  of headers that compete with the active chain, kept per peer and tip until their work wins, they
  age out or the peer leaves. \<open>None\<close> as the result of an operation is a panic (a division by
  zero in the retargeting rule, or the tip of a branch without headers).
\<close>

section \<open>State\<close>

definition MTP_WINDOW :: nat where
  "MTP_WINDOW = 11"

definition MAX_FORK_HEADERS_PER_PEER :: nat where
  "MAX_FORK_HEADERS_PER_PEER = 4096"

definition MAX_BRANCHES_PER_PEER :: nat where
  "MAX_BRANCHES_PER_PEER = 16"

record buffered_branch =
  bb_headers :: "hashed_header list"
  bb_ancestor_height :: u32
  bb_total_work :: chain_work
  bb_arrived_at :: instant

record fork_buffer =
  fb_branches :: "(socket_addr \<times> block_hash, buffered_branch) hash_map"
  fb_params :: params

record branch_update =
  bu_new_tip :: block_hash
  bu_new_height :: u32
  bu_new_work :: chain_work

definition fb_new :: "params \<Rightarrow> fork_buffer" where
  "fb_new p = \<lparr>fb_branches = [], fb_params = p\<rparr>"

section \<open>Validation\<close>

definition median_time_past :: "header list \<Rightarrow> u64" where
  "median_time_past history =
     (let window = (if length history \<ge> MTP_WINDOW then drop (length history - MTP_WINDOW) history
                    else history);
          times = sort (map h_time window) in
      if length times div 2 < length times then ucast (times ! (length times div 2)) else 0)"

text \<open>
  \<open>prev_height\<close> is the height of \<open>prev\<close> and moves along with it, as
  \<open>prev_height + offset\<close> does in the source.
\<close>

fun validate_chain :: "(u8 list \<Rightarrow> block_hash) \<Rightarrow> params \<Rightarrow> header list \<Rightarrow> header \<Rightarrow> u32 \<Rightarrow> header list \<Rightarrow>
    hashed_header list sync_result option" where
  "validate_chain H params [] prev prev_height rolling_history = Some (Ok [])"
| "validate_chain H params (header # headers) prev prev_height rolling_history =
     (let height = prev_height + 1 in
      if prev_blockhash header \<noteq> block_hash H prev then Some (Err (ForkChainBreak ''expected prev''))
      else
        let hashed_header = hashed_from H header in
        if \<not> is_met_by (header_target header) (hh_hash hashed_header)
        then Some (Err (Validation ''Fork header failed PoW target''))
        else if ucast (h_time header) \<le> median_time_past rolling_history
        then Some (Err (Validation ''Fork header fails MTP rule''))
        else
          case next_work_required_dgw_v3 rolling_history (height - 1) params of
            None \<Rightarrow> None
          | Some expected_bits \<Rightarrow>
              (case min_difficulty_bits params (h_time prev) (bits prev) (h_time header) of
                 None \<Rightarrow> None
               | Some min_diff \<Rightarrow>
                   if \<not> (bits header = expected_bits \<or> min_diff = Some (bits header))
                   then Some (Err (Validation ''Fork header bad bits''))
                   else
                     case validate_chain H params headers header height (rolling_history @ [header]) of
                       None \<Rightarrow> None
                     | Some (Err e) \<Rightarrow> Some (Err e)
                     | Some (Ok hashed) \<Rightarrow> Some (Ok (hashed_header # hashed))))"

section \<open>Operations\<close>

definition peer_branch_count :: "socket_addr \<Rightarrow> fork_buffer \<Rightarrow> nat" where
  "peer_branch_count peer fb = hm_count (\<lambda>(p, _). p = peer) (fb_branches fb)"

definition fb_ingest :: "(u8 list \<Rightarrow> block_hash) \<Rightarrow> instant \<Rightarrow> socket_addr \<Rightarrow> header list \<Rightarrow> u32 \<Rightarrow>
    header \<Rightarrow> header list \<Rightarrow> fork_buffer \<Rightarrow> (unit sync_result \<times> fork_buffer) option" where
  "fb_ingest H now peer headers ancestor_height ancestor_header history fb =
     (if headers = [] then Some (Ok (), fb)
      else if length headers > MAX_FORK_HEADERS_PER_PEER
      then Some (Err (Validation ''Fork branch too large''), fb)
      else if peer_branch_count peer fb \<ge> MAX_BRANCHES_PER_PEER
      then Some (Err (Validation ''Too many concurrent fork branches from peer''), fb)
      else
        case validate_chain H (fb_params fb) headers ancestor_header ancestor_height history of
          None \<Rightarrow> None
        | Some (Err e) \<Rightarrow> Some (Err e, fb)
        | Some (Ok hashed) \<Rightarrow>
            (case cw_accumulate cw_zero headers of
               None \<Rightarrow> None
             | Some branch_work \<Rightarrow>
                 Some (Ok (), fb\<lparr>fb_branches := hm_insert (peer, hh_hash (last hashed))
                   \<lparr>bb_headers = hashed, bb_ancestor_height = ancestor_height,
                    bb_total_work = branch_work, bb_arrived_at = now\<rparr> (fb_branches fb)\<rparr>)))"

definition fb_extend_branch :: "(u8 list \<Rightarrow> block_hash) \<Rightarrow> instant \<Rightarrow> socket_addr \<Rightarrow> block_hash \<Rightarrow>
    header list \<Rightarrow> header list \<Rightarrow> fork_buffer \<Rightarrow> (branch_update sync_result \<times> fork_buffer) option" where
  "fb_extend_branch H now peer prev_tip_hash headers history fb =
     (if headers = [] then Some (Err (Validation ''extend_branch called with empty headers''), fb)
      else
        let key = (peer, prev_tip_hash) in
        case hm_get (fb_branches fb) key of
          None \<Rightarrow> Some (Err (ForkChainBreak ''no buffered branch for peer''), fb)
        | Some branch \<Rightarrow>
            let fb1 = fb\<lparr>fb_branches := hm_remove key (fb_branches fb)\<rparr>;
                restored = fb1\<lparr>fb_branches := hm_insert key branch (fb_branches fb1)\<rparr> in
            if length (bb_headers branch) + length headers > MAX_FORK_HEADERS_PER_PEER
            then Some (Err (Validation ''Fork branch extension exceeds cap''), restored)
            else if bb_headers branch = [] then None
            else
              let branch_tip_height = bb_ancestor_height branch + as_u32 (length (bb_headers branch));
                  branch_tip_header = hh_header (last (bb_headers branch));
                  rolling_history = history @ map hh_header (bb_headers branch) in
              case validate_chain H (fb_params fb) headers branch_tip_header branch_tip_height
                     rolling_history of
                None \<Rightarrow> None
              | Some (Err e) \<Rightarrow> Some (Err e, restored)
              | Some (Ok validated) \<Rightarrow>
                  let combined_headers = bb_headers branch @ validated in
                  (case cw_accumulate cw_zero headers of
                     None \<Rightarrow> None
                   | Some added_work \<Rightarrow>
                       let new_work = cw_combine (bb_total_work branch) added_work;
                           new_tip = hh_hash (last combined_headers);
                           new_height = bb_ancestor_height branch + as_u32 (length combined_headers) in
                       Some (Ok \<lparr>bu_new_tip = new_tip, bu_new_height = new_height, bu_new_work = new_work\<rparr>,
                         fb1\<lparr>fb_branches := hm_insert (peer, new_tip)
                           \<lparr>bb_headers = combined_headers, bb_ancestor_height = bb_ancestor_height branch,
                            bb_total_work = new_work, bb_arrived_at = now\<rparr> (fb_branches fb1)\<rparr>)))"

definition fb_expire_stale :: "instant \<Rightarrow> duration \<Rightarrow> fork_buffer \<Rightarrow> nat \<times> fork_buffer" where
  "fb_expire_stale now ttl fb =
     (let kept = hm_retain (\<lambda>_ b. now - bb_arrived_at b \<le> ttl) (fb_branches fb) in
      (length (fb_branches fb) - length kept, fb\<lparr>fb_branches := kept\<rparr>))"

definition fb_remove_peer :: "socket_addr \<Rightarrow> fork_buffer \<Rightarrow> fork_buffer" where
  "fb_remove_peer peer fb = fb\<lparr>fb_branches := hm_retain (\<lambda>(p, _) _. p \<noteq> peer) (fb_branches fb)\<rparr>"

text \<open>\<open>Iterator::max_by_key\<close>, which keeps the last of several greatest elements.\<close>

definition cw_le :: "chain_work \<Rightarrow> chain_work \<Rightarrow> bool" where
  "cw_le x y \<longleftrightarrow> cw_cmp x y \<noteq> Greater"

fun max_by_work :: "('k \<times> buffered_branch) list \<Rightarrow> ('k \<times> buffered_branch) option" where
  "max_by_work [] = None"
| "max_by_work (e # es) =
     (case max_by_work es of
        None \<Rightarrow> Some e
      | Some m \<Rightarrow> if cw_le (bb_total_work (snd e)) (bb_total_work (snd m)) then Some m else Some e)"

definition candidate_of :: "buffered_branch \<Rightarrow> fork_candidate" where
  "candidate_of b = \<lparr>fc_ancestor_height = bb_ancestor_height b, fc_headers = bb_headers b,
     fc_total_work = bb_total_work b\<rparr>"

definition fb_take_winning_candidate :: "chain_work \<Rightarrow> fork_buffer \<Rightarrow> fork_candidate option \<times> fork_buffer" where
  "fb_take_winning_candidate active_extension_work fb =
     (case max_by_work (fb_branches fb) of
        None \<Rightarrow> (None, fb)
      | Some (winner_key, branch) \<Rightarrow>
          let removed = hm_remove winner_key (fb_branches fb) in
          if cw_le (bb_total_work branch) active_extension_work
          then (None, fb\<lparr>fb_branches := hm_insert winner_key branch removed\<rparr>)
          else (Some (candidate_of branch), fb\<lparr>fb_branches := removed\<rparr>))"

definition fb_branch_tip_hashes :: "fork_buffer \<Rightarrow> block_hash list" where
  "fb_branch_tip_hashes fb = map snd (hm_keys (fb_branches fb))"

definition fb_take_branch_by_tip :: "block_hash \<Rightarrow> fork_buffer \<Rightarrow> fork_candidate option \<times> fork_buffer" where
  "fb_take_branch_by_tip tip fb =
     (case find (\<lambda>(_, t). t = tip) (hm_keys (fb_branches fb)) of
        None \<Rightarrow> (None, fb)
      | Some key \<Rightarrow>
          (case hm_get (fb_branches fb) key of
             None \<Rightarrow> (None, fb)
           | Some branch \<Rightarrow>
               (Some (candidate_of branch), fb\<lparr>fb_branches := hm_remove key (fb_branches fb)\<rparr>)))"

section \<open>What validation accepts\<close>

definition fork_header_ok :: "(u8 list \<Rightarrow> block_hash) \<Rightarrow> params \<Rightarrow> header list \<Rightarrow> header \<Rightarrow> u32 \<Rightarrow> header \<Rightarrow> bool" where
  "fork_header_ok H p history prev prev_height h \<longleftrightarrow>
     prev_blockhash h = block_hash H prev \<and> pow_ok (hashed_from H h) \<and>
     median_time_past history < ucast (h_time h) \<and>
     (\<exists>e m. next_work_required_dgw_v3 history prev_height p = Some e \<and>
        min_difficulty_bits p (h_time prev) (bits prev) (h_time h) = Some m \<and>
        (bits h = e \<or> m = Some (bits h)))"

lemma validate_chain_Cons:
  "validate_chain H p (h # hs) prev height history = Some (Ok vs) \<longleftrightarrow>
     fork_header_ok H p history prev height h \<and>
     (\<exists>vs'. vs = hashed_from H h # vs' \<and>
        validate_chain H p hs h (height + 1) (history @ [h]) = Some (Ok vs'))"
  by (auto simp: fork_header_ok_def pow_ok_def hashed_from_def Let_def not_le
      split: option.splits sum.splits if_splits)

lemma validate_chain_Ok:
  "validate_chain H p hs prev height history = Some (Ok vs) \<longleftrightarrow>
     vs = map (hashed_from H) hs \<and>
     (\<forall>i < length hs. fork_header_ok H p (history @ take i hs) ((prev # hs) ! i)
        (height + of_nat i) (hs ! i))"
proof (induction hs arbitrary: prev height history vs)
  case (Cons h hs)
  have "validate_chain H p (h # hs) prev height history = Some (Ok vs) \<longleftrightarrow>
      fork_header_ok H p history prev height h \<and> vs = map (hashed_from H) (h # hs) \<and>
      (\<forall>i < length hs. fork_header_ok H p ((history @ [h]) @ take i hs) ((h # hs) ! i)
        (height + 1 + of_nat i) (hs ! i))"
    unfolding validate_chain_Cons Cons.IH by auto
  also have "\<dots> \<longleftrightarrow> vs = map (hashed_from H) (h # hs) \<and>
      (\<forall>i < length (h # hs). fork_header_ok H p (history @ take i (h # hs)) ((prev # h # hs) ! i)
        (height + of_nat i) ((h # hs) ! i))"
    by (auto simp: All_less_Suc2 add.assoc)
  finally show ?case .
qed auto

lemma linked_Cons: "linked (a # b # hs) \<longleftrightarrow> prev_blockhash (hh_header b) = hh_hash a \<and> linked (b # hs)"
  by (simp add: linked_def)

lemma validate_chain_linked:
  "validate_chain H p hs prev height history = Some (Ok vs) \<Longrightarrow>
     linked (hashed_from H prev # vs) \<and> list_all pow_ok vs"
proof (induction hs arbitrary: prev height history vs)
  case (Cons h hs)
  then obtain vs' where vs: "vs = hashed_from H h # vs'" "fork_header_ok H p history prev height h"
    and rec: "validate_chain H p hs h (height + 1) (history @ [h]) = Some (Ok vs')"
    unfolding validate_chain_Cons by blast
  from Cons.IH [OF rec] vs show ?case
    by (simp add: linked_Cons fork_header_ok_def) (simp add: hashed_from_def)
qed (simp add: linked_def)

section \<open>The invariant of the buffer\<close>

definition branch_ok :: "(u8 list \<Rightarrow> block_hash) \<Rightarrow> block_hash \<Rightarrow> buffered_branch \<Rightarrow> bool" where
  "branch_ok H tip b \<longleftrightarrow>
     bb_headers b \<noteq> [] \<and> length (bb_headers b) \<le> 4096 \<and> hh_hash (last (bb_headers b)) = tip \<and>
     list_all (\<lambda>hh. hh_hash hh = block_hash H (hh_header hh)) (bb_headers b) \<and>
     linked (bb_headers b) \<and> list_all pow_ok (bb_headers b) \<and> cw_valid (bb_total_work b) \<and>
     cw_val (bb_total_work b) =
       sum_list (map (header_work_val \<circ> hh_header) (bb_headers b)) mod 2 ^ 256"

definition fb_inv :: "(u8 list \<Rightarrow> block_hash) \<Rightarrow> fork_buffer \<Rightarrow> bool" where
  "fb_inv H fb \<longleftrightarrow> hm_ok (fb_branches fb) \<and> (\<forall>peer. peer_branch_count peer fb \<le> 16) \<and>
     (\<forall>peer tip b. hm_get (fb_branches fb) (peer, tip) = Some b \<longrightarrow> branch_ok H tip b)"

lemma fb_invI:
  assumes "hm_ok (fb_branches fb)" and "\<And>peer. peer_branch_count peer fb \<le> 16"
    and "\<And>peer tip b. hm_get (fb_branches fb) (peer, tip) = Some b \<Longrightarrow> branch_ok H tip b"
  shows "fb_inv H fb"
  using assms by (simp add: fb_inv_def)

lemma fb_invD:
  assumes "fb_inv H fb"
  shows "hm_ok (fb_branches fb)" and "peer_branch_count peer fb \<le> 16"
    and "hm_get (fb_branches fb) (peer, tip) = Some b \<Longrightarrow> branch_ok H tip b"
  using assms unfolding fb_inv_def by blast+

lemma fb_inv_new: "fb_inv H (fb_new p)"
  by (simp add: fb_inv_def fb_new_def peer_branch_count_def hm_count_def)

lemma fb_inv_retain:
  assumes "fb_inv H fb"
  shows "fb_inv H (fb\<lparr>fb_branches := hm_retain P (fb_branches fb)\<rparr>)"
proof (rule fb_invI)
  show "peer_branch_count peer (fb\<lparr>fb_branches := hm_retain P (fb_branches fb)\<rparr>) \<le> 16" for peer
    using fb_invD(2) [OF assms, of peer] hm_count_retain [of "\<lambda>(p, _). p = peer" P "fb_branches fb"]
    by (simp add: peer_branch_count_def)
  show "branch_ok H tip b"
    if "hm_get (fb_branches (fb\<lparr>fb_branches := hm_retain P (fb_branches fb)\<rparr>)) (peer, tip) = Some b" for peer tip b
    using that fb_invD(3) [OF assms, of peer tip b] by (simp add: hm_retain_get fb_invD(1) [OF assms])
qed (simp add: hm_ok_retain fb_invD(1) [OF assms])

lemma fb_inv_remove:
  assumes "fb_inv H fb"
  shows "fb_inv H (fb\<lparr>fb_branches := hm_remove k (fb_branches fb)\<rparr>)"
proof (rule fb_invI)
  note ok = fb_invD(1) [OF assms]
  show "peer_branch_count peer (fb\<lparr>fb_branches := hm_remove k (fb_branches fb)\<rparr>) \<le> 16" for peer
    using fb_invD(2) [OF assms, of peer] hm_count_remove(1) [OF ok, of "\<lambda>(p, _). p = peer" k]
    by (simp add: peer_branch_count_def)
  show "branch_ok H tip b"
    if "hm_get (fb_branches (fb\<lparr>fb_branches := hm_remove k (fb_branches fb)\<rparr>)) (peer, tip) = Some b" for peer tip b
    using that hm.get_del [OF ok] fb_invD(3) [OF assms] by (simp split: if_splits)
qed (simp add: hm.ok_del fb_invD(1) [OF assms])

lemma fb_inv_insert:
  assumes "fb_inv H fb" and "branch_ok H tip b" and "peer_branch_count peer fb < 16"
  shows "fb_inv H (fb\<lparr>fb_branches := hm_insert (peer, tip) b (fb_branches fb)\<rparr>)"
proof (rule fb_invI)
  note ok = fb_invD(1) [OF assms(1)]
  show "peer_branch_count peer' (fb\<lparr>fb_branches := hm_insert (peer, tip) b (fb_branches fb)\<rparr>) \<le> 16" for peer'
  proof (cases "peer' = peer")
    case True
    then show ?thesis
      using hm_count_insert(1) [OF ok, of "\<lambda>(p, _). p = peer" "(peer, tip)" b] assms(3)
      by (simp add: peer_branch_count_def)
  next
    case False
    then show ?thesis
      using hm_count_insert(2) [OF ok, of "\<lambda>(p, _). p = peer'" "(peer, tip)" b] fb_invD(2) [OF assms(1), of peer']
      by (simp add: peer_branch_count_def)
  qed
  show "branch_ok H tip' b'"
    if "hm_get (fb_branches (fb\<lparr>fb_branches := hm_insert (peer, tip) b (fb_branches fb)\<rparr>)) (peer', tip') = Some b'"
    for peer' tip' b'
    using that hm.get_ins [OF ok] fb_invD(3) [OF assms(1)] assms(2) by (simp split: if_splits)
qed (simp add: hm.ok_ins fb_invD(1) [OF assms(1)])

lemma peer_branch_count_remove:
  assumes "fb_inv H fb" and "hm_get (fb_branches fb) (peer, tip) = Some b"
  shows "peer_branch_count peer (fb\<lparr>fb_branches := hm_remove (peer, tip) (fb_branches fb)\<rparr>) < 16"
  using hm_count_remove(2) [OF fb_invD(1) [OF assms(1)], of "(peer, tip)" "\<lambda>(p, _). p = peer"]
    fb_invD(2) [OF assms(1), of peer] assms(2)
  by (simp add: peer_branch_count_def)

section \<open>The operations keep the invariant\<close>

lemma fresh_branch_ok:
  assumes "validate_chain H p hs prev height history = Some (Ok vs)" and "hs \<noteq> []"
    and "length hs \<le> 4096" and "cw_accumulate cw_zero hs = Some w"
  shows "branch_ok H (hh_hash (last vs))
    \<lparr>bb_headers = vs, bb_ancestor_height = height, bb_total_work = w, bb_arrived_at = now\<rparr>"
proof -
  have vs: "vs = map (hashed_from H) hs" using assms(1) by (simp add: validate_chain_Ok)
  have "linked vs" "list_all pow_ok vs"
    using validate_chain_linked [OF assms(1)] by (auto simp: linked_def successively_Cons)
  moreover have "cw_valid w" "cw_val w = sum_list (map header_work_val hs) mod 2 ^ 256"
    using cw_accumulate_val [OF cw_val_zero(2), of hs] assms(4) by (auto simp: cw_val_zero)
  ultimately show ?thesis
    using assms(2,3) by (simp add: branch_ok_def vs list_all_iff hashed_from_def comp_def)
qed

lemma extended_branch_ok:
  assumes "branch_ok H tip b"
    and valid: "validate_chain H p hs (hh_header (last (bb_headers b))) height history = Some (Ok vs)"
    and "hs \<noteq> []" and "length (bb_headers b) + length hs \<le> 4096"
    and "cw_accumulate cw_zero hs = Some w"
  shows "branch_ok H (hh_hash (last (bb_headers b @ vs)))
    \<lparr>bb_headers = bb_headers b @ vs, bb_ancestor_height = a,
     bb_total_work = cw_combine (bb_total_work b) w, bb_arrived_at = now\<rparr>"
proof -
  note b = assms(1) [unfolded branch_ok_def]
  have vs: "vs = map (hashed_from H) hs" using valid by (simp add: validate_chain_Ok)
  have "linked (hashed_from H (hh_header (last (bb_headers b))) # vs)" and pow: "list_all pow_ok vs"
    using validate_chain_linked [OF valid] by simp_all
  moreover have "hh_hash (hashed_from H (hh_header (last (bb_headers b)))) = hh_hash (last (bb_headers b))"
    using b by (simp add: hashed_from_def list_all_iff) (metis last_in_set)
  ultimately have link: "linked (bb_headers b @ vs)"
    using b assms(3) vs by (auto simp: linked_def successively_append_iff successively_Cons)
  have w: "cw_valid w" "cw_val w = sum_list (map header_work_val hs) mod 2 ^ 256"
    using cw_accumulate_val [OF cw_val_zero(2), of hs] assms(5) by (auto simp: cw_val_zero)
  have sum: "map (header_work_val \<circ> hh_header) vs = map header_work_val hs"
    by (simp add: vs hashed_from_def)
  have "cw_val (cw_combine (bb_total_work b) w) =
      (sum_list (map (header_work_val \<circ> hh_header) (bb_headers b)) mod 2 ^ 256 +
        sum_list (map header_work_val hs) mod 2 ^ 256) mod 2 ^ 256"
    using b w cw_combine_val(2) [of "bb_total_work b" w] by metis
  then have "cw_val (cw_combine (bb_total_work b) w) =
      sum_list (map (header_work_val \<circ> hh_header) (bb_headers b @ vs)) mod 2 ^ 256"
    by (simp only: map_append sum_list_append sum mod_add_eq)
  moreover have "cw_valid (cw_combine (bb_total_work b) w)" using b w by (simp add: cw_combine_val)
  moreover have "list_all (\<lambda>hh. hh_hash hh = block_hash H (hh_header hh)) vs"
    by (simp add: vs list_all_iff hashed_from_def)
  ultimately show ?thesis using b pow link assms(4) vs by (simp add: branch_ok_def)
qed

lemma fb_inv_restore:
  assumes "fb_inv H fb" and "hm_get (fb_branches fb) k = Some b"
  shows "fb_inv H (fb\<lparr>fb_branches := hm_insert k b (hm_remove k (fb_branches fb))\<rparr>)"
proof -
  obtain peer tip where k: "k = (peer, tip)" by fastforce
  have "branch_ok H tip b" using assms k by (simp add: fb_invD(3) [of H fb peer])
  with fb_inv_insert [OF fb_inv_remove [OF assms(1)] _ peer_branch_count_remove [OF assms(1)]] assms(2)
  show ?thesis unfolding k by fastforce
qed

lemma fb_inv_ingest:
  assumes "fb_inv H fb" and "fb_ingest H now peer hs ah anc hist fb = Some (r, fb')"
  shows "fb_inv H fb'"
proof -
  consider "fb' = fb" | vs w where "hs \<noteq> []" "length hs \<le> 4096" "peer_branch_count peer fb < 16"
    "validate_chain H (fb_params fb) hs anc ah hist = Some (Ok vs)" "cw_accumulate cw_zero hs = Some w"
    "fb' = fb\<lparr>fb_branches := hm_insert (peer, hh_hash (last vs))
       \<lparr>bb_headers = vs, bb_ancestor_height = ah, bb_total_work = w, bb_arrived_at = now\<rparr> (fb_branches fb)\<rparr>"
    using assms(2)
    by (auto simp: fb_ingest_def MAX_FORK_HEADERS_PER_PEER_def MAX_BRANCHES_PER_PEER_def not_le not_less
        split: if_splits option.splits sum.splits)
  then show ?thesis
    by cases (auto intro!: fb_inv_insert fresh_branch_ok assms(1))
qed

lemma fb_inv_extend:
  assumes "fb_inv H fb" and run: "fb_extend_branch H now peer tip hs hist fb = Some (r, fb')"
  shows "fb_inv H fb'"
proof (cases "hs = [] \<or> hm_get (fb_branches fb) (peer, tip) = None")
  case True
  then have "fb' = fb" using run by (cases "hs = []") (simp_all add: fb_extend_branch_def Let_def)
  then show ?thesis by (simp add: assms(1))
next
  case False
  then obtain b where b: "hm_get (fb_branches fb) (peer, tip) = Some b" and hs: "hs \<noteq> []" by blast
  note ok = fb_invD(3) [OF assms(1) b]
  have ne: "bb_headers b \<noteq> []" using ok by (simp add: branch_ok_def)
  define v where "v = validate_chain H (fb_params fb) hs (hh_header (last (bb_headers b)))
    (bb_ancestor_height b + as_u32 (length (bb_headers b))) (hist @ map hh_header (bb_headers b))"
  note step = run [unfolded fb_extend_branch_def, simplified b hs ne if_False option.case Let_def,
      folded v_def]
  show ?thesis
  proof (cases "length (bb_headers b) + length hs > 4096 \<or> (\<exists>e. v = Some (Err e))")
    case True
    then have "fb' = fb\<lparr>fb_branches := hm_insert (peer, tip) b (hm_remove (peer, tip) (fb_branches fb))\<rparr>"
      using step by (auto simp: MAX_FORK_HEADERS_PER_PEER_def split: if_splits)
    then show ?thesis by (simp add: fb_inv_restore [OF assms(1) b])
  next
    case False
    obtain w where w: "cw_accumulate cw_zero hs = Some w"
      using cw_accumulate_val [OF cw_val_zero(2)] by blast
    from False step obtain vs where vs: "v = Some (Ok vs)"
      by (auto simp: MAX_FORK_HEADERS_PER_PEER_def split: option.splits sum.splits)
    have "fb' = fb\<lparr>fb_branches := hm_insert (peer, hh_hash (last (bb_headers b @ vs)))
           \<lparr>bb_headers = bb_headers b @ vs, bb_ancestor_height = bb_ancestor_height b,
            bb_total_work = cw_combine (bb_total_work b) w, bb_arrived_at = now\<rparr>
           (hm_remove (peer, tip) (fb_branches fb))\<rparr>"
      using step False by (simp add: vs w MAX_FORK_HEADERS_PER_PEER_def)
    moreover note fb_inv_insert [OF fb_inv_remove [OF assms(1)]
        extended_branch_ok [OF ok vs [unfolded v_def] hs _ w] peer_branch_count_remove [OF assms(1) b]]
    ultimately show ?thesis using False by simp
  qed
qed

lemma max_by_work_None: "max_by_work es = None \<longleftrightarrow> es = []"
  by (cases es) (auto split: option.splits)

lemma cw_le_val: "cw_valid x \<Longrightarrow> cw_valid y \<Longrightarrow> cw_le x y \<longleftrightarrow> cw_val x \<le> cw_val y"
  using bytes_cmp_val [of "cw_work x" "cw_work y"]
  by (auto simp: cw_le_def cw_cmp_def cw_valid_def cw_val_def)

lemma max_by_work_Some:
  assumes "max_by_work es = Some e" and "\<And>e. e \<in> set es \<Longrightarrow> cw_valid (bb_total_work (snd e))"
  shows "e \<in> set es \<and> (\<forall>e' \<in> set es. cw_val (bb_total_work (snd e')) \<le> cw_val (bb_total_work (snd e)))"
  using assms
proof (induction es arbitrary: e)
  case (Cons x es)
  show ?case
  proof (cases "max_by_work es")
    case None
    then show ?thesis using Cons.prems by (simp add: max_by_work_None)
  next
    case (Some m)
    have m: "m \<in> set es" "\<forall>e' \<in> set es. cw_val (bb_total_work (snd e')) \<le> cw_val (bb_total_work (snd m))"
      using Cons.IH [OF Some] Cons.prems(2) by simp_all
    moreover have "cw_le (bb_total_work (snd x)) (bb_total_work (snd m)) \<longleftrightarrow>
        cw_val (bb_total_work (snd x)) \<le> cw_val (bb_total_work (snd m))"
      using m(1) Cons.prems(2) by (intro cw_le_val) simp_all
    ultimately show ?thesis
      using Cons.prems(1) Some by (fastforce split: if_splits)
  qed
qed simp

lemma fb_branch_entry:
  assumes "fb_inv H fb" and "(k, b) \<in> set (fb_branches fb)"
  shows "hm_get (fb_branches fb) k = Some b" and "branch_ok H (snd k) b"
proof -
  show get: "hm_get (fb_branches fb) k = Some b"
    using assms fb_invD(1) [OF assms(1)] by (simp add: map_of_is_SomeI)
  show "branch_ok H (snd k) b"
    using get fb_invD(3) [OF assms(1), of "fst k" "snd k" b] by simp
qed

lemma max_by_work_branch:
  assumes "fb_inv H fb" and "max_by_work (fb_branches fb) = Some (k, b)"
  shows "hm_get (fb_branches fb) k = Some b" and "branch_ok H (snd k) b"
    and "\<And>k' b'. hm_get (fb_branches fb) k' = Some b' \<Longrightarrow> cw_val (bb_total_work b') \<le> cw_val (bb_total_work b)"
proof -
  have "cw_valid (bb_total_work (snd e))" if "e \<in> set (fb_branches fb)" for e
    using fb_branch_entry(2) [OF assms(1), of "fst e" "snd e"] that by (simp add: branch_ok_def)
  note max = max_by_work_Some [OF assms(2) this]
  then show "hm_get (fb_branches fb) k = Some b" "branch_ok H (snd k) b"
    using fb_branch_entry [OF assms(1)] by blast+
  show "cw_val (bb_total_work b') \<le> cw_val (bb_total_work b)" if "hm_get (fb_branches fb) k' = Some b'" for k' b'
    using max map_of_SomeD [OF that] by fastforce
qed

lemma fb_inv_take_winning:
  assumes "fb_inv H fb"
  shows "fb_inv H (snd (fb_take_winning_candidate w fb))"
proof (cases "max_by_work (fb_branches fb)")
  case (Some kb)
  then obtain k b where kb: "max_by_work (fb_branches fb) = Some (k, b)" by (cases kb) simp
  show ?thesis
    using fb_inv_restore [OF assms max_by_work_branch(1) [OF assms kb]] fb_inv_remove [OF assms]
    by (simp add: fb_take_winning_candidate_def kb Let_def)
qed (simp add: fb_take_winning_candidate_def assms)

lemma fb_inv_take_by_tip: "fb_inv H fb \<Longrightarrow> fb_inv H (snd (fb_take_branch_by_tip tip fb))"
  by (auto simp: fb_take_branch_by_tip_def fb_inv_remove split: option.splits)

section \<open>Runs of the buffer\<close>

inductive fb_step :: "(u8 list \<Rightarrow> block_hash) \<Rightarrow> fork_buffer \<Rightarrow> fork_buffer \<Rightarrow> bool" for H where
  ingest: "fb_ingest H now peer hs ah anc hist fb = Some (r, fb') \<Longrightarrow> fb_step H fb fb'"
| extend: "fb_extend_branch H now peer tip hs hist fb = Some (r, fb') \<Longrightarrow> fb_step H fb fb'"
| expire: "fb_step H fb (snd (fb_expire_stale now ttl fb))"
| remove: "fb_step H fb (fb_remove_peer peer fb)"
| winning: "fb_step H fb (snd (fb_take_winning_candidate w fb))"
| by_tip: "fb_step H fb (snd (fb_take_branch_by_tip tip fb))"

lemma fb_step_inv: "fb_step H fb fb' \<Longrightarrow> fb_inv H fb \<Longrightarrow> fb_inv H fb'"
  by (induction rule: fb_step.induct)
    (auto intro: fb_inv_ingest fb_inv_extend fb_inv_take_winning fb_inv_take_by_tip fb_inv_retain
      simp: fb_expire_stale_def fb_remove_peer_def Let_def)

lemma fb_reachable_inv: "(fb_step H)\<^sup>*\<^sup>* (fb_new p) fb \<Longrightarrow> fb_inv H fb"
  by (induction rule: rtranclp_induct) (auto intro: fb_inv_new fb_step_inv)

text \<open>A buffer with one branch of one header, on which the witnesses evaluate the model.\<close>

definition sample_hash :: "u8 list \<Rightarrow> block_hash" where
  "sample_hash bs = replicate 32 0"

definition sample_fork :: header where
  "sample_fork = sample_header\<lparr>h_time := 5, bits := to_compact_lossy (pow_limit_target Regtest)\<rparr>"

lemma sample_pow: "pow_ok (hashed_from sample_hash h)"
  by (simp add: pow_ok_def hashed_from_def block_hash_def sample_hash_def is_met_by_val le_val_zeros)

lemma sample_fork_valid:
  "validate_chain sample_hash (params_new Regtest) [sample_fork] sample_header 0 [] =
     Some (Ok [hashed_from sample_hash sample_fork])"
proof -
  have "min_difficulty_bits (params_new Regtest) 0 (bits sample_header) 5 = Some None"
    by (simp add: min_difficulty_bits_def Let_def time_gap_def)
  moreover have "next_work_required_dgw_v3 [] 0 (params_new Regtest) =
      Some (to_compact_lossy (pow_limit_target Regtest))"
    by (simp add: next_work_required_dgw_v3_def Let_def)
  ultimately show ?thesis
    using sample_pow [of sample_fork]
    by (subst validate_chain_Cons)
      (simp add: fork_header_ok_def sample_fork_def sample_header_def block_hash_def sample_hash_def
        median_time_past_def word_less_nat_alt)
qed

lemma sample_ingest:
  "\<exists>fb b. fb_ingest sample_hash 0 ([], 0) [sample_fork] 0 sample_header [] (fb_new (params_new Regtest)) =
     Some (Ok (), fb) \<and> fb_branches fb = [((([], 0), replicate 32 0), b)] \<and>
     bb_headers b = [hashed_from sample_hash sample_fork]"
proof -
  obtain w where "cw_accumulate cw_zero [sample_fork] = Some w"
    using cw_accumulate_val [OF cw_val_zero(2)] by blast
  then show ?thesis
    by (simp add: fb_ingest_def fb_new_def sample_fork_valid MAX_FORK_HEADERS_PER_PEER_def
        MAX_BRANCHES_PER_PEER_def peer_branch_count_def hm_count_def hashed_from_def block_hash_def
        sample_hash_def del: validate_chain.simps params_new.simps cw_accumulate.simps)
qed

section \<open>Properties\<close>

text \<open>
  C15: Validation accepts exactly the chains in which every header refers to the hash of the header
  before it, meets its proof-of-work target, is later than the median time of the headers before
  it, and has the bits that retargeting or the minimum-difficulty rule asks for; it returns the
  headers with their hashes.
\<close>

theorem validate_chain_iff:
  "validate_chain H p hs prev height history = Some (Ok vs) \<longleftrightarrow>
     vs = map (hashed_from H) hs \<and>
     (\<forall>i < length hs. fork_header_ok H p (history @ take i hs) ((prev # hs) ! i)
        (height + of_nat i) (hs ! i))"
  by (rule validate_chain_Ok)

theorem validate_chain_iff_witness:
  "fork_header_ok sample_hash (params_new Regtest) [] sample_header 0 sample_fork"
  using sample_fork_valid unfolding validate_chain_iff by simp

text \<open>
  C13: In every buffer reached from an empty one, no peer holds more than 16 branches, and every
  branch has between 1 and 4096 headers that are linked by their hashes, meet their proof-of-work
  targets, end in the tip the branch is filed under, and add up to the work recorded for it.
\<close>

theorem fork_buffer_reachable:
  assumes "(fb_step H)\<^sup>*\<^sup>* (fb_new p) fb"
  shows "peer_branch_count peer fb \<le> 16 \<and>
    (hm_get (fb_branches fb) (peer, tip) = Some b \<longrightarrow> branch_ok H tip b)"
  using fb_invD [OF fb_reachable_inv [OF assms]] by blast

theorem fork_buffer_reachable_witness:
  "\<exists>fb b. hm_get (fb_branches fb) (([], 0), replicate 32 0) = Some b \<and>
     branch_ok sample_hash (replicate 32 0) b \<and> peer_branch_count ([], 0) fb \<le> 16"
proof -
  obtain fb b where fb: "fb_ingest sample_hash 0 ([], 0) [sample_fork] 0 sample_header []
      (fb_new (params_new Regtest)) = Some (Ok (), fb)"
    "hm_get (fb_branches fb) (([], 0), replicate 32 0) = Some b"
    using sample_ingest by fastforce
  have "(fb_step sample_hash)\<^sup>*\<^sup>* (fb_new (params_new Regtest)) fb"
    by (rule r_into_rtranclp, rule fb_step.ingest, rule fb(1))
  from fork_buffer_reachable [OF this, of "([], 0)" "replicate 32 0" b] fb(2) show ?thesis by blast
qed

text \<open>
  C14: When a winning candidate is taken, it is one of the buffered branches, it carries more work
  than the active chain, no buffered branch carries more, and it alone leaves the buffer; when none
  is taken, no branch carries more work than the active chain and every branch is still there.
\<close>

theorem take_winning_correct:
  assumes "fb_inv H fb" and "cw_valid w"
  shows "case fb_take_winning_candidate w fb of
      (Some c, fb') \<Rightarrow> \<exists>k b. hm_get (fb_branches fb) k = Some b \<and> c = candidate_of b \<and>
        cw_val w < cw_val (bb_total_work b) \<and>
        (\<forall>k' b'. hm_get (fb_branches fb) k' = Some b' \<longrightarrow> cw_val (bb_total_work b') \<le> cw_val (bb_total_work b)) \<and>
        hm_get (fb_branches fb') = (hm_get (fb_branches fb))(k := None)
    | (None, fb') \<Rightarrow> hm_get (fb_branches fb') = hm_get (fb_branches fb) \<and>
        (\<forall>k b. hm_get (fb_branches fb) k = Some b \<longrightarrow> cw_val (bb_total_work b) \<le> cw_val w)"
proof (cases "max_by_work (fb_branches fb)")
  case None
  then show ?thesis by (simp add: fb_take_winning_candidate_def max_by_work_None)
next
  case (Some kb)
  then obtain k b where kb: "max_by_work (fb_branches fb) = Some (k, b)" by (cases kb) simp
  note max = max_by_work_branch [OF assms(1) kb] and ok = fb_invD(1) [OF assms(1)]
  have le: "cw_le (bb_total_work b) w \<longleftrightarrow> cw_val (bb_total_work b) \<le> cw_val w"
    using max(2) assms(2) by (intro cw_le_val) (simp_all add: branch_ok_def)
  have "hm_get (hm_remove k (fb_branches fb)) = (hm_get (fb_branches fb))(k := None)"
    "hm_get (hm_insert k b (hm_remove k (fb_branches fb))) = hm_get (fb_branches fb)"
    using max(1) by (auto simp: hm.get_del [OF ok] hm.get_ins [OF hm.ok_del [OF ok]])
  note maps = this
  show ?thesis
  proof (cases "cw_le (bb_total_work b) w")
    case True
    with le max(3) have "\<forall>k' b'. hm_get (fb_branches fb) k' = Some b' \<longrightarrow> cw_val (bb_total_work b') \<le> cw_val w"
      using order_trans by blast
    with True maps(2) show ?thesis by (simp add: fb_take_winning_candidate_def kb Let_def)
  next
    case False
    have "\<exists>k0 b0. hm_get (fb_branches fb) k0 = Some b0 \<and> candidate_of b = candidate_of b0 \<and>
        cw_val w < cw_val (bb_total_work b0) \<and>
        (\<forall>k' b'. hm_get (fb_branches fb) k' = Some b' \<longrightarrow> cw_val (bb_total_work b') \<le> cw_val (bb_total_work b0)) \<and>
        hm_get (hm_remove k (fb_branches fb)) = (hm_get (fb_branches fb))(k0 := None)"
      using max False le maps(1) by (intro exI [of _ k] exI [of _ b]) (auto simp del: split_paired_All)
    with False show ?thesis by (simp add: fb_take_winning_candidate_def kb Let_def)
  qed
qed

theorem take_winning_correct_witness:
  "\<exists>fb c. fb_inv sample_hash fb \<and> fst (fb_take_winning_candidate cw_zero fb) = Some c \<and>
     fc_headers c = [hashed_from sample_hash sample_fork]"
proof -
  obtain fb b where fb: "fb_ingest sample_hash 0 ([], 0) [sample_fork] 0 sample_header []
      (fb_new (params_new Regtest)) = Some (Ok (), fb)"
    "fb_branches fb = [((([], 0), replicate 32 0), b)]" "bb_headers b = [hashed_from sample_hash sample_fork]"
    using sample_ingest by blast
  have inv: "fb_inv sample_hash fb" by (rule fb_inv_ingest [OF fb_inv_new fb(1)])
  then have "branch_ok sample_hash (replicate 32 0) b"
    using fb_invD(3) [OF inv, of "([], 0)" "replicate 32 0" b] fb(2) by simp
  then have "cw_val (bb_total_work b) = header_work_val sample_fork mod 2 ^ 256"
    by (simp add: branch_ok_def fb(3) hashed_from_def)
  then have "cw_val cw_zero < cw_val (bb_total_work b)"
    using header_work_val_bounds [of sample_fork] by (simp add: cw_val_zero)
  with take_winning_correct [OF inv cw_val_zero(2)] inv fb(2,3) show ?thesis
    by (cases "fb_take_winning_candidate cw_zero fb")
      (auto simp: candidate_of_def split: option.splits if_splits)
qed

text \<open>
  C16: An extension that fails leaves every branch of the buffer as it was.
\<close>

theorem extend_error_unchanged:
  assumes "hm_ok (fb_branches fb)" and "fb_extend_branch H now peer tip hs hist fb = Some (Err e, fb')"
  shows "hm_get (fb_branches fb') = hm_get (fb_branches fb) \<and> fb_params fb' = fb_params fb"
proof (cases "hs = [] \<or> hm_get (fb_branches fb) (peer, tip) = None")
  case True
  then show ?thesis
    using assms(2) by (cases "hs = []") (simp_all add: fb_extend_branch_def Let_def)
next
  case False
  then obtain b where b: "hm_get (fb_branches fb) (peer, tip) = Some b" and hs: "hs \<noteq> []" by blast
  note step = assms(2) [unfolded fb_extend_branch_def, simplified b hs if_False option.case Let_def]
  have "fb' = fb\<lparr>fb_branches := hm_insert (peer, tip) b (hm_remove (peer, tip) (fb_branches fb))\<rparr>"
    using step by (auto split: if_splits option.splits sum.splits)
  then show ?thesis
    using b by (auto simp: hm.get_del [OF assms(1)] hm.get_ins [OF hm.ok_del [OF assms(1)]])
qed

theorem extend_error_unchanged_witness:
  "\<exists>fb b e fb'. fb_extend_branch sample_hash 0 ([], 0) (replicate 32 0) [sample_fork\<lparr>prev_blockhash := replicate 32 1\<rparr>] [] fb =
     Some (Err e, fb') \<and> bb_headers b = [hashed_from sample_hash sample_fork] \<and>
     hm_get (fb_branches fb') (([], 0), replicate 32 0) = Some b"
proof -
  obtain fb b where "fb_ingest sample_hash 0 ([], 0) [sample_fork] 0 sample_header [] (fb_new (params_new Regtest)) = Some (Ok (), fb)"
    and fb: "fb_branches fb = [((([], 0), replicate 32 0), b)]" "bb_headers b = [hashed_from sample_hash sample_fork]"
    using sample_ingest by blast
  obtain fb' where run: "fb_extend_branch sample_hash 0 ([], 0) (replicate 32 0) [sample_fork\<lparr>prev_blockhash := replicate 32 1\<rparr>] [] fb =
      Some (Err (ForkChainBreak ''expected prev''), fb')"
    by (simp add: fb_extend_branch_def fb Let_def MAX_FORK_HEADERS_PER_PEER_def block_hash_def sample_hash_def)
  have "hm_ok (fb_branches fb)" by (simp add: fb(1))
  from extend_error_unchanged [OF this run] run fb show ?thesis by force
qed

end
