(* ===== verification/Merkle.thy ===== *)
theory Merkle
  imports Block_Header
begin

text \<open>
  Merkle trees, from \<open>src/dash/src/merkle_tree/mod.rs\<close> and \<open>block.rs\<close>: the two
  computations of a Merkle root, and the partial Merkle tree that proves the inclusion of
  transactions in a block. The code is generic in the hash type; here it is the type variable
  \<open>'h\<close>, and the parameter \<open>ph\<close> is the hash of two hashes written one after the other.
  Heights, positions and counters are \<open>nat\<close>: they are \<open>u32\<close> in the source and stay below the
  number of tree nodes. A result \<open>None\<close> is a panic or a recursion that does not end.
\<close>

section \<open>Merkle roots\<close>

text \<open>The loop of \<open>merkle_root_r\<close>, which overwrites the slice it reads.\<close>

definition merge_step :: "('h \<Rightarrow> 'h \<Rightarrow> 'h) \<Rightarrow> nat \<Rightarrow> 'h list \<Rightarrow> 'h list" where
  "merge_step ph idx hashes =
     (let idx1 = 2 * idx; idx2 = min (idx1 + 1) (length hashes - 1) in
      hashes[idx := ph (hashes ! idx1) (hashes ! idx2)])"

definition merge_level :: "('h \<Rightarrow> 'h \<Rightarrow> 'h) \<Rightarrow> 'h list \<Rightarrow> 'h list" where
  "merge_level ph hashes = fold (merge_step ph) [0..<(length hashes + 1) div 2] hashes"

lemma length_merge_fold: "length (fold (merge_step ph) is hashes) = length hashes"
  by (induction "is" arbitrary: hashes) (simp_all add: merge_step_def Let_def)

lemma length_merge_level [simp]: "length (merge_level ph hashes) = length hashes"
  unfolding merge_level_def by (rule length_merge_fold)

function merkle_root_r :: "('h \<Rightarrow> 'h \<Rightarrow> 'h) \<Rightarrow> 'h list \<Rightarrow> 'h option" where
  "merkle_root_r ph hashes =
     (if hashes = [] then None
      else if length hashes = 1 then Some (hashes ! 0)
      else
        let half_len = length hashes div 2 + length hashes mod 2 in
        merkle_root_r ph (take half_len (merge_level ph hashes)))"
  by auto
termination
proof (relation "measure (length \<circ> snd)", goal_cases)
  case (2 ph hashes half_len)
  then have "1 < length hashes" by (cases hashes) auto
  then show ?case using 2 by simp arith
qed simp

declare merkle_root_r.simps [simp del]

definition calculate_root_inline :: "('h \<Rightarrow> 'h \<Rightarrow> 'h) \<Rightarrow> 'h list \<Rightarrow> 'h option" where
  "calculate_root_inline ph hashes =
     (if length hashes = 0 then None
      else if length hashes = 1 then Some (hashes ! 0)
      else merkle_root_r ph hashes)"

fun pair_hashes :: "('h \<Rightarrow> 'h \<Rightarrow> 'h) \<Rightarrow> 'h list \<Rightarrow> 'h list" where
  "pair_hashes ph [] = []"
| "pair_hashes ph [hash1] = [ph hash1 hash1]"
| "pair_hashes ph (hash1 # hash2 # hashes) = ph hash1 hash2 # pair_hashes ph hashes"

definition calculate_root :: "('h \<Rightarrow> 'h \<Rightarrow> 'h) \<Rightarrow> 'h list \<Rightarrow> 'h option" where
  "calculate_root ph hashes =
     (case hashes of
        [] \<Rightarrow> None
      | [first] \<Rightarrow> Some first
      | _ \<Rightarrow> merkle_root_r ph (pair_hashes ph hashes))"

section \<open>Partial Merkle trees\<close>

definition MAX_BLOCK_WEIGHT :: u32 where
  "MAX_BLOCK_WEIGHT = 4000000"

definition MIN_TRANSACTION_WEIGHT :: u32 where
  "MIN_TRANSACTION_WEIGHT = 4 * 60"

record 'h partial_merkle_tree =
  num_transactions :: u32
  pmt_bits :: "bool list"
  pmt_hashes :: "'h list"

datatype merkle_block_error =
    MerkleRootMismatch
  | NoTransactions
  | TooManyTransactions
  | TooManyHashes
  | NotEnoughBits
  | NotAllBitsConsumed
  | NotAllHashesConsumed
  | BitsArrayOverflow
  | HashesArrayOverflow
  | IdenticalHashesFound

text \<open>
  The number of nodes at a height, for a given number of transactions. The sum wraps and a shift
  uses the low five bits of its amount, as the release profile does.
\<close>

definition calc_tree_width :: "u32 \<Rightarrow> u32 \<Rightarrow> u32" where
  "calc_tree_width num height =
     (let k = unat height mod 32 in drop_bit k (num + push_bit k 1 - 1))"

lemma unat_drop: "unat (drop_bit k (w :: u32)) = unat w div 2 ^ k"
  unfolding unat_drop_bit_eq by (rule drop_bit_eq_div)

lemma drop_31: "\<not> 1 < drop_bit 31 (w :: u32)"
proof -
  have "unat w < 2 ^ 32" using unsigned_less [of w, where 'a = nat] by simp
  then show ?thesis unfolding word_less_nat_alt unat_drop by (simp add: not_less less_Suc_eq_le [symmetric] div_less_iff_less_mult)
qed

lemma calc_tree_width_top: "unat height mod 32 = 31 \<Longrightarrow> \<not> 1 < calc_tree_width num height"
  unfolding calc_tree_width_def Let_def by (simp only: drop_31 not_False_eq_True)

text \<open>\<open>while calc_tree_width(height) > 1 { height += 1 }\<close>\<close>

function calc_height :: "u32 \<Rightarrow> u32 \<Rightarrow> u32" where
  "calc_height num height =
     (if 1 < calc_tree_width num height then calc_height num (height + 1) else height)"
  by auto
termination
proof (relation "measure (\<lambda>(num, height). 31 - unat height mod 32)", goal_cases)
  case (2 num height)
  then have "unat height mod 32 < 31"
    using calc_tree_width_top [of height num] by (cases "unat height mod 32 = 31") auto
  moreover from this have "unat height + 1 < 2 ^ 32" using unsigned_less [of height, where 'a = nat] by (cases "unat height = 2 ^ 32 - 1") auto
  then have "unat (height + 1) = unat height + 1" by (simp add: unat_word_ariths)
  ultimately show ?case by (simp add: mod_Suc)
qed simp

declare calc_height.simps [simp del]

function calc_hash :: "('h \<Rightarrow> 'h \<Rightarrow> 'h) \<Rightarrow> u32 \<Rightarrow> u32 \<Rightarrow> u32 \<Rightarrow> 'h list \<Rightarrow> 'h" where
  "calc_hash ph num height pos txids =
     (if height = 0 then txids ! unat pos
      else
        let left = calc_hash ph num (height - 1) (pos * 2) txids;
            right = (if pos * 2 + 1 < calc_tree_width num (height - 1)
                     then calc_hash ph num (height - 1) (pos * 2 + 1) txids else left) in
        ph left right)"
  by auto
termination
  by (relation "measure (\<lambda>(ph, num, height, pos, txids). unat height)") (auto simp: unat_minus_one unat_gt_0)

declare calc_hash.simps [simp del]

text \<open>\<open>while p < (pos + 1) << height && p < num_transactions\<close>\<close>

definition parent_of_match :: "u32 \<Rightarrow> u32 \<Rightarrow> u32 \<Rightarrow> bool list \<Rightarrow> bool" where
  "parent_of_match num height pos matches =
     (let k = unat height mod 32 in
      list_ex (\<lambda>p. matches ! p) [unat (push_bit k pos)..<min (unat (push_bit k (pos + 1))) (unat num)])"

text \<open>The bits and the hashes the traversal appends.\<close>

function traverse_and_build ::
  "('h \<Rightarrow> 'h \<Rightarrow> 'h) \<Rightarrow> u32 \<Rightarrow> u32 \<Rightarrow> u32 \<Rightarrow> 'h list \<Rightarrow> bool list \<Rightarrow> bool list \<times> 'h list"
where
  "traverse_and_build ph num height pos txids matches =
     (let matched = parent_of_match num height pos matches in
      if height = 0 \<or> \<not> matched then ([matched], [calc_hash ph num height pos txids])
      else
        let (bits_l, hashes_l) = traverse_and_build ph num (height - 1) (pos * 2) txids matches;
            (bits_r, hashes_r) =
              (if pos * 2 + 1 < calc_tree_width num (height - 1)
               then traverse_and_build ph num (height - 1) (pos * 2 + 1) txids matches else ([], [])) in
        (matched # bits_l @ bits_r, hashes_l @ hashes_r))"
  by auto
termination
  by (relation "measure (\<lambda>(ph, num, height, pos, txids, matches). unat height)") (auto simp: unat_minus_one unat_gt_0)

declare traverse_and_build.simps [simp del]

definition from_txids :: "('h \<Rightarrow> 'h \<Rightarrow> 'h) \<Rightarrow> 'h list \<Rightarrow> bool list \<Rightarrow> 'h partial_merkle_tree option" where
  "from_txids ph txids matches =
     (if length txids = 0 \<or> length txids \<noteq> length matches then None
      else
        let num = as_u32 (length txids);
            (bits, hashes) = traverse_and_build ph num (calc_height num 0) 0 txids matches in
        Some \<lparr>num_transactions = num, pmt_bits = bits, pmt_hashes = hashes\<rparr>)"

text \<open>
  The traversal that consumes bits and hashes. Its state is the number of bits and of hashes used,
  the matched hashes and their positions; what they hold after an error is left out.
\<close>

type_synonym 'h extract_state = "nat \<times> nat \<times> 'h list \<times> u32 list"

function traverse_and_extract :: "('h \<Rightarrow> 'h \<Rightarrow> 'h) \<Rightarrow> 'h partial_merkle_tree \<Rightarrow> u32 \<Rightarrow> u32 \<Rightarrow> 'h extract_state \<Rightarrow>
    ('h \<times> 'h extract_state, merkle_block_error) result" where
  "traverse_and_extract ph t height pos (bits_used, hash_used, matches, indexes) =
     (if bits_used \<ge> length (pmt_bits t) then Err BitsArrayOverflow
      else
        let matched = pmt_bits t ! bits_used in
        if height = 0 \<or> \<not> matched then
          (if hash_used \<ge> length (pmt_hashes t) then Err HashesArrayOverflow
           else
             let hash = pmt_hashes t ! hash_used in
             if height = 0 \<and> matched
             then Ok (hash, bits_used + 1, hash_used + 1, matches @ [hash], indexes @ [pos])
             else Ok (hash, bits_used + 1, hash_used + 1, matches, indexes))
        else
          case traverse_and_extract ph t (height - 1) (pos * 2) (bits_used + 1, hash_used, matches, indexes) of
            Err e \<Rightarrow> Err e
          | Ok (left, s1) \<Rightarrow>
              if pos * 2 + 1 < calc_tree_width (num_transactions t) (height - 1) then
                (case traverse_and_extract ph t (height - 1) (pos * 2 + 1) s1 of
                   Err e \<Rightarrow> Err e
                 | Ok (right, s2) \<Rightarrow>
                     if right = left then Err IdenticalHashesFound else Ok (ph left right, s2))
              else Ok (ph left left, s1))"
  by pat_completeness auto
termination
  by (relation "measure (\<lambda>(ph, t, height, pos, s). unat height)") (auto simp: unat_minus_one unat_gt_0)

declare traverse_and_extract.simps [simp del]

definition extract_matches :: "('h \<Rightarrow> 'h \<Rightarrow> 'h) \<Rightarrow> 'h partial_merkle_tree \<Rightarrow>
    ('h \<times> 'h list \<times> u32 list, merkle_block_error) result" where
  "extract_matches ph t =
     (if num_transactions t = 0 then Err NoTransactions
      else if num_transactions t > MAX_BLOCK_WEIGHT div MIN_TRANSACTION_WEIGHT then Err TooManyTransactions
      else if as_u32 (length (pmt_hashes t)) > num_transactions t then Err TooManyHashes
      else if length (pmt_bits t) < length (pmt_hashes t) then Err NotEnoughBits
      else
        case traverse_and_extract ph t (calc_height (num_transactions t) 0) 0 (0, 0, [], []) of
          Err e \<Rightarrow> Err e
        | Ok (root, bits_used, hash_used, matches, indexes) \<Rightarrow>
            if (bits_used + 7) div 8 \<noteq> (unat (as_u32 (length (pmt_bits t))) + 7) div 8
            then Err NotAllBitsConsumed
            else if hash_used \<noteq> unat (as_u32 (length (pmt_hashes t))) then Err NotAllHashesConsumed
            else Ok (root, matches, indexes))"

section \<open>The tree over natural numbers\<close>

text \<open>
  The same functions without machine words: the number of nodes at a height, the height, the hash
  of a node, and the two traversals. They are what the properties speak about; the code computes
  them as long as there are at most \<open>2 ^ 31\<close> transactions, so that no sum wraps.
\<close>

definition tree_width :: "nat \<Rightarrow> nat \<Rightarrow> nat" where
  "tree_width num height = (num + 2 ^ height - 1) div 2 ^ height"

lemma tree_width_le_iff: "tree_width num height \<le> k \<longleftrightarrow> num \<le> k * 2 ^ height"
proof -
  have "tree_width num height \<le> k \<longleftrightarrow> num + 2 ^ height - 1 < (k + 1) * 2 ^ height"
    unfolding tree_width_def by (simp add: less_Suc_eq_le [symmetric] div_less_iff_less_mult)
  also have "\<dots> \<longleftrightarrow> num \<le> k * 2 ^ height"
    by (cases "(2::nat) ^ height") auto
  finally show ?thesis .
qed

function tree_height :: "nat \<Rightarrow> nat \<Rightarrow> nat" where
  "tree_height num height =
     (if tree_width num height > 1 then tree_height num (height + 1) else height)"
  by auto
termination
proof (relation "measure (\<lambda>(num, height). num - height)", goal_cases)
  case (2 num height)
  then have "2 ^ height < num"
    using tree_width_le_iff [of num height 1] by simp
  then have "height < num" using less_exp [of height] by linarith
  then show ?case by simp
qed simp

declare tree_height.simps [simp del]

fun node_hash :: "('h \<Rightarrow> 'h \<Rightarrow> 'h) \<Rightarrow> nat \<Rightarrow> nat \<Rightarrow> nat \<Rightarrow> 'h list \<Rightarrow> 'h" where
  "node_hash ph num 0 pos txids = txids ! pos"
| "node_hash ph num (Suc height) pos txids =
     (let left = node_hash ph num height (pos * 2) txids;
          right = (if pos * 2 + 1 < tree_width num height
                   then node_hash ph num height (pos * 2 + 1) txids else left) in
      ph left right)"

definition node_matched :: "nat \<Rightarrow> nat \<Rightarrow> nat \<Rightarrow> bool list \<Rightarrow> bool" where
  "node_matched num height pos matches =
     list_ex (\<lambda>p. matches ! p) [pos * 2 ^ height..<min ((pos + 1) * 2 ^ height) num]"

fun build_tree :: "('h \<Rightarrow> 'h \<Rightarrow> 'h) \<Rightarrow> nat \<Rightarrow> nat \<Rightarrow> nat \<Rightarrow> 'h list \<Rightarrow> bool list \<Rightarrow> bool list \<times> 'h list" where
  "build_tree ph num 0 pos txids matches =
     ([node_matched num 0 pos matches], [node_hash ph num 0 pos txids])"
| "build_tree ph num (Suc height) pos txids matches =
     (if \<not> node_matched num (Suc height) pos matches
      then ([False], [node_hash ph num (Suc height) pos txids])
      else
        let (bits_l, hashes_l) = build_tree ph num height (pos * 2) txids matches;
            (bits_r, hashes_r) =
              (if pos * 2 + 1 < tree_width num height
               then build_tree ph num height (pos * 2 + 1) txids matches else ([], [])) in
        (True # bits_l @ bits_r, hashes_l @ hashes_r))"

fun extract_tree :: "('h \<Rightarrow> 'h \<Rightarrow> 'h) \<Rightarrow> 'h partial_merkle_tree \<Rightarrow> nat \<Rightarrow> nat \<Rightarrow> 'h extract_state \<Rightarrow>
    ('h \<times> 'h extract_state, merkle_block_error) result" where
  "extract_tree ph t 0 pos (bits_used, hash_used, matches, indexes) =
     (if bits_used \<ge> length (pmt_bits t) then Err BitsArrayOverflow
      else if hash_used \<ge> length (pmt_hashes t) then Err HashesArrayOverflow
      else
        let hash = pmt_hashes t ! hash_used in
        if pmt_bits t ! bits_used
        then Ok (hash, bits_used + 1, hash_used + 1, matches @ [hash], indexes @ [as_u32 pos])
        else Ok (hash, bits_used + 1, hash_used + 1, matches, indexes))"
| "extract_tree ph t (Suc height) pos (bits_used, hash_used, matches, indexes) =
     (if bits_used \<ge> length (pmt_bits t) then Err BitsArrayOverflow
      else if \<not> pmt_bits t ! bits_used then
        (if hash_used \<ge> length (pmt_hashes t) then Err HashesArrayOverflow
         else Ok (pmt_hashes t ! hash_used, bits_used + 1, hash_used + 1, matches, indexes))
      else
        case extract_tree ph t height (pos * 2) (bits_used + 1, hash_used, matches, indexes) of
          Err e \<Rightarrow> Err e
        | Ok (left, s1) \<Rightarrow>
            if pos * 2 + 1 < tree_width (unat (num_transactions t)) height then
              (case extract_tree ph t height (pos * 2 + 1) s1 of
                 Err e \<Rightarrow> Err e
               | Ok (right, s2) \<Rightarrow>
                   if right = left then Err IdenticalHashesFound else Ok (ph left right, s2))
            else Ok (ph left left, s1))"

section \<open>The levels of the tree\<close>

lemma length_pair_hashes [simp]: "length (pair_hashes ph hs) = (length hs + 1) div 2"
  by (induction ph hs rule: pair_hashes.induct) simp_all

lemma nth_pair_hashes:
  "i < (length hs + 1) div 2 \<Longrightarrow>
     pair_hashes ph hs ! i = ph (hs ! (2 * i)) (hs ! min (2 * i + 1) (length hs - 1))"
proof (induction ph hs arbitrary: i rule: pair_hashes.induct)
  case (3 ph h1 h2 hs)
  show ?case
  proof (cases i)
    case (Suc j)
    with 3(2) have j: "j < (length hs + 1) div 2" by simp
    then have "hs \<noteq> []" by auto
    then have "min (2 * i + 1) (length (h1 # h2 # hs) - 1) = Suc (Suc (min (2 * j + 1) (length hs - 1)))"
      using Suc by (cases hs) auto
    then show ?thesis using 3(1) [OF j] Suc by simp
  qed simp
qed auto

lemma nth_merge_fold:
  assumes "k \<le> (length hs + 1) div 2" and "j < length hs"
  shows "fold (merge_step ph) [0..<k] hs ! j =
    (if j < k then ph (hs ! (2 * j)) (hs ! min (2 * j + 1) (length hs - 1)) else hs ! j)"
  using assms
proof (induction k arbitrary: j)
  case (Suc k)
  define hs' where "hs' = fold (merge_step ph) [0..<k] hs"
  have len: "length hs' = length hs" unfolding hs'_def by (rule length_merge_fold)
  have IH: "hs' ! i = (if i < k then ph (hs ! (2 * i)) (hs ! min (2 * i + 1) (length hs - 1)) else hs ! i)"
    if "i < length hs" for i
    unfolding hs'_def using Suc.IH [of i] Suc.prems(1) that by simp
  define i1 i2 where "i1 = 2 * k" and "i2 = min (2 * k + 1) (length hs - 1)"
  have i: "i1 < length hs" "k \<le> i1" "i2 < length hs" "k \<le> i2"
    using Suc.prems by (auto simp: i1_def i2_def)
  have "fold (merge_step ph) [0..<Suc k] hs = hs'[k := ph (hs' ! i1) (hs' ! i2)]"
    by (simp add: hs'_def merge_step_def Let_def i1_def i2_def length_merge_fold)
  moreover have "hs' ! i1 = hs ! i1" "hs' ! i2 = hs ! i2"
    using IH [OF i(1)] IH [OF i(3)] i by simp_all
  ultimately show ?case
    using IH [OF Suc.prems(2)] Suc.prems(2)
    by (cases "j = k") (auto simp: len i1_def i2_def less_Suc_eq)
qed simp

lemma take_merge_level: "take ((length hs + 1) div 2) (merge_level ph hs) = pair_hashes ph hs"
proof (rule nth_equalityI)
  fix i
  assume "i < length (take ((length hs + 1) div 2) (merge_level ph hs))"
  then have "i < (length hs + 1) div 2" "i < length hs" by auto
  then show "take ((length hs + 1) div 2) (merge_level ph hs) ! i = pair_hashes ph hs ! i"
    using nth_merge_fold [of "(length hs + 1) div 2" hs i ph]
    by (simp add: merge_level_def nth_pair_hashes)
qed simp

lemma merkle_root_r_pair:
  "merkle_root_r ph hs =
     (if hs = [] then None else if length hs = 1 then Some (hs ! 0) else merkle_root_r ph (pair_hashes ph hs))"
proof -
  have "length hs div 2 + length hs mod 2 = (length hs + 1) div 2" by presburger
  then show ?thesis
    by (subst merkle_root_r.simps) (simp only: Let_def take_merge_level)
qed

lemma eq_by_bounds: "(\<And>m :: nat. a \<le> m \<longleftrightarrow> b \<le> m) \<Longrightarrow> a = b"
  by (meson le_antisym order_refl)

lemma tree_width_0 [simp]: "tree_width n 0 = n"
  by (simp add: tree_width_def)

lemma tree_width_Suc: "tree_width n (Suc k) = (tree_width n k + 1) div 2"
proof (rule eq_by_bounds)
  fix m
  have "(tree_width n k + 1) div 2 \<le> m \<longleftrightarrow> tree_width n k \<le> 2 * m" by presburger
  then show "tree_width n (Suc k) \<le> m \<longleftrightarrow> (tree_width n k + 1) div 2 \<le> m"
    by (simp add: tree_width_le_iff mult.assoc mult.left_commute)
qed

definition tree_level :: "('h \<Rightarrow> 'h \<Rightarrow> 'h) \<Rightarrow> nat \<Rightarrow> 'h list \<Rightarrow> 'h list" where
  "tree_level ph k hs = (pair_hashes ph ^^ k) hs"

lemma length_tree_level [simp]: "length (tree_level ph k hs) = tree_width (length hs) k"
  by (induction k) (simp_all add: tree_level_def tree_width_Suc)

lemma tree_level_Suc: "tree_level ph (Suc k) hs = pair_hashes ph (tree_level ph k hs)"
  by (simp add: tree_level_def)

lemma node_hash_level:
  "pos < tree_width (length hs) k \<Longrightarrow> node_hash ph (length hs) k pos hs = tree_level ph k hs ! pos"
proof (induction k arbitrary: pos)
  case 0
  then show ?case by (simp add: tree_level_def)
next
  case (Suc k)
  define w where "w = tree_width (length hs) k"
  have pos: "pos < (w + 1) div 2" using Suc.prems by (simp add: tree_width_Suc w_def)
  then have left: "pos * 2 < w" by simp
  have right: "min (2 * pos + 1) (w - 1) = (if pos * 2 + 1 < w then pos * 2 + 1 else pos * 2)"
    using left by auto
  have "tree_level ph (Suc k) hs ! pos =
      ph (tree_level ph k hs ! (2 * pos)) (tree_level ph k hs ! min (2 * pos + 1) (w - 1))"
    unfolding tree_level_Suc using pos by (subst nth_pair_hashes) (simp_all add: w_def)
  then show ?case
    using Suc.IH [of "pos * 2"] Suc.IH [of "pos * 2 + 1"] left right
    by (simp add: Let_def mult.commute flip: w_def)
qed

section \<open>The height of the tree\<close>

lemma tree_height_bounds:
  "h \<le> tree_height n h \<and> n \<le> 2 ^ tree_height n h \<and> (tree_height n h = h \<or> 2 ^ (tree_height n h - 1) < n)"
proof (induction n h rule: tree_height.induct)
  case (1 n h)
  note w = tree_width_le_iff [of n h 1]
  show ?case
  proof (cases "tree_width n h > 1")
    case True
    then have "tree_height n h = tree_height n (h + 1)" by (subst tree_height.simps) simp
    moreover have "2 ^ h < n" using True w by simp
    ultimately show ?thesis using 1 [OF True] by auto
  next
    case False
    then have "tree_height n h = h" by (subst tree_height.simps) simp
    then show ?thesis using False w by simp
  qed
qed

lemma tree_height_unique:
  assumes "n \<le> 2 ^ h" and "h = 0 \<or> 2 ^ (h - 1) < n"
  shows "tree_height n 0 = h"
proof -
  define r where "r = tree_height n 0"
  have r: "n \<le> 2 ^ r" "r = 0 \<or> 2 ^ (r - 1) < n"
    using tree_height_bounds [of 0 n] by (auto simp: r_def)
  have "a \<le> b" if "n \<le> 2 ^ b" "a = 0 \<or> 2 ^ (a - 1) < n" for a b :: nat
  proof (rule ccontr)
    assume "\<not> a \<le> b"
    then have "b \<le> a - 1" "a \<noteq> 0" by simp_all
    then have "(2::nat) ^ b \<le> 2 ^ (a - 1)" by (intro power_increasing) simp_all
    with that \<open>a \<noteq> 0\<close> show False by linarith
  qed
  from this [of r h] this [of h r] assms r show ?thesis by (simp add: r_def)
qed

lemma tree_height_half:
  assumes "2 \<le> n"
  shows "tree_height n 0 = Suc (tree_height ((n + 1) div 2) 0)"
proof (rule tree_height_unique)
  define r where "r = tree_height ((n + 1) div 2) 0"
  have r: "(n + 1) div 2 \<le> 2 ^ r" "r = 0 \<or> 2 ^ (r - 1) < (n + 1) div 2"
    using tree_height_bounds [of 0 "(n + 1) div 2"] by (auto simp: r_def)
  show "n \<le> 2 ^ Suc (tree_height ((n + 1) div 2) 0)" 
    unfolding r_def [symmetric] using r(1) by simp
  have "2 ^ r < n"
  proof (cases r)
    case (Suc k)
    then have "2 ^ k < (n + 1) div 2" using r(2) by simp
    then show ?thesis using Suc by simp
  qed (use assms in simp)
  then show "Suc (tree_height ((n + 1) div 2) 0) = 0 \<or> 2 ^ (Suc (tree_height ((n + 1) div 2) 0) - 1) < n"
    unfolding r_def [symmetric] by simp
qed

lemma tree_height_width: "0 < n \<Longrightarrow> tree_width n (tree_height n 0) = 1"
proof -
  assume "0 < n"
  then have "\<not> tree_width n (tree_height n 0) \<le> 0"
    using tree_width_le_iff [of n "tree_height n 0" 0] by simp
  moreover have "tree_width n (tree_height n 0) \<le> 1"
    using tree_height_bounds [of 0 n] by (simp add: tree_width_le_iff)
  ultimately show ?thesis by linarith
qed

lemma merkle_root_r_level:
  "hs \<noteq> [] \<Longrightarrow> merkle_root_r ph hs = Some (tree_level ph (tree_height (length hs) 0) hs ! 0)"
proof (induction "length hs" arbitrary: hs rule: less_induct)
  case less
  show ?case
  proof (cases "length hs = 1")
    case True
    moreover have "tree_height 1 0 = 0" by (rule tree_height_unique) simp_all
    ultimately show ?thesis by (subst merkle_root_r_pair) (auto simp: tree_level_def)
  next
    case False
    with less.prems have n: "2 \<le> length hs" by (cases hs) (auto simp: Suc_le_eq)
    then have "pair_hashes ph hs \<noteq> []" "length (pair_hashes ph hs) < length hs"
      using length_pair_hashes [of ph hs] by (auto simp flip: length_greater_0_conv)
    then have "merkle_root_r ph hs =
        Some (tree_level ph (tree_height (length (pair_hashes ph hs)) 0) (pair_hashes ph hs) ! 0)"
      using less.hyps [of "pair_hashes ph hs"] less.prems False by (subst merkle_root_r_pair) simp
    then show ?thesis
      using tree_height_half [OF n] by (simp add: tree_level_def funpow_swap1)
  qed
qed

lemma calculate_root_inline_eq: "calculate_root_inline ph hs = calculate_root ph hs"
  by (cases hs rule: remdups_adj.cases)
    (simp_all add: calculate_root_inline_def calculate_root_def merkle_root_r_pair [of _ "_ # _ # _"])

lemma calculate_root_hash:
  assumes "hs \<noteq> []"
  shows "calculate_root ph hs = Some (node_hash ph (length hs) (tree_height (length hs) 0) 0 hs)"
proof -
  have "calculate_root ph hs = merkle_root_r ph hs"
    unfolding calculate_root_inline_eq [symmetric] calculate_root_inline_def
    using merkle_root_r_pair [of ph hs] assms by auto
  then show ?thesis
    using assms by (simp add: merkle_root_r_level node_hash_level tree_height_width)
qed

section \<open>The code computes the tree\<close>

text \<open>Words that stand for heights and positions below \<open>2 ^ 32\<close>.\<close>

lemma unat_u32 [simp]: "k < 2 ^ 32 \<Longrightarrow> unat (as_u32 k) = k"
  by (simp add: unsigned_of_nat take_bit_nat_eq_self)

lemma unat_push_u32: "k * 2 ^ h < 2 ^ 32 \<Longrightarrow> unat (push_bit h (as_u32 k)) = k * 2 ^ h"
proof -
  assume "k * 2 ^ h < 2 ^ 32"
  moreover have "push_bit h (as_u32 k) = as_u32 (k * 2 ^ h)" by (simp add: push_bit_eq_mult)
  ultimately show ?thesis by (simp only: unat_u32)
qed

lemma calc_tree_width_eq:
  assumes n: "unat num \<le> 2 ^ 31" and h: "h \<le> 31"
  shows "unat (calc_tree_width num (as_u32 h)) = tree_width (unat num) h"
proof -
  have p: "(2::nat) ^ h \<le> 2 ^ 31" using h by (intro power_increasing) simp_all
  have k: "unat (as_u32 h) mod 32 = h" using h by simp
  have one: "unat (push_bit h 1 :: u32) = 2 ^ h" using unat_push_u32 [of 1 h] p by simp
  then have "1 \<le> (push_bit h 1 :: u32)" by (simp add: word_le_nat_alt Suc_le_eq)
  then have m: "unat (push_bit h 1 - 1 :: u32) = 2 ^ h - 1" using one by (simp add: unat_sub)
  have "num + push_bit h 1 - 1 = num + (push_bit h 1 - 1)" by simp
  moreover have "unat (num + (push_bit h 1 - 1)) = unat num + (2 ^ h - 1)"
    using n p m by (subst unat_add_lem [THEN iffD1]) simp_all
  moreover have "unat num + (2 ^ h - 1) = unat num + 2 ^ h - 1" by simp
  ultimately show ?thesis
    unfolding calc_tree_width_def Let_def k unat_drop tree_width_def by (simp only:)
qed

lemma child_width: "pos < tree_width n (Suc h) \<Longrightarrow> pos * 2 < tree_width n h"
  by (simp add: tree_width_Suc)

lemma tree_height_le: "n \<le> 2 ^ 31 \<Longrightarrow> tree_height n 0 \<le> 31"
proof (rule ccontr)
  assume n: "n \<le> 2 ^ 31" and "\<not> tree_height n 0 \<le> 31"
  then have "31 \<le> tree_height n 0 - 1" "2 ^ (tree_height n 0 - 1) < n" using tree_height_bounds [of 0 n] by auto
  then have "(2::nat) ^ 31 \<le> 2 ^ (tree_height n 0 - 1)" by (intro power_increasing) simp_all
  then show False using n \<open>2 ^ (tree_height n 0 - 1) < n\<close> by linarith
qed

lemma calc_height_eq:
  "unat num \<le> 2 ^ 31 \<Longrightarrow> h \<le> 31 \<Longrightarrow> calc_height num (as_u32 h) = as_u32 (tree_height (unat num) h)"
proof (induction "unat num" h rule: tree_height.induct)
  case (1 h)
  have w: "1 < calc_tree_width num (as_u32 h) \<longleftrightarrow> 1 < tree_width (unat num) h"
    using calc_tree_width_eq [OF 1(2,3)] by (simp add: word_less_nat_alt)
  show ?case
  proof (cases "1 < tree_width (unat num) h")
    case True
    then have "2 ^ h < unat num" using tree_width_le_iff [of "unat num" h 1] by simp
    then have "(2::nat) ^ h < 2 ^ 31" using 1(2) by linarith
    then have "h + 1 \<le> 31" using power_less_imp_less_exp [of "2::nat" h 31] by simp
    then show ?thesis
      using 1(1) [OF True 1(2)] True w
      by (simp add: calc_height.simps [of num "as_u32 h"] tree_height.simps [of "unat num" h] add.commute)
  next
    case False
    then show ?thesis using w by (simp add: calc_height.simps [of num "as_u32 h"] tree_height.simps [of "unat num" h])
  qed
qed

lemma calc_height_0: "unat num \<le> 2 ^ 31 \<Longrightarrow> calc_height num 0 = as_u32 (tree_height (unat num) 0)"
  using calc_height_eq [of num 0] by simp

lemma level_step:
  assumes "unat num \<le> 2 ^ 31" "Suc h \<le> 31" "pos < tree_width (unat num) (Suc h)"
  shows "as_u32 (Suc h) \<noteq> 0" "as_u32 (Suc h) - 1 = as_u32 h" "as_u32 pos * 2 = as_u32 (pos * 2)"
    "as_u32 (pos * 2) + 1 = as_u32 (pos * 2 + 1)" "as_u32 (pos * 2 + 1) < calc_tree_width num (as_u32 h) \<longleftrightarrow> pos * 2 + 1 < tree_width (unat num) h"
    "pos * 2 < tree_width (unat num) h"
proof -
  have "unat (as_u32 (Suc h)) \<noteq> 0" using assms(2) by (subst unat_u32) simp_all
  then show "as_u32 (Suc h) \<noteq> 0" by auto
  show c: "pos * 2 < tree_width (unat num) h" by (rule child_width [OF assms(3)])
  have "tree_width (unat num) h \<le> unat num" by (simp add: tree_width_le_iff)
  then have "pos * 2 + 1 < 2 ^ 32" using c assms(1) by simp
  then show "as_u32 (pos * 2 + 1) < calc_tree_width num (as_u32 h) \<longleftrightarrow> pos * 2 + 1 < tree_width (unat num) h"
    using calc_tree_width_eq [OF assms(1), of h] assms(2) by (simp only: word_less_nat_alt unat_u32)
qed (simp_all add: algebra_simps)

lemma calc_hash_eq:
  assumes "unat num \<le> 2 ^ 31"
  shows "h \<le> 31 \<Longrightarrow> pos < tree_width (unat num) h \<Longrightarrow>
    calc_hash ph num (as_u32 h) (as_u32 pos) txids = node_hash ph (unat num) h pos txids"
proof (induction h arbitrary: pos)
  case 0
  then have "pos < 2 ^ 32" using assms by simp
  then show ?case by (subst calc_hash.simps) simp
next
  case (Suc h)
  note s = level_step [OF assms Suc.prems]
  have IH: "calc_hash ph num (as_u32 h) (as_u32 p) txids = node_hash ph (unat num) h p txids"
    if "p < tree_width (unat num) h" for p
    using Suc.IH [of p] Suc.prems(1) that by simp
  show ?case
    unfolding calc_hash.simps [of ph num "as_u32 (Suc h)"] s(2-5)
    by (simp only: s(1,6) IH if_False node_hash.simps Let_def cong: if_cong)
qed

lemma parent_of_match_eq:
  assumes "unat num \<le> 2 ^ 31" "h \<le> 31" "pos < tree_width (unat num) h"
  shows "parent_of_match num (as_u32 h) (as_u32 pos) matches = node_matched (unat num) h pos matches"
proof -
  have "pos * 2 ^ h < unat num" using assms(3) tree_width_le_iff [of "unat num" h pos] by (simp add: not_le [symmetric])
  then have lt: "pos * 2 ^ h < 2 ^ 31" using assms(1) by linarith
  have "(2::nat) ^ 31 = 2 ^ (31 - h) * 2 ^ h" using assms(2) by (simp flip: power_add)
  then have "pos * 2 ^ h < 2 ^ (31 - h) * 2 ^ h" using lt by (simp only:)
  then have "pos < 2 ^ (31 - h)" by (simp only: mult_less_cancel2)
  then have "(pos + 1) * 2 ^ h \<le> 2 ^ (31 - h) * 2 ^ h" by (intro mult_right_mono) simp_all
  then have above: "(pos + 1) * 2 ^ h < 2 ^ 32" using \<open>2 ^ 31 = 2 ^ (31 - h) * 2 ^ h\<close> by simp
  have "as_u32 pos + 1 = as_u32 (pos + 1)" by simp
  then show ?thesis
    using unat_push_u32 [of pos h] unat_push_u32 [OF above] lt assms(2)
    by (simp add: parent_of_match_def node_matched_def Let_def del: of_nat_add of_nat_Suc)
qed

lemma build_eq:
  assumes "unat num \<le> 2 ^ 31"
  shows "h \<le> 31 \<Longrightarrow> pos < tree_width (unat num) h \<Longrightarrow>
    traverse_and_build ph num (as_u32 h) (as_u32 pos) txids matches = build_tree ph (unat num) h pos txids matches"
proof (induction h arbitrary: pos)
  case 0
  then show ?case
    using calc_hash_eq [OF assms, of 0 pos ph txids] parent_of_match_eq [OF assms, of 0 pos matches]
    by (subst traverse_and_build.simps) (simp add: Let_def)
next
  case (Suc h)
  note s = level_step [OF assms Suc.prems]
  note m = parent_of_match_eq [OF assms Suc.prems, of matches] and c = calc_hash_eq [OF assms Suc.prems, of ph txids]
  have IH: "traverse_and_build ph num (as_u32 h) (as_u32 p) txids matches = build_tree ph (unat num) h p txids matches"
    if "p < tree_width (unat num) h" for p
    using Suc.IH [of p] Suc.prems(1) that by simp
  show ?case
    unfolding traverse_and_build.simps [of ph num "as_u32 (Suc h)"] s(2-5) m c
    by (simp only: s(1,6) IH if_False simp_thms build_tree.simps Let_def cong: if_cong)
      (simp split: prod.splits)
qed

lemma extract_eq:
  assumes "unat (num_transactions t) \<le> 2 ^ 31"
  shows "h \<le> 31 \<Longrightarrow> pos < tree_width (unat (num_transactions t)) h \<Longrightarrow>
    traverse_and_extract ph t (as_u32 h) (as_u32 pos) s = extract_tree ph t h pos s"
proof (induction h arbitrary: pos s)
  case 0
  obtain bu hu ms ixs where s: "s = (bu, hu, ms, ixs)" by (cases s)
  show ?case unfolding s by (subst traverse_and_extract.simps) (simp add: Let_def)
next
  case (Suc h)
  obtain bu hu ms ixs where st: "s = (bu, hu, ms, ixs)" by (cases s)
  note s = level_step [OF assms Suc.prems]
  have IH: "traverse_and_extract ph t (as_u32 h) (as_u32 p) s' = extract_tree ph t h p s'"
    if "p < tree_width (unat (num_transactions t)) h" for p s'
    using Suc.IH [of p s'] Suc.prems(1) that by simp
  show ?case
    unfolding st traverse_and_extract.simps [of ph t "as_u32 (Suc h)"] s(2-5)
    by (simp only: s(1,6) IH extract_tree.simps Let_def simp_thms if_False cong: if_cong)
qed

lemma from_txids_tree:
  assumes "0 < length txids" "length txids \<le> 2 ^ 31"
  shows "from_txids ph txids matches =
    (if length txids \<noteq> length matches then None
     else case build_tree ph (length txids) (tree_height (length txids) 0) 0 txids matches of
       (bs, hs) \<Rightarrow> Some \<lparr>num_transactions = as_u32 (length txids), pmt_bits = bs, pmt_hashes = hs\<rparr>)"
proof -
  have n: "unat (as_u32 (length txids)) = length txids" using assms(2) by simp
  have "0 < tree_width (length txids) (tree_height (length txids) 0)" using tree_height_width [OF assms(1)] by simp
  then show ?thesis
    using build_eq [of "as_u32 (length txids)" "tree_height (length txids) 0" 0 ph txids matches]
      calc_height_0 [of "as_u32 (length txids)"] tree_height_le [OF assms(2)] assms n
    by (cases "length txids = length matches") (auto simp: from_txids_def Let_def)
qed

section \<open>Proofs of inclusion are sound\<close>

fun hashed_pairs :: "('h \<Rightarrow> 'h \<Rightarrow> 'h) \<Rightarrow> 'h partial_merkle_tree \<Rightarrow> nat \<Rightarrow> nat \<Rightarrow> 'h extract_state \<Rightarrow> ('h \<times> 'h) list" where
  "hashed_pairs ph t 0 pos s = []"
| "hashed_pairs ph t (Suc height) pos (bits_used, hash_used, matches, indexes) =
     (if pmt_bits t ! bits_used then
        let s0 = (bits_used + 1, hash_used, matches, indexes) in
        case extract_tree ph t height (pos * 2) s0 of
          Err e \<Rightarrow> []
        | Ok (left, s1) \<Rightarrow>
            hashed_pairs ph t height (pos * 2) s0 @
            (if pos * 2 + 1 < tree_width (unat (num_transactions t)) height then
               (case extract_tree ph t height (pos * 2 + 1) s1 of
                  Err e \<Rightarrow> []
                | Ok (right, s2) \<Rightarrow> hashed_pairs ph t height (pos * 2 + 1) s1 @ [(left, right)])
             else [(left, left)])
      else [])"

definition tree_pair :: "('h \<Rightarrow> 'h \<Rightarrow> 'h) \<Rightarrow> nat \<Rightarrow> 'h list \<Rightarrow> nat \<Rightarrow> nat \<Rightarrow> 'h \<times> 'h" where
  "tree_pair ph n txids h pos =
     (let left = node_hash ph n h (pos * 2) txids in
      (left, if pos * 2 + 1 < tree_width n h then node_hash ph n h (pos * 2 + 1) txids else left))"

definition no_collision :: "('h \<Rightarrow> 'h \<Rightarrow> 'h) \<Rightarrow> nat \<Rightarrow> 'h list \<Rightarrow> ('h \<times> 'h) list \<Rightarrow> bool" where
  "no_collision ph n txids ps \<longleftrightarrow>
     (\<forall>p\<in>set ps. \<forall>h pos. pos < tree_width n (Suc h) \<longrightarrow> case_prod ph p = case_prod ph (tree_pair ph n txids h pos) \<longrightarrow> p = tree_pair ph n txids h pos)"

lemma no_collisionD:
  assumes "no_collision ph n txids ps" and "(a, b) \<in> set ps" and "ph a b = node_hash ph n (Suc h) pos txids"
    and "pos < tree_width n (Suc h)"
  shows "(a, b) = tree_pair ph n txids h pos"
proof -
  have "node_hash ph n (Suc h) pos txids = case_prod ph (tree_pair ph n txids h pos)"
    by (simp add: tree_pair_def Let_def)
  with assms(2-4) show ?thesis
    using assms(1) [unfolded no_collision_def, THEN bspec, of "(a, b)"] by simp
qed

lemma no_collision_append [simp]:
  "no_collision ph n txids (ps @ qs) \<longleftrightarrow> no_collision ph n txids ps \<and> no_collision ph n txids qs"
  by (auto simp: no_collision_def)

definition node_range :: "nat \<Rightarrow> nat \<Rightarrow> nat \<Rightarrow> nat set" where
  "node_range n h pos = {pos * 2 ^ h..<min ((pos + 1) * 2 ^ h) n}"

lemma node_range_Suc:
  "node_range n h (pos * 2) \<subseteq> node_range n (Suc h) pos" "node_range n h (pos * 2 + 1) \<subseteq> node_range n (Suc h) pos"
  by (auto simp: node_range_def algebra_simps)

lemma node_range_less: "i \<in> node_range n h (pos * 2) \<Longrightarrow> j \<in> node_range n h (pos * 2 + 1) \<Longrightarrow> i < j"
  by (auto simp: node_range_def algebra_simps)

lemma extract_tree_SucD:
  assumes "extract_tree ph t (Suc h) pos (bu, hu, ms, ixs) = Ok (r, s)" and "pmt_bits t ! bu"
  shows "\<exists>left s1. extract_tree ph t h (pos * 2) (bu + 1, hu, ms, ixs) = Ok (left, s1) \<and>
    (if pos * 2 + 1 < tree_width (unat (num_transactions t)) h
     then \<exists>right. extract_tree ph t h (pos * 2 + 1) s1 = Ok (right, s) \<and> r = ph left right
     else r = ph left left \<and> s = s1)"
proof (cases "extract_tree ph t h (pos * 2) (bu + 1, hu, ms, ixs)")
  case (Inl e)
  then show ?thesis using assms by (simp split: if_splits)
next
  case (Inr x)
  obtain left s1 where x: "x = (left, s1)" by (cases x)
  show ?thesis
  proof (cases "extract_tree ph t h (pos * 2 + 1) s1")
    case (Inl e)
    then show ?thesis using assms Inr x by (simp split: if_splits)
  next
    case inr2: (Inr y)
    obtain right s2 where "y = (right, s2)" by (cases y)
    then show ?thesis using assms Inr inr2 x by (simp split: if_splits)
  qed
qed

text \<open>What a traversal appends, if the hash it returns is the hash of the node in the full tree.\<close>

lemma extract_tree_sound:
  assumes "extract_tree ph t h pos (bu, hu, ms, ixs) = Ok (r, bu', hu', ms', ixs')"
    and "n = unat (num_transactions t)" and "pos < tree_width n h"
    and "r = node_hash ph n h pos txids" and "no_collision ph n txids (hashed_pairs ph t h pos (bu, hu, ms, ixs))"
  shows "\<exists>new. ms' = ms @ map (nth txids) new \<and> ixs' = ixs @ map as_u32 new \<and>
    sorted_wrt (<) new \<and> set new \<subseteq> node_range n h pos"
  using assms
proof (induction h arbitrary: pos bu hu ms ixs r bu' hu' ms' ixs')
  case 0
  show ?case
  proof (cases "pmt_bits t ! bu")
    case True
    then show ?thesis
      using 0 by (intro exI [of _ "[pos]"]) (auto simp: Let_def node_range_def split: if_splits)
  next
    case False
    then show ?thesis
      using 0 by (intro exI [of _ "[]"]) (auto simp: Let_def split: if_splits)
  qed
next
  case (Suc h)
  show ?case
  proof (cases "pmt_bits t ! bu")
    case False
    then show ?thesis
      using Suc.prems(1) by (intro exI [of _ "[]"]) (auto split: if_splits)
  next
    case True
    obtain left s1 where step: "extract_tree ph t h (pos * 2) (bu + 1, hu, ms, ixs) = Ok (left, s1)"
      "if pos * 2 + 1 < tree_width (unat (num_transactions t)) h
       then \<exists>right. extract_tree ph t h (pos * 2 + 1) s1 = Ok (right, bu', hu', ms', ixs') \<and> r = ph left right
       else r = ph left left \<and> (bu', hu', ms', ixs') = s1"
      using extract_tree_SucD [OF Suc.prems(1) True] by blast
    obtain b1 h1 m1 i1 where s1: "s1 = (b1, h1, m1, i1)" by (cases s1)
    note l = step(1) [unfolded s1]
    note bit = \<open>pmt_bits t ! bu\<close>
    define two where "two \<longleftrightarrow> pos * 2 + 1 < tree_width n h"
    show ?thesis
    proof (cases two)
      case True
      then obtain right where r: "r = ph left right"
        "extract_tree ph t h (pos * 2 + 1) (b1, h1, m1, i1) = Ok (right, bu', hu', ms', ixs')"
        using step(2) unfolding two_def Suc.prems(2) s1 by (simp only: if_True) blast
      have pairs: "hashed_pairs ph t (Suc h) pos (bu, hu, ms, ixs) =
          hashed_pairs ph t h (pos * 2) (bu + 1, hu, ms, ixs) @ hashed_pairs ph t h (pos * 2 + 1) (b1, h1, m1, i1) @ [(left, right)]"
        using bit l r(2) True Suc.prems(2) by (simp add: two_def)
      note nc = Suc.prems(5) [unfolded pairs]
      then have nc1: "no_collision ph n txids (hashed_pairs ph t h (pos * 2) (bu + 1, hu, ms, ixs))"
        and nc2: "no_collision ph n txids (hashed_pairs ph t h (pos * 2 + 1) (b1, h1, m1, i1))" by simp_all
      have "(left, right) = tree_pair ph n txids h pos"
        using no_collisionD [OF nc] Suc.prems(3,4) r(1) by simp
      then have "left = node_hash ph n h (pos * 2) txids" "right = node_hash ph n h (pos * 2 + 1) txids"
        using True by (simp_all add: tree_pair_def two_def)
      with Suc.IH [OF l Suc.prems(2) child_width [OF Suc.prems(3)] _ nc1]
        Suc.IH [OF r(2) Suc.prems(2) _ _ nc2] True
      obtain n1 n2 where lists: "m1 = ms @ map (nth txids) n1" "i1 = ixs @ map as_u32 n1"
        "ms' = m1 @ map (nth txids) n2" "ixs' = i1 @ map as_u32 n2"
        and sorted: "sorted_wrt (<) n1" "sorted_wrt (<) n2"
        and range: "set n1 \<subseteq> node_range n h (pos * 2)" "set n2 \<subseteq> node_range n h (pos * 2 + 1)"
        unfolding two_def by blast
      have "sorted_wrt (<) (n1 @ n2)"
        using sorted range node_range_less [of _ n h pos] by (simp add: sorted_wrt_append) blast
      moreover have "set (n1 @ n2) \<subseteq> node_range n (Suc h) pos"
        using range node_range_Suc [of n h pos] by auto
      moreover have "ms' = ms @ map (nth txids) (n1 @ n2)" "ixs' = ixs @ map as_u32 (n1 @ n2)"
        using lists by simp_all
      ultimately show ?thesis by blast
    next
      case False
      then have r: "r = ph left left" "bu' = b1" "hu' = h1" "ms' = m1" "ixs' = i1"
        using step(2) unfolding two_def Suc.prems(2) s1 by (simp_all only: if_False prod.inject)
      have pairs: "hashed_pairs ph t (Suc h) pos (bu, hu, ms, ixs) =
          hashed_pairs ph t h (pos * 2) (bu + 1, hu, ms, ixs) @ [(left, left)]"
        using bit l False Suc.prems(2) by (simp add: two_def)
      note nc = Suc.prems(5) [unfolded pairs]
      then have nc1: "no_collision ph n txids (hashed_pairs ph t h (pos * 2) (bu + 1, hu, ms, ixs))" by simp
      have "(left, left) = tree_pair ph n txids h pos"
        using no_collisionD [OF nc] Suc.prems(3,4) r(1) by simp
      then have "left = node_hash ph n h (pos * 2) txids"
        by (simp add: tree_pair_def Let_def)
      with Suc.IH [OF l Suc.prems(2) child_width [OF Suc.prems(3)] _ nc1]
      show ?thesis using r(4,5) node_range_Suc(1) [of n h pos] by auto
    qed
  qed
qed


lemma extract_run:
  assumes "num_transactions t \<noteq> 0" "num_transactions t \<le> MAX_BLOCK_WEIGHT div MIN_TRANSACTION_WEIGHT"
  shows "traverse_and_extract ph t (calc_height (num_transactions t) 0) 0 s =
    extract_tree ph t (tree_height (unat (num_transactions t)) 0) 0 s"
proof -
  have n: "unat (num_transactions t) \<le> 2 ^ 31" "0 < unat (num_transactions t)"
    using assms by (simp_all add: MAX_BLOCK_WEIGHT_def MIN_TRANSACTION_WEIGHT_def word_le_nat_alt unat_gt_0)
  then show ?thesis
    using extract_eq [OF n(1), of "tree_height (unat (num_transactions t)) 0" 0 ph s]
    by (simp add: calc_height_0 tree_height_le tree_height_width)
qed

lemma extract_matches_OkD:
  assumes "extract_matches ph t = Ok (root, ms, ixs)"
  shows "num_transactions t \<noteq> 0"
    and "\<exists>bu hu. extract_tree ph t (tree_height (unat (num_transactions t)) 0) 0 (0, 0, [], []) =
      Ok (root, bu, hu, ms, ixs)"
proof -
  obtain bu hu where t: "num_transactions t \<noteq> 0" "num_transactions t \<le> MAX_BLOCK_WEIGHT div MIN_TRANSACTION_WEIGHT"
    "traverse_and_extract ph t (calc_height (num_transactions t) 0) 0 (0, 0, [], []) = Ok (root, bu, hu, ms, ixs)"
    using assms by (auto simp: extract_matches_def not_less split: if_splits sum.splits)
  then show "num_transactions t \<noteq> 0" by simp
  show "\<exists>bu hu. extract_tree ph t (tree_height (unat (num_transactions t)) 0) 0 (0, 0, [], []) = Ok (root, bu, hu, ms, ixs)"
    using t(3) extract_run [OF t(1,2)] by auto
qed

section \<open>Proofs of inclusion are complete\<close>

definition distinct_siblings :: "('h \<Rightarrow> 'h \<Rightarrow> 'h) \<Rightarrow> 'h list \<Rightarrow> bool" where
  "distinct_siblings ph txids \<longleftrightarrow>
     (let n = length txids in
      \<forall>h<tree_height n 0. \<forall>pos<n. pos * 2 + 1 < tree_width n h \<longrightarrow>
        node_hash ph n h (pos * 2) txids \<noteq> node_hash ph n h (pos * 2 + 1) txids)"

definition node_matches :: "nat \<Rightarrow> nat \<Rightarrow> nat \<Rightarrow> bool list \<Rightarrow> nat list" where
  "node_matches num h pos matches = filter (nth matches) [pos * 2 ^ h..<min ((pos + 1) * 2 ^ h) num]"

lemma node_matched_iff: "node_matched num h pos matches \<longleftrightarrow> node_matches num h pos matches \<noteq> []"
  by (auto simp: node_matched_def node_matches_def list_ex_iff filter_empty_conv)

lemma upt_min_split: "a \<le> b \<Longrightarrow> b \<le> c \<Longrightarrow> [a..<min c n] = [a..<min b n] @ [b..<min c n]"
  for a :: nat
proof (cases "b \<le> n")
  case True
  assume "a \<le> b" "b \<le> c"
  then have "[a..<b + (min c n - b)] = [a..<b] @ [b..<b + (min c n - b)]"
    using upt_add_eq_append [of a b "min c n - b"] by blast
  with True \<open>b \<le> c\<close> show ?thesis by (simp add: min_def)
next
  case False
  assume "a \<le> b" "b \<le> c"
  with False show ?thesis by (simp add: min_def)
qed

lemma node_matches_Suc:
  "node_matches num (Suc h) pos matches =
   node_matches num h (pos * 2) matches @ node_matches num h (pos * 2 + 1) matches"
proof -
  have "[pos * 2 ^ Suc h..<min ((pos + 1) * 2 ^ Suc h) num] =
      [pos * 2 * 2 ^ h..<min ((pos * 2 + 1) * 2 ^ h) num] @
      [(pos * 2 + 1) * 2 ^ h..<min ((pos * 2 + 1 + 1) * 2 ^ h) num]"
    using upt_min_split [of "pos * 2 * 2 ^ h" "(pos * 2 + 1) * 2 ^ h" "(pos * 2 + 1 + 1) * 2 ^ h" num]
    by (simp add: algebra_simps)
  then show ?thesis unfolding node_matches_def by simp
qed

lemma node_matches_out: "\<not> pos < tree_width num h \<Longrightarrow> node_matches num h pos matches = []"
  using tree_width_le_iff [of num h pos] by (simp add: node_matches_def not_less)

lemma node_matches_leaf:
  "pos < num \<Longrightarrow> node_matches num 0 pos matches = (if matches ! pos then [pos] else [])"
  by (simp add: node_matches_def min_def)

lemma drop_ConsD: "drop n xs = y # ys \<Longrightarrow> n < length xs \<and> xs ! n = y \<and> drop (n + 1) xs = ys"
  by (metis Cons_nth_drop_Suc Suc_eq_plus1 drop_eq_Nil2 leI list.distinct(1) list.inject)

lemma drop_appendD: "drop n xs = ys @ zs \<Longrightarrow> drop (n + length ys) xs = zs"
  by (metis add.commute append_eq_conv_conj drop_drop)

lemma extract_build:
  assumes "build_tree ph n h pos txids matches = (bs, hs)"
    and "drop bu (pmt_bits t) = bs @ rb" and "drop hu (pmt_hashes t) = hs @ rh"
    and "n = unat (num_transactions t)" and "pos < tree_width n h"
    and "\<forall>k<h. \<forall>p. p * 2 + 1 < tree_width n k \<longrightarrow>
      node_hash ph n k (p * 2) txids \<noteq> node_hash ph n k (p * 2 + 1) txids"
  shows "extract_tree ph t h pos (bu, hu, ms, ixs) =
    Ok (node_hash ph n h pos txids, bu + length bs, hu + length hs,
      ms @ map (nth txids) (node_matches n h pos matches), ixs @ map as_u32 (node_matches n h pos matches))"
  using assms
proof (induction h arbitrary: pos bs hs bu hu rb rh ms ixs)
  case 0
  then have "pos < n" using tree_width_le_iff [of n 0 pos] by (simp add: not_le [symmetric])
  with 0 show ?case
    by (auto simp: node_matched_iff node_matches_leaf Let_def dest!: drop_ConsD)
next
  case (Suc h)
  have sib: "\<forall>k<h. \<forall>p. p * 2 + 1 < tree_width n k \<longrightarrow>
      node_hash ph n k (p * 2) txids \<noteq> node_hash ph n k (p * 2 + 1) txids"
    using Suc.prems(6) by simp
  show ?case
  proof (cases "node_matched n (Suc h) pos matches")
    case False
    then have "bs = [False]" "hs = [node_hash ph n (Suc h) pos txids]"
      using Suc.prems(1) by simp_all
    moreover have "bu < length (pmt_bits t) \<and> \<not> pmt_bits t ! bu" "hu < length (pmt_hashes t)"
        "pmt_hashes t ! hu = node_hash ph n (Suc h) pos txids"
      using Suc.prems(2,3) drop_ConsD [of bu "pmt_bits t" False rb]
        drop_ConsD [of hu "pmt_hashes t" "node_hash ph n (Suc h) pos txids" rh] calculation by simp_all
    moreover have "node_matches n (Suc h) pos matches = []" using False by (simp only: node_matched_iff not_not)
    ultimately show ?thesis by (simp del: node_hash.simps)
  next
    case match: True
    obtain bl hl where l: "build_tree ph n h (pos * 2) txids matches = (bl, hl)"
      by (rule prod.exhaust)
    show ?thesis
    proof (cases "pos * 2 + 1 < tree_width n h")
      case True
      obtain br hr where r: "build_tree ph n h (pos * 2 + 1) txids matches = (br, hr)"
        by (rule prod.exhaust)
      have bs: "bs = True # bl @ br" "hs = hl @ hr" using Suc.prems(1) match l r True by auto
      have b: "bu < length (pmt_bits t)" "pmt_bits t ! bu" "drop (bu + 1) (pmt_bits t) = bl @ br @ rb"
        using Suc.prems(2) drop_ConsD [of bu "pmt_bits t" True "bl @ br @ rb"] by (simp_all add: bs)
      have hd: "drop hu (pmt_hashes t) = hl @ hr @ rh" using Suc.prems(3) by (simp add: bs)
      note L = Suc.IH [OF l b(3) hd Suc.prems(4) child_width [OF Suc.prems(5)] sib]
      note R = Suc.IH [OF r drop_appendD [OF b(3)] drop_appendD [OF hd] Suc.prems(4) True sib]
      have "node_hash ph n h (pos * 2) txids \<noteq> node_hash ph n h (pos * 2 + 1) txids"
        using Suc.prems(6) True by blast
      then show ?thesis
        using b True unfolding bs by (simp add: L [simplified] R [simplified] Suc.prems(4) [symmetric] node_matches_Suc Let_def)
    next
      case False
      have bs: "bs = True # bl" "hs = hl" using Suc.prems(1) match l False by auto
      have b: "bu < length (pmt_bits t)" "pmt_bits t ! bu" "drop (bu + 1) (pmt_bits t) = bl @ rb"
        using Suc.prems(2) drop_ConsD [of bu "pmt_bits t" True "bl @ rb"] by (simp_all add: bs)
      note L = Suc.IH [OF l b(3) Suc.prems(3) [unfolded bs] Suc.prems(4) child_width [OF Suc.prems(5)] sib]
      show ?thesis
        using b False unfolding bs by (simp add: L [simplified] Suc.prems(4) [symmetric] node_matches_Suc node_matches_out Let_def)
    qed
  qed
qed

lemma build_sizes:
  assumes "build_tree ph n h pos txids matches = (bs, hs)" and "pos < tree_width n h"
  shows "length hs \<le> length bs \<and> length hs \<le> min ((pos + 1) * 2 ^ h) n - pos * 2 ^ h \<and>
    length bs < 2 ^ (h + 1)"
  using assms
proof (induction h arbitrary: pos bs hs)
  case 0
  then show ?case using tree_width_le_iff [of n 0 pos] by (auto simp: not_le [symmetric])
next
  case (Suc h)
  have n: "pos * 2 ^ Suc h < n"
    using Suc.prems(2) tree_width_le_iff [of n "Suc h" pos] by (simp add: not_le [symmetric])
  show ?case
  proof (cases "node_matched n (Suc h) pos matches")
    case False
    then have "length bs = 1" "length hs = 1" using Suc.prems(1) by auto
    moreover have "(1::nat) < 2 ^ (Suc h + 1)" by (rule one_less_power) simp_all
    moreover have "pos * 2 ^ Suc h < (pos + 1) * 2 ^ Suc h" by simp
    ultimately show ?thesis using n by linarith
  next
    case match: True
    obtain bl hl where l: "build_tree ph n h (pos * 2) txids matches = (bl, hl)"
      by (rule prod.exhaust)
    note L = Suc.IH [OF l child_width [OF Suc.prems(2)]]
    show ?thesis
    proof (cases "pos * 2 + 1 < tree_width n h")
      case True
      obtain br hr where r: "build_tree ph n h (pos * 2 + 1) txids matches = (br, hr)"
        by (rule prod.exhaust)
      have "bs = True # bl @ br" "hs = hl @ hr" using Suc.prems(1) match l r True by auto
      with L Suc.IH [OF r True] n show ?thesis
        by (auto simp: algebra_simps min_def split: if_splits)
    next
      case False
      have "bs = True # bl" "hs = hl" using Suc.prems(1) match l False by auto
      with L n show ?thesis by (auto simp: algebra_simps min_def split: if_splits)
    qed
  qed
qed

text \<open>
  Extracting from a tree that \<open>from_txids\<close> built, where \<open>pad\<close> is what decoding may append to
  the flag bits to fill the last byte.
\<close>

lemma extract_from_txids:
  assumes n: "0 < length txids" "length txids \<le> 16666" "length matches = length txids"
    and sib: "distinct_siblings ph txids"
    and pad: "(length bs + length pad + 7) div 8 = (length bs + 7) div 8"
    and build: "from_txids ph txids matches = Some \<lparr>num_transactions = num, pmt_bits = bs, pmt_hashes = hs\<rparr>"
  shows "extract_matches ph \<lparr>num_transactions = num, pmt_bits = bs @ pad, pmt_hashes = hs\<rparr> =
    Ok (the (calculate_root ph txids), map (nth txids) (filter (nth matches) [0..<length txids]),
      map as_u32 (filter (nth matches) [0..<length txids]))"
proof -
  define n where "n = length txids"
  define h where "h = tree_height n 0"
  have n_pos: "0 < n" "n \<le> 16666" using n by (simp_all add: n_def)
  have num: "unat (as_u32 k) = k" if "k \<le> 100000" for k
    using that by (simp add: unsigned_of_nat take_bit_eq_mod)
  have num_eq: "num = as_u32 n" "unat num = n"
    and built: "build_tree ph n h 0 txids matches = (bs, hs)"
    using build n num [of n] n_pos by (auto simp: from_txids_tree n_def h_def split: prod.splits if_splits)
  have width: "0 < tree_width n h" using tree_height_width [OF n_pos(1)] by (simp add: h_def)
  note sizes = build_sizes [OF built width]
  have h_le: "2 ^ h < 2 * n"
    using tree_height_bounds [of 0 n] n_pos by (cases h) (auto simp: h_def)
  have lens: "length hs \<le> n" "length hs \<le> length bs" "length bs < 66664" "length pad < 8"
    using sizes h_le n_pos pad by auto
  have range: "node_matches n h 0 matches = filter (nth matches) [0..<n]"
    using tree_width_le_iff [of n h 1] tree_height_width [OF n_pos(1)]
    by (simp add: node_matches_def h_def min_absorb2)
  have "\<forall>k<h. \<forall>p. p * 2 + 1 < tree_width n k \<longrightarrow> node_hash ph n k (p * 2) txids \<noteq> node_hash ph n k (p * 2 + 1) txids"
  proof (intro allI impI)
    fix k p assume k: "k < h" and p: "p * 2 + 1 < tree_width n k"
    have "tree_width n k \<le> n" by (simp add: tree_width_le_iff)
    with k p sib show "node_hash ph n k (p * 2) txids \<noteq> node_hash ph n k (p * 2 + 1) txids"
      unfolding distinct_siblings_def Let_def n_def [symmetric] h_def [symmetric] by auto
  qed
  note ext = extract_build [where t = "\<lparr>num_transactions = num, pmt_bits = bs @ pad, pmt_hashes = hs\<rparr>" and bu = 0 and hu = 0
      and ms = "[]" and ixs = "[]" and rb = pad and rh = "[]", OF built _ _ _ width this]
  have root: "node_hash ph n h 0 txids = the (calculate_root ph txids)"
    using calculate_root_hash [of txids ph] n(1) by (simp add: n_def h_def)
  have "num \<noteq> 0" using num_eq(2) n_pos by auto
  moreover have "\<not> MAX_BLOCK_WEIGHT div MIN_TRANSACTION_WEIGHT < num"
    using num_eq(2) n_pos by (simp add: MAX_BLOCK_WEIGHT_def MIN_TRANSACTION_WEIGHT_def word_less_nat_alt)
  moreover have "\<not> num < as_u32 (length hs)" using lens num_eq(2) n_pos num [of "length hs"] by (simp add: word_less_nat_alt)
  moreover have "unat (as_u32 (length bs + length pad)) = length bs + length pad" using lens by (intro num) simp
  moreover have "unat (as_u32 (length hs)) = length hs" using lens n_pos by (intro num) simp
  ultimately show ?thesis
    using ext num_eq(2) lens pad range root
      extract_run [of "\<lparr>num_transactions = num, pmt_bits = bs @ pad, pmt_hashes = hs\<rparr>" ph]
    by (simp add: extract_matches_def not_less n_def [symmetric] h_def [symmetric])
qed

section \<open>The three computations of the root agree\<close>

lemma calc_hash_top:
  assumes "length hs \<le> 2 ^ 31"
  shows "hs \<noteq> [] \<Longrightarrow> calc_hash ph (as_u32 (length hs)) (calc_height (as_u32 (length hs)) 0) 0 hs =
    node_hash ph (length hs) (tree_height (length hs) 0) 0 hs"
proof -
  assume "hs \<noteq> []"
  then have "0 < tree_width (length hs) (tree_height (length hs) 0)" using tree_height_width [of "length hs"] by simp
  then show ?thesis
    using calc_hash_eq [of "as_u32 (length hs)" "tree_height (length hs) 0" 0 ph hs] assms tree_height_le [OF assms]
    by (simp add: calc_height_0)
qed

text \<open>
  C22: computing a Merkle root in place, computing it into new vectors, and hashing the nodes of the
  tree from the top, in \<open>u32\<close> heights and positions as the partial Merkle tree does, give the same
  root, and none only for an empty list. Up to \<open>2 ^ 31\<close> leaves the \<open>u32\<close> sums and shifts of the
  third do not wrap.
\<close>

theorem merkle_roots_agree:
  assumes "length hs \<le> 2 ^ 31"
  shows "calculate_root_inline ph hs = calculate_root ph hs \<and>
    calculate_root ph hs =
      (if hs = [] then None
       else Some (calc_hash ph (as_u32 (length hs)) (calc_height (as_u32 (length hs)) 0) 0 hs))"
  using calculate_root_hash [of hs ph] calc_hash_top [OF assms, of ph]
  by (simp add: calculate_root_inline_eq) (simp add: calculate_root_def)

theorem merkle_roots_agree_witness:
  "calculate_root_inline (\<lambda>a b. 10 * a + b) [1, 2, 3 :: nat] = Some 153 \<and>
   calc_hash (\<lambda>a b. 10 * a + b) 3 (calc_height 3 0) 0 [1, 2, 3 :: nat] = 153"
proof -
  have "calculate_root (\<lambda>a b. 10 * a + b) [1, 2, 3 :: nat] = Some 153" by code_simp
  then show ?thesis using merkle_roots_agree [of "[1, 2, 3 :: nat]" "\<lambda>a b. 10 * a + b"] by simp
qed

end
