(* ===== verification/Merkle_Block.thy ===== *)
theory Merkle_Block
  imports Merkle
begin

text \<open>
  The \<open>merkleblock\<close> message of \<open>src/dash/src/merkle_tree/block.rs\<close>: a block header with a
  partial Merkle tree over hashes of 32 bytes, its consensus encoding with the flag bits packed
  eight to a byte, and the check of the extracted root against the header. The parameter \<open>H\<close> is
  the double SHA-256 of the hash crate.
\<close>

section \<open>Operations\<close>

definition parent_hash :: "(u8 list \<Rightarrow> u8 list) \<Rightarrow> u8 list \<Rightarrow> u8 list \<Rightarrow> u8 list" where
  "parent_hash H left right = H (array_encode left @ array_encode right)"

record merkle_block =
  mb_header :: header
  mb_txn :: "u8 list partial_merkle_tree"

definition from_header_txids_with_predicate ::
    "(u8 list \<Rightarrow> u8 list) \<Rightarrow> header \<Rightarrow> u8 list list \<Rightarrow> (u8 list \<Rightarrow> bool) \<Rightarrow> merkle_block option" where
  "from_header_txids_with_predicate H header block_txids match_txids =
     (let matches = map match_txids block_txids in
      case from_txids (parent_hash H) block_txids matches of
        None \<Rightarrow> None
      | Some pmt \<Rightarrow> Some \<lparr>mb_header = header, mb_txn = pmt\<rparr>)"

definition mb_extract_matches ::
    "(u8 list \<Rightarrow> u8 list) \<Rightarrow> merkle_block \<Rightarrow> (u8 list list \<times> u32 list, merkle_block_error) result" where
  "mb_extract_matches H mb =
     (case extract_matches (parent_hash H) (mb_txn mb) of
        Err e \<Rightarrow> Err e
      | Ok (root, matches, indexes) \<Rightarrow>
          if root = merkle_root (mb_header mb) then Ok (matches, indexes) else Err MerkleRootMismatch)"

definition pack_step :: "bool list \<Rightarrow> nat \<Rightarrow> u8 list \<Rightarrow> u8 list" where
  "pack_step bs p bytes = bytes[p div 8 := bytes ! (p div 8) OR push_bit (p mod 8) (of_bool (bs ! p))]"

definition pack_bits :: "bool list \<Rightarrow> u8 list" where
  "pack_bits bs = fold (pack_step bs) [0..<length bs] (replicate ((length bs + 7) div 8) 0)"

definition unpack_bits :: "u8 list \<Rightarrow> bool list" where
  "unpack_bits bytes = map (\<lambda>p. bytes ! (p div 8) AND push_bit (p mod 8) 1 \<noteq> 0) [0..<length bytes * 8]"

definition pmt_encode :: "u8 list partial_merkle_tree \<Rightarrow> u8 list" where
  "pmt_encode t =
     emit_int (num_transactions t) @ vec_encode array_encode (pmt_hashes t) @
     consensus_encode_with_size (pack_bits (pmt_bits t))"

definition pmt_decode :: "u8 list partial_merkle_tree decoder" where
  "pmt_decode =
     dbind read_int (\<lambda>n. dbind (consensus_decode (vec_decode (read_slice 32))) (\<lambda>hashes.
     dbind (consensus_decode bytes_decode) (\<lambda>bytes.
       dret \<lparr>num_transactions = n, pmt_bits = unpack_bits bytes, pmt_hashes = hashes\<rparr>)))"

definition merkle_block_encode :: "merkle_block \<Rightarrow> u8 list" where
  "merkle_block_encode mb = header_encode (mb_header mb) @ pmt_encode (mb_txn mb)"

definition merkle_block_decode :: "merkle_block decoder" where
  "merkle_block_decode =
     dbind (consensus_decode header_decode) (\<lambda>h. dbind pmt_decode (\<lambda>t. dret \<lparr>mb_header = h, mb_txn = t\<rparr>))"

section \<open>The flag bits round trip up to padding\<close>

definition pad8 :: "bool list \<Rightarrow> bool list" where
  "pad8 bs = bs @ replicate (8 * ((length bs + 7) div 8) - length bs) False"

lemma length_pad8: "length (pad8 bs) = 8 * ((length bs + 7) div 8)"
  by (simp add: pad8_def)

lemma nth_pad8: "p < length (pad8 bs) \<Longrightarrow> pad8 bs ! p \<longleftrightarrow> p < length bs \<and> bs ! p"
  by (auto simp: pad8_def nth_append)

lemma length_pack_fold: "length (fold (pack_step bs) ps bytes) = length bytes"
  by (induction ps arbitrary: bytes) (simp_all add: pack_step_def)

lemma length_pack_bits [simp]: "length (pack_bits bs) = (length bs + 7) div 8"
  by (simp add: pack_bits_def length_pack_fold)

lemma bit_pack_fold:
  assumes "m \<le> length bs" and "k < (length bs + 7) div 8" and "j < 8"
  shows "bit (fold (pack_step bs) [0..<m] (replicate ((length bs + 7) div 8) 0) ! k) j \<longleftrightarrow>
    8 * k + j < m \<and> bs ! (8 * k + j)"
  using assms(1)
proof (induction m)
  case 0
  then show ?case using assms(2) by simp
next
  case (Suc m)
  let ?b = "fold (pack_step bs) [0..<m] (replicate ((length bs + 7) div 8) 0)"
  have IH: "bit (?b ! k) j \<longleftrightarrow> 8 * k + j < m \<and> bs ! (8 * k + j)" using Suc by simp
  have len: "length ?b = (length bs + 7) div 8" by (simp add: length_pack_fold)
  have step: "fold (pack_step bs) [0..<Suc m] (replicate ((length bs + 7) div 8) 0) = pack_step bs m ?b" by simp
  have "8 * k + j = m \<longleftrightarrow> m div 8 = k \<and> m mod 8 = j" using assms(3) by auto
  then show ?case
    using assms(2,3) IH len unfolding step
    by (cases "m div 8 = k") (auto simp: pack_step_def bit_or_iff bit_push_bit_iff bit_1_iff nth_list_update less_Suc_eq)
qed

lemma unpack_pack: "unpack_bits (pack_bits bs) = pad8 bs"
proof (rule nth_equalityI)
  show len: "length (unpack_bits (pack_bits bs)) = length (pad8 bs)"
    by (simp add: unpack_bits_def length_pad8 mult.commute)
  fix p
  assume p: "p < length (unpack_bits (pack_bits bs))"
  then have p': "p < (length bs + 7) div 8 * 8" by (simp add: unpack_bits_def)
  then have k: "p div 8 < (length bs + 7) div 8" by (simp add: div_less_iff_less_mult)
  have "unpack_bits (pack_bits bs) ! p \<longleftrightarrow> bit (pack_bits bs ! (p div 8)) (p mod 8)"
    using p' by (simp add: unpack_bits_def bit_iff_and_push_bit_not_eq_0)
  also have "\<dots> \<longleftrightarrow> 8 * (p div 8) + p mod 8 < length bs \<and> bs ! (8 * (p div 8) + p mod 8)"
    unfolding pack_bits_def by (rule bit_pack_fold [OF order_refl k]) simp
  also have "\<dots> \<longleftrightarrow> pad8 bs ! p" using p len by (simp add: nth_pad8)
  finally show "unpack_bits (pack_bits bs) ! p = pad8 bs ! p" .
qed

interpretation c_hash_vec: canonical_codec "vec_encode array_encode" "vec_decode (read_slice 32)"
  "vec_wf (\<lambda>h. length h = 32)"
  by (rule c_hash.vec_canonical_codec)

interpretation c_hash_vec_limited: canonical_codec "vec_encode array_encode" "consensus_decode (vec_decode (read_slice 32))"
  "\<lambda>hs. vec_wf (\<lambda>h. length h = 32) hs \<and> length (vec_encode array_encode hs) \<le> MAX_VEC_SIZE"
  by (rule c_hash_vec.limited_canonical_codec)

interpretation c_bytes_limited: canonical_codec consensus_encode_with_size "consensus_decode bytes_decode"
  "\<lambda>bs. length bs < 2 ^ 64 \<and> length (consensus_encode_with_size bs) \<le> MAX_VEC_SIZE"
  by (rule c_bytes.limited_canonical_codec)

interpretation c_header_limited: canonical_codec header_encode "consensus_decode header_decode"
  "\<lambda>h. header_valid h \<and> length (header_encode h) \<le> MAX_VEC_SIZE"
  by (rule c_header.limited_canonical_codec)

lemma length_varint_le: "length (varint_encode n) \<le> 9"
  by (simp add: varint_encode_def emit_u8_def emit_int_def length_to_le_bytes Let_def)

lemma length_hash_vec: "list_all (\<lambda>h. length h = 32) hs \<Longrightarrow> length (vec_encode array_encode hs) \<le> 9 + 32 * length hs"
proof -
  have "list_all (\<lambda>h. length h = 32) hs \<Longrightarrow> length (concat (map array_encode hs)) = 32 * length hs"
    by (induction hs) (simp_all add: array_encode_def)
  then show "list_all (\<lambda>h. length h = 32) hs \<Longrightarrow> length (vec_encode array_encode hs) \<le> 9 + 32 * length hs"
    using length_varint_le by (simp add: vec_encode_def)
qed

definition pmt_valid :: "u8 list partial_merkle_tree \<Rightarrow> bool" where
  "pmt_valid t \<longleftrightarrow> list_all (\<lambda>h. length h = 32) (pmt_hashes t) \<and> length (pmt_hashes t) \<le> 100000 \<and>
     length (pmt_bits t) \<le> 1000000"

lemma pmt_decode_encode:
  assumes "pmt_valid t"
  shows "pmt_decode (pmt_encode t @ rest) = Ok (t\<lparr>pmt_bits := pad8 (pmt_bits t)\<rparr>, rest)"
proof -
  have "length (pmt_bits t) + 7 \<le> 1000007" using assms by (simp add: pmt_valid_def)
  from div_le_mono [OF this, of 8] have "length (consensus_encode_with_size (pack_bits (pmt_bits t))) \<le> MAX_VEC_SIZE"
    using length_varint_le [of "word_of_nat (length (pack_bits (pmt_bits t)))"]
    by (simp add: consensus_encode_with_size_def MAX_VEC_SIZE_def)
  moreover have "length (vec_encode array_encode (pmt_hashes t)) \<le> MAX_VEC_SIZE"
    using assms length_hash_vec [of "pmt_hashes t"] by (simp add: pmt_valid_def MAX_VEC_SIZE_def)
  moreover have "length (pack_bits (pmt_bits t)) < 2 ^ 64"
    using div_le_mono [OF \<open>length (pmt_bits t) + 7 \<le> 1000007\<close>, of 8] by simp
  ultimately show ?thesis
    using assms
    by (simp add: pmt_decode_def pmt_encode_def pmt_valid_def c_hash_vec_limited.bind_enc c_bytes_limited.bind_enc
        unpack_pack dret_def)
qed

section \<open>Soundness and completeness\<close>

lemma node_hash_32:
  assumes "\<And>data. length (H data) = 32" and "\<forall>x\<in>set txids. length x = 32" and "pos < tree_width (length txids) h"
  shows "length (node_hash (parent_hash H) (length txids) h pos txids) = 32"
  using assms(3)
proof (cases h)
  case 0
  then have "pos < length txids"
    using assms(3) tree_width_le_iff [of "length txids" 0 pos] by (simp add: not_le [symmetric])
  with 0 assms(2) show ?thesis by simp
qed (simp add: parent_hash_def Let_def assms(1))

lemma build_hashes_32:
  assumes "\<And>data. length (H data) = 32" and "\<forall>x\<in>set txids. length x = 32"
    and "build_tree (parent_hash H) (length txids) h pos txids matches = (bs, hs)"
    and "pos < tree_width (length txids) h"
  shows "list_all (\<lambda>x. length x = 32) hs"
  using assms(3,4)
proof (induction h arbitrary: pos bs hs)
  case 0
  then show ?case using node_hash_32 [OF assms(1,2) 0(2)] by auto
next
  case (Suc h)
  show ?case
  proof (cases "node_matched (length txids) (Suc h) pos matches")
    case False
    then show ?thesis using Suc.prems node_hash_32 [OF assms(1,2) Suc.prems(2)] by auto
  next
    case True
    then show ?thesis
      using Suc.prems(1) Suc.IH [OF _ child_width [OF Suc.prems(2)]] Suc.IH [where pos = "pos * 2 + 1"]
      by (auto split: prod.splits if_splits)
  qed
qed

text \<open>
  C19: a Merkle block that passes the check against its header lists transactions of the block, in
  block order and at the positions it names, for every list of transaction ids of the announced
  length whose Merkle root is the one of the header; the only way out is a collision of the hash
  function between a node of that list's tree and a pair of hashes the check itself hashed.
\<close>

theorem merkle_block_sound:
  assumes "mb_extract_matches H mb = Ok (ms, ixs)"
    and "length txids = unat (num_transactions (mb_txn mb))"
    and "calculate_root (parent_hash H) txids = Some (merkle_root (mb_header mb))"
  shows "(\<exists>is. sorted_wrt (<) is \<and> set is \<subseteq> {..<length txids} \<and> ixs = map as_u32 is \<and> ms = map (nth txids) is) \<or>
    (\<exists>p\<in>set (hashed_pairs (parent_hash H) (mb_txn mb) (tree_height (length txids) 0) 0 (0, 0, [], [])).
      \<exists>h pos. pos < tree_width (length txids) (Suc h) \<and> p \<noteq> tree_pair (parent_hash H) (length txids) txids h pos \<and>
        case_prod (parent_hash H) p = case_prod (parent_hash H) (tree_pair (parent_hash H) (length txids) txids h pos))"
proof -
  define n where "n = length txids"
  define h where "h = tree_height n 0"
  let ?ps = "hashed_pairs (parent_hash H) (mb_txn mb) h 0 (0, 0, [], [])"
  have ext: "extract_matches (parent_hash H) (mb_txn mb) = Ok (merkle_root (mb_header mb), ms, ixs)"
    using assms(1) by (auto simp: mb_extract_matches_def split: sum.splits if_splits)
  have n: "n = unat (num_transactions (mb_txn mb))" "0 < n"
    using extract_matches_OkD(1) [OF ext] assms(2) by (simp_all add: n_def unat_gt_0)
  obtain bu hu where run: "extract_tree (parent_hash H) (mb_txn mb) h 0 (0, 0, [], []) =
      Ok (merkle_root (mb_header mb), bu, hu, ms, ixs)"
    using extract_matches_OkD(2) [OF ext] n(1) by (auto simp: h_def)
  have root: "merkle_root (mb_header mb) = node_hash (parent_hash H) n h 0 txids"
    using calculate_root_hash [of txids "parent_hash H"] assms(3) n(2) by (auto simp: n_def h_def)
  have w: "0 < tree_width n h" using tree_height_width [OF n(2)] by (simp add: h_def)
  show ?thesis
  proof (cases "no_collision (parent_hash H) n txids ?ps")
    case True
    have "node_range n h 0 \<subseteq> {..<n}" by (auto simp: node_range_def)
    with extract_tree_sound [OF run n(1) w root True] show ?thesis
      unfolding n_def by (metis append_Nil subset_trans)
  next
    case False
    then show ?thesis unfolding no_collision_def h_def n_def by blast
  qed
qed

text \<open>A block of two transactions, under a stand-in for the hash function that keeps 32 bytes of its input.\<close>

definition sample_H :: "u8 list \<Rightarrow> u8 list" where
  "sample_H data = take 32 (data @ replicate 32 0)"

definition sample_txids :: "u8 list list" where
  "sample_txids = [replicate 32 1, replicate 32 2]"

definition sample_merkle_header :: header where
  "sample_merkle_header = sample_header\<lparr>merkle_root := replicate 32 1\<rparr>"

definition sample_merkle_block :: merkle_block where
  "sample_merkle_block =
     \<lparr>mb_header = sample_merkle_header,
      mb_txn = \<lparr>num_transactions = 2, pmt_bits = [True, False, True], pmt_hashes = sample_txids\<rparr>\<rparr>"

lemma sample_tree:
  "tree_height 2 0 = 1" "tree_width 2 0 = 2"
  "parent_hash sample_H (replicate 32 1) (replicate 32 2) = replicate 32 1"
  by (rule tree_height_unique; simp) (simp_all add: tree_width_def parent_hash_def sample_H_def array_encode_def)

lemma sample_root: "calculate_root (parent_hash sample_H) sample_txids = Some (merkle_root sample_merkle_header)"
proof -
  have "length sample_txids = 2" "sample_txids \<noteq> []" by (simp_all add: sample_txids_def)
  with calculate_root_hash [of sample_txids "parent_hash sample_H"] show ?thesis
    by (simp add: sample_tree sample_merkle_header_def Let_def) (simp add: sample_txids_def sample_tree)
qed

lemma sample_extract: "mb_extract_matches sample_H sample_merkle_block = Ok ([replicate 32 2], [1])"
proof -
  have "replicate 32 (2::u8) \<noteq> replicate 32 1" by simp
  moreover have "traverse_and_extract ph t (calc_height 2 0) 0 s = extract_tree ph t 1 0 s"
    if "num_transactions t = 2" for ph and t :: "u8 list partial_merkle_tree" and s
    using extract_run [of t ph s] that by (simp add: sample_tree MAX_BLOCK_WEIGHT_def MIN_TRANSACTION_WEIGHT_def)
  ultimately show ?thesis
    by (simp add: mb_extract_matches_def sample_merkle_block_def extract_matches_def sample_tree
        MAX_BLOCK_WEIGHT_def MIN_TRANSACTION_WEIGHT_def sample_txids_def sample_merkle_header_def Let_def
        del: replicate.simps)
qed

theorem merkle_block_sound_witness:
  "(\<exists>is. sorted_wrt (<) is \<and> set is \<subseteq> {..<2} \<and> [1] = map as_u32 is \<and>
     [replicate 32 2] = map (nth sample_txids) is) \<or>
   (\<exists>p\<in>set (hashed_pairs (parent_hash sample_H) (mb_txn sample_merkle_block) 1 0 (0, 0, [], [])).
      \<exists>h pos. pos < tree_width 2 (Suc h) \<and> p \<noteq> tree_pair (parent_hash sample_H) 2 sample_txids h pos \<and>
        case_prod (parent_hash sample_H) p = case_prod (parent_hash sample_H) (tree_pair (parent_hash sample_H) 2 sample_txids h pos))"
proof -
  have len: "length sample_txids = 2" "num_transactions (mb_txn sample_merkle_block) = 2"
    "mb_header sample_merkle_block = sample_merkle_header"
    by (simp_all add: sample_txids_def sample_merkle_block_def)
  show ?thesis
    using merkle_block_sound [OF sample_extract, of sample_txids] sample_root unfolding len sample_tree by simp
qed

text \<open>
  C20: a Merkle block built for a predicate, sent as bytes and read back, passes the check against its
  header and gives exactly the transactions that satisfy the predicate, with their positions, for
  a block of at most 16666 transactions none of whose tree nodes has two equal children.
\<close>

theorem merkle_block_complete:
  assumes "\<forall>data. length (H data) = 32" and "header_valid header"
    and "txids \<noteq> []" and "length txids \<le> 16666" and "\<forall>x\<in>set txids. length x = 32"
    and "distinct_siblings (parent_hash H) txids"
    and "calculate_root (parent_hash H) txids = Some (merkle_root header)"
  shows "\<exists>mb mb'. from_header_txids_with_predicate H header txids p = Some mb \<and>
    deserialize merkle_block_decode (merkle_block_encode mb) = Ok mb' \<and>
    mb_extract_matches H mb' =
      Ok (filter p txids, map as_u32 (filter (\<lambda>i. p (txids ! i)) [0..<length txids]))"
proof -
  obtain t where t: "from_txids (parent_hash H) txids (map p txids) = Some t"
    using assms(3) by (cases "from_txids (parent_hash H) txids (map p txids)")
      (simp_all add: from_txids_def Let_def split: prod.splits)
  obtain num bs hs where t_eq: "t = \<lparr>num_transactions = num, pmt_bits = bs, pmt_hashes = hs\<rparr>" by (cases t)
  have "unat (as_u32 (length txids)) = length txids" using assms(4) by (simp add: unsigned_of_nat take_bit_eq_mod)
  then have built: "build_tree (parent_hash H) (length txids) (tree_height (length txids) 0) 0 txids (map p txids) = (bs, hs)"
    using t assms(3,4) by (simp add: from_txids_tree t_eq split: prod.splits)
  have w: "0 < tree_width (length txids) (tree_height (length txids) 0)"
    using tree_height_width [of "length txids"] assms(3) by simp
  have small: "length hs \<le> length bs" "length bs < 66664"
    using build_sizes [OF built w] tree_height_bounds [of 0 "length txids"] assms(3,4)
    by (cases "tree_height (length txids) 0"; force)+
  have "pmt_valid t"
    using build_hashes_32 [OF _ assms(5) built w] assms(1) small by (simp add: pmt_valid_def t_eq)
  then have dec: "merkle_block_decode (merkle_block_encode \<lparr>mb_header = header, mb_txn = t\<rparr> @ []) =
      Ok (\<lparr>mb_header = header, mb_txn = t\<lparr>pmt_bits := pad8 bs\<rparr>\<rparr>, [])"
    unfolding merkle_block_decode_def merkle_block_encode_def append_assoc
    by (simp add: c_header_limited.bind_enc length_header_encode MAX_VEC_SIZE_def assms(2) t_eq dbind_def [of pmt_decode] dret_def pmt_decode_encode [of t, unfolded t_eq, where rest = "[]", simplified])
  have "extract_matches (parent_hash H) (t\<lparr>pmt_bits := pad8 bs\<rparr>) =
      Ok (merkle_root header, map (nth txids) (filter (nth (map p txids)) [0..<length txids]),
        map as_u32 (filter (nth (map p txids)) [0..<length txids]))"
    using extract_from_txids [of txids "map p txids" "parent_hash H" bs "replicate (8 * ((length bs + 7) div 8) - length bs) False" num hs]
      assms(3,4,6,7) t by (simp add: t_eq pad8_def)
  moreover have "filter (nth (map p txids)) [0..<length txids] = filter (\<lambda>i. p (txids ! i)) [0..<length txids]"
    by (rule filter_cong) simp_all
  moreover have "map (nth txids) (filter (\<lambda>i. p (txids ! i)) [0..<length txids]) = filter p txids"
    using filter_map [of p "nth txids" "[0..<length txids]"] by (simp add: map_nth o_def)
  ultimately have "mb_extract_matches H \<lparr>mb_header = header, mb_txn = t\<lparr>pmt_bits := pad8 bs\<rparr>\<rparr> =
      Ok (filter p txids, map as_u32 (filter (\<lambda>i. p (txids ! i)) [0..<length txids]))"
    by (simp add: mb_extract_matches_def)
  with t dec show ?thesis
    by (simp add: from_header_txids_with_predicate_def deserialize_def deserialize_partial_def)
qed


theorem merkle_block_complete_witness:
  "\<exists>mb mb'. from_header_txids_with_predicate sample_H sample_merkle_header sample_txids (\<lambda>x. x ! 0 = 2) = Some mb \<and>
    deserialize merkle_block_decode (merkle_block_encode mb) = Ok mb' \<and>
    mb_extract_matches sample_H mb' = Ok ([replicate 32 2], [1])"
proof -
  have "distinct_siblings (parent_hash sample_H) sample_txids"
  proof -
    have len: "length sample_txids = 2" by (simp add: sample_txids_def)
    show ?thesis
      unfolding distinct_siblings_def len Let_def sample_tree by (auto simp: sample_tree sample_txids_def)
  qed
  moreover have "header_valid sample_merkle_header"
    by (simp add: sample_merkle_header_def header_valid_def sample_header_def)
  moreover have "\<forall>data. length (sample_H data) = 32" by (simp add: sample_H_def min_def)
  ultimately show ?thesis
    using merkle_block_complete [of sample_H sample_merkle_header sample_txids "\<lambda>x. x ! 0 = 2"] sample_root
    by (simp add: sample_txids_def upt_rec)
qed

end
