(* ===== verification/Block_Filter.thy ===== *)
theory Block_Filter
  imports Consensus "HOL-Library.List_Lexorder"
begin

text \<open>
  Compact block filters, from \<open>src/dash/src/bip158.rs\<close>: bit streams over byte buffers, Golomb-Rice
  coding, and the writer and the reader of Golomb-coded sets. The keyed hash of the hash crate
  (\<open>siphash24\<close>) is the parameter \<open>sip\<close>, which takes the two keys and the data. Writers append to a
  byte vector and cannot fail; readers take bytes from a slice. Bit counts and offsets are \<open>u8\<close> as
  in the source, so their differences wrap.
\<close>

unbundle bit_operations_syntax

section \<open>Bit streams\<close>

datatype io_error = IoUnexpectedEof | IoOther

record bit_stream_reader =
  br_buffer :: u8
  br_offset :: u8
  br_reader :: "u8 list"

definition br_new :: "u8 list \<Rightarrow> bit_stream_reader" where
  "br_new reader = \<lparr>br_buffer = 0, br_offset = 8, br_reader = reader\<rparr>"

definition br_refill :: "bit_stream_reader \<Rightarrow> (bit_stream_reader, io_error) result" where
  "br_refill r =
     (if br_offset r = 8 then
        (case br_reader r of
           [] \<Rightarrow> Err IoUnexpectedEof
         | b # rest \<Rightarrow> Ok \<lparr>br_buffer = b, br_offset = 0, br_reader = rest\<rparr>)
      else Ok r)"

lemma br_refill_offset: "br_refill r = Ok r' \<Longrightarrow> br_offset r' \<noteq> 8"
  by (auto simp: br_refill_def split: if_splits list.splits)

lemma word_min_pos: "(nbits :: u8) > 0 \<Longrightarrow> offset \<noteq> 8 \<Longrightarrow> 0 < unat (min (8 - offset) nbits) \<and> min (8 - offset) nbits \<le> nbits"
  by (auto simp: min_def unat_gt_0)

function br_read_loop :: "u64 \<Rightarrow> u8 \<Rightarrow> bit_stream_reader \<Rightarrow> (u64 \<times> bit_stream_reader, io_error) result" where
  "br_read_loop data nbits r =
     (if nbits > 0 then
        (case br_refill r of
           Err e \<Rightarrow> Err e
         | Ok r' \<Rightarrow>
             let bits = min (8 - br_offset r') nbits;
                 data' = push_bit (unat bits) data OR
                   ucast (drop_bit (unat (8 - bits)) (push_bit (unat (br_offset r')) (br_buffer r'))) in
             br_read_loop data' (nbits - bits) (r'\<lparr>br_offset := br_offset r' + bits\<rparr>))
      else Ok (data, r))"
  by auto
termination
proof (relation "measure (\<lambda>(data, nbits, r). unat nbits)", goal_cases)
  case (2 data nbits r r' bits data')
  then have "0 < unat bits \<and> bits \<le> nbits" using word_min_pos [OF 2(1) br_refill_offset] by simp
  then show ?case using 2(1) by (auto simp: unat_sub word_less_nat_alt)
qed simp

declare br_read_loop.simps [simp del]

definition br_read :: "u8 \<Rightarrow> bit_stream_reader \<Rightarrow> (u64 \<times> bit_stream_reader, io_error) result" where
  "br_read nbits r = (if nbits > 64 then Err IoOther else br_read_loop 0 nbits r)"

record bit_stream_writer =
  bw_buffer :: u8
  bw_offset :: u8
  bw_writer :: "u8 list"

definition bw_new :: "u8 list \<Rightarrow> bit_stream_writer" where
  "bw_new writer = \<lparr>bw_buffer = 0, bw_offset = 0, bw_writer = writer\<rparr>"

definition bw_flush :: "bit_stream_writer \<Rightarrow> nat \<times> bit_stream_writer" where
  "bw_flush w =
     (if bw_offset w > 0
      then (1, \<lparr>bw_buffer = 0, bw_offset = 0, bw_writer = bw_writer w @ [bw_buffer w]\<rparr>)
      else (0, w))"

function bw_write_loop :: "u64 \<Rightarrow> u8 \<Rightarrow> nat \<Rightarrow> bit_stream_writer \<Rightarrow> nat \<times> bit_stream_writer" where
  "bw_write_loop data nbits wrote w =
     (if nbits > 0 then
        let bits = min (8 - bw_offset w) nbits;
            chunk = ucast (drop_bit (unat (64 - 8 + bw_offset w)) (push_bit (unat (64 - nbits)) data));
            w1 = w\<lparr>bw_buffer := bw_buffer w OR chunk, bw_offset := bw_offset w + bits\<rparr>;
            (n, w2) = (if bw_offset w1 = 8 then bw_flush w1 else (0, w1)) in
        bw_write_loop data (nbits - bits) (wrote + n) w2
      else (wrote, w))"
  by auto
termination
proof (relation "measure (\<lambda>(data, nbits, wrote, w). 2 * unat nbits + (if bw_offset w = 8 then 1 else 0))", goal_cases)
  case (2 data nbits wrote w bits chunk w1 z n w2)
  show ?case
  proof (cases "bw_offset w = 8")
    case True
    then have "bits = 0" using 2(2) by (simp add: min_def)
    then show ?thesis using 2 True by (simp add: bw_flush_def)
  next
    case False
    then have "0 < unat bits \<and> bits \<le> nbits" using word_min_pos [OF 2(1) False] 2(2) by simp
    then show ?thesis using 2(1) by (auto simp: unat_sub word_less_nat_alt word_le_nat_alt)
  qed
qed simp

declare bw_write_loop.simps [simp del]

definition bw_write :: "u64 \<Rightarrow> u8 \<Rightarrow> bit_stream_writer \<Rightarrow> (nat \<times> bit_stream_writer, io_error) result" where
  "bw_write data nbits w = (if nbits > 64 then Err IoOther else Ok (bw_write_loop data nbits 0 w))"

section \<open>Golomb-Rice coding\<close>

record gcs_filter =
  gf_k0 :: u64
  gf_k1 :: u64
  gf_p :: u8

function golomb_quotient :: "u64 \<Rightarrow> nat \<Rightarrow> bit_stream_writer \<Rightarrow> (nat \<times> bit_stream_writer, io_error) result" where
  "golomb_quotient q wrote w =
     (if q > 0 then
        let nbits = min q 64 in
        case bw_write (NOT 0) (ucast nbits) w of
          Err e \<Rightarrow> Err e
        | Ok (n, w') \<Rightarrow> golomb_quotient (q - nbits) (wrote + n) w'
      else Ok (wrote, w))"
  by auto
termination
proof (relation "measure (\<lambda>(q, wrote, w). unat q)", goal_cases)
  case (2 q wrote w nbits x n w')
  then have "0 < unat nbits" "nbits \<le> q" by (auto simp: min_def unat_gt_0)
  then show ?case using 2(1) by (simp add: unat_sub word_less_nat_alt)
qed simp

declare golomb_quotient.simps [simp del]

text \<open>The shifts by \<open>p\<close> use its low six bits, as the release profile does.\<close>

definition golomb_rice_encode :: "gcs_filter \<Rightarrow> u64 \<Rightarrow> bit_stream_writer \<Rightarrow> (nat \<times> bit_stream_writer, io_error) result" where
  "golomb_rice_encode f n w =
     (case golomb_quotient (drop_bit (unat (gf_p f) mod 64) n) 0 w of
        Err e \<Rightarrow> Err e
      | Ok (wrote1, w1) \<Rightarrow>
          case bw_write 0 1 w1 of
            Err e \<Rightarrow> Err e
          | Ok (wrote2, w2) \<Rightarrow>
              case bw_write n (gf_p f) w2 of
                Err e \<Rightarrow> Err e
              | Ok (wrote3, w3) \<Rightarrow> Ok (wrote1 + wrote2 + wrote3, w3))"

definition br_remaining :: "bit_stream_reader \<Rightarrow> nat" where
  "br_remaining r = 8 * length (br_reader r) + unat (8 - br_offset r)"

lemma br_refill_remaining: "br_refill r = Ok r' \<Longrightarrow> br_remaining r' = br_remaining r"
  by (auto simp: br_refill_def br_remaining_def split: if_splits list.splits)

lemma br_read_1_decreases:
  assumes "br_read 1 r = Ok (d, r')"
  shows "br_remaining r' < br_remaining r"
proof -
  obtain r1 where r1: "br_refill r = Ok r1"
    using assms by (auto simp: br_read_def br_read_loop.simps [of 0 1] split: sum.splits)
  have off: "br_offset r1 \<noteq> 8" using br_refill_offset [OF r1] .
  then have "min (8 - br_offset r1) 1 = 1"
    by (intro min_absorb2) (simp add: word_le_nat_alt Suc_le_eq unat_gt_0)
  then have "r' = r1\<lparr>br_offset := br_offset r1 + 1\<rparr>"
    using assms r1 by (simp add: br_read_def br_read_loop.simps [of _ 1] br_read_loop.simps [of _ 0] Let_def)
  moreover have "unat (8 - (br_offset r1 + 1)) < unat (8 - br_offset r1)"
  proof -
    have "8 - (br_offset r1 + 1) = 8 - br_offset r1 - 1" by simp
    moreover have "1 \<le> 8 - br_offset r1" using off by (simp add: word_le_nat_alt Suc_le_eq unat_gt_0)
    moreover have "0 < unat (8 - br_offset r1)" using off by (simp add: unat_gt_0)
    ultimately show ?thesis by (simp only: unat_sub unat_1)
  qed
  ultimately show ?thesis using br_refill_remaining [OF r1] by (simp add: br_remaining_def)
qed

function golomb_ones :: "u64 \<Rightarrow> bit_stream_reader \<Rightarrow> (u64 \<times> bit_stream_reader, io_error) result" where
  "golomb_ones q r =
     (case br_read 1 r of
        Err e \<Rightarrow> Err e
      | Ok (d, r') \<Rightarrow> if d = 1 then golomb_ones (q + 1) r' else Ok (q, r'))"
  by auto
termination
  by (relation "measure (\<lambda>(q, r). br_remaining r)") (auto dest: br_read_1_decreases)

declare golomb_ones.simps [simp del]

definition golomb_rice_decode :: "gcs_filter \<Rightarrow> bit_stream_reader \<Rightarrow> (u64 \<times> bit_stream_reader, io_error) result" where
  "golomb_rice_decode f r =
     (case golomb_ones 0 r of
        Err e \<Rightarrow> Err e
      | Ok (q, r1) \<Rightarrow>
          case br_read (gf_p f) r1 of
            Err e \<Rightarrow> Err e
          | Ok (rem, r2) \<Rightarrow> Ok (push_bit (unat (gf_p f) mod 64) q + rem, r2))"

section \<open>Golomb-coded sets\<close>

definition map_to_range :: "u64 \<Rightarrow> u64 \<Rightarrow> u64" where
  "map_to_range hash nm = ucast (drop_bit 64 (ucast hash * ucast nm :: u128))"

record gcs_filter_writer =
  gw_filter :: gcs_filter
  gw_writer :: "u8 list"
  gw_elements :: "u8 list list"
  gw_m :: u64

definition gw_new :: "u8 list \<Rightarrow> u64 \<Rightarrow> u64 \<Rightarrow> u64 \<Rightarrow> u8 \<Rightarrow> gcs_filter_writer" where
  "gw_new writer k0 k1 m p =
     \<lparr>gw_filter = \<lparr>gf_k0 = k0, gf_k1 = k1, gf_p = p\<rparr>, gw_writer = writer, gw_elements = [], gw_m = m\<rparr>"

definition gw_add_element :: "u8 list \<Rightarrow> gcs_filter_writer \<Rightarrow> gcs_filter_writer" where
  "gw_add_element element gw =
     (if element \<noteq> [] then gw\<lparr>gw_elements := insort_insert element (gw_elements gw)\<rparr> else gw)"

fun write_deltas :: "gcs_filter \<Rightarrow> u64 list \<Rightarrow> u64 \<Rightarrow> nat \<Rightarrow> bit_stream_writer \<Rightarrow> (nat \<times> bit_stream_writer, io_error) result" where
  "write_deltas f [] prev wrote w = Ok (wrote, w)"
| "write_deltas f (data # mapped) prev wrote w =
     (case golomb_rice_encode f (data - prev) w of
        Err e \<Rightarrow> Err e
      | Ok (n, w') \<Rightarrow> write_deltas f mapped data (wrote + n) w')"

definition gf_hash :: "(u64 \<Rightarrow> u64 \<Rightarrow> u8 list \<Rightarrow> u64) \<Rightarrow> gcs_filter \<Rightarrow> u8 list \<Rightarrow> u64" where
  "gf_hash sip f element = sip (gf_k0 f) (gf_k1 f) element"

definition gw_finish :: "(u64 \<Rightarrow> u64 \<Rightarrow> u8 list \<Rightarrow> u64) \<Rightarrow> gcs_filter_writer \<Rightarrow> (nat \<times> gcs_filter_writer, io_error) result" where
  "gw_finish sip gw =
     (let nm = word_of_nat (length (gw_elements gw)) * gw_m gw;
          mapped = sort (map (\<lambda>e. map_to_range (gf_hash sip (gw_filter gw) e) nm) (gw_elements gw));
          count = varint_encode (word_of_nat (length mapped)) in
      case write_deltas (gw_filter gw) mapped 0 (length count) (bw_new (gw_writer gw @ count)) of
        Err e \<Rightarrow> Err e
      | Ok (wrote, w) \<Rightarrow>
          let (n, w') = bw_flush w in Ok (wrote + n, gw\<lparr>gw_writer := bw_writer w'\<rparr>))"

record gcs_filter_reader =
  gr_filter :: gcs_filter
  gr_m :: u64

definition gr_new :: "u64 \<Rightarrow> u64 \<Rightarrow> u64 \<Rightarrow> u8 \<Rightarrow> gcs_filter_reader" where
  "gr_new k0 k1 m p = \<lparr>gr_filter = \<lparr>gf_k0 = k0, gf_k1 = k1, gf_p = p\<rparr>, gr_m = m\<rparr>"

text \<open>
  The inner loop of the two matchers: read on while the last value read is below \<open>p\<close> and values
  remain. Which branch of the source's \<open>match\<close> ends it shows in the value it returns.
\<close>

fun seek :: "gcs_filter \<Rightarrow> u64 \<Rightarrow> u64 \<Rightarrow> nat \<Rightarrow> bit_stream_reader \<Rightarrow> (u64 \<times> nat \<times> bit_stream_reader, io_error) result" where
  "seek f p data 0 r = Ok (data, 0, r)"
| "seek f p data (Suc remaining) r =
     (if data < p then
        (case golomb_rice_decode f r of
           Err e \<Rightarrow> Err e
         | Ok (d, r') \<Rightarrow> seek f p (data + d) remaining r')
      else Ok (data, Suc remaining, r))"

fun match_any_loop :: "gcs_filter \<Rightarrow> u64 list \<Rightarrow> u64 \<Rightarrow> nat \<Rightarrow> bit_stream_reader \<Rightarrow> (bool, io_error) result" where
  "match_any_loop f [] data remaining r = Ok False"
| "match_any_loop f (p # mapped) data remaining r =
     (case seek f p data remaining r of
        Err e \<Rightarrow> Err e
      | Ok (data', remaining', r') \<Rightarrow>
          if data' = p then Ok True
          else if data' < p then Ok False
          else match_any_loop f mapped data' remaining' r')"

fun match_all_loop :: "gcs_filter \<Rightarrow> u64 list \<Rightarrow> u64 \<Rightarrow> nat \<Rightarrow> bit_stream_reader \<Rightarrow> (bool, io_error) result" where
  "match_all_loop f [] data remaining r = Ok True"
| "match_all_loop f (p # mapped) data remaining r =
     (case seek f p data remaining r of
        Err e \<Rightarrow> Err e
      | Ok (data', remaining', r') \<Rightarrow>
          if data' = p then match_all_loop f mapped data' remaining' r'
          else Ok False)"

definition read_n_elements :: "u8 list \<Rightarrow> u64 \<times> u8 list" where
  "read_n_elements bytes = (case varint_decode bytes of Err e \<Rightarrow> (0, bytes) | Ok (n, rest) \<Rightarrow> (n, rest))"

definition gr_match_any ::
    "(u64 \<Rightarrow> u64 \<Rightarrow> u8 list \<Rightarrow> u64) \<Rightarrow> gcs_filter_reader \<Rightarrow> u8 list \<Rightarrow> u8 list list \<Rightarrow> (bool, io_error) result" where
  "gr_match_any sip gr bytes query =
     (let (n_elements, rest) = read_n_elements bytes;
          nm = n_elements * gr_m gr;
          mapped = map (\<lambda>e. map_to_range (gf_hash sip (gr_filter gr) e) nm) query in
      if mapped = [] then Ok False
      else if n_elements = 0 then Ok False
      else
        case golomb_rice_decode (gr_filter gr) (br_new rest) of
          Err e \<Rightarrow> Err e
        | Ok (data, r) \<Rightarrow> match_any_loop (gr_filter gr) (sort mapped) data (unat (n_elements - 1)) r)"

definition gr_match_all ::
    "(u64 \<Rightarrow> u64 \<Rightarrow> u8 list \<Rightarrow> u64) \<Rightarrow> gcs_filter_reader \<Rightarrow> u8 list \<Rightarrow> u8 list list \<Rightarrow> (bool, io_error) result" where
  "gr_match_all sip gr bytes query =
     (let (n_elements, rest) = read_n_elements bytes;
          nm = n_elements * gr_m gr;
          mapped = map (\<lambda>e. map_to_range (gf_hash sip (gr_filter gr) e) nm) query in
      if mapped = [] then Ok True
      else
        let mapped = remdups_adj (sort mapped) in
        if n_elements = 0 then Ok False
        else
          case golomb_rice_decode (gr_filter gr) (br_new rest) of
            Err e \<Rightarrow> Err e
          | Ok (data, r) \<Rightarrow> match_all_loop (gr_filter gr) mapped data (unat (n_elements - 1)) r)"

section \<open>Block filters\<close>

definition BF_P :: u8 where
  "BF_P = 19"

definition BF_M :: u64 where
  "BF_M = 784931"

definition bfr_new :: "u8 list \<Rightarrow> gcs_filter_reader" where
  "bfr_new block_hash =
     (let k0 = from_le_bytes (take 8 block_hash); k1 = from_le_bytes (take 8 (drop 8 block_hash)) in
      gr_new k0 k1 BF_M BF_P)"

definition bf_match_any ::
    "(u64 \<Rightarrow> u64 \<Rightarrow> u8 list \<Rightarrow> u64) \<Rightarrow> u8 list \<Rightarrow> u8 list \<Rightarrow> u8 list list \<Rightarrow> (bool, io_error) result" where
  "bf_match_any sip content block_hash query = gr_match_any sip (bfr_new block_hash) content query"

definition bf_match_all ::
    "(u64 \<Rightarrow> u64 \<Rightarrow> u8 list \<Rightarrow> u64) \<Rightarrow> u8 list \<Rightarrow> u8 list \<Rightarrow> u8 list list \<Rightarrow> (bool, io_error) result" where
  "bf_match_all sip content block_hash query = gr_match_all sip (bfr_new block_hash) content query"

definition hash_filter_header :: "(u8 list \<Rightarrow> u8 list) \<Rightarrow> u8 list \<Rightarrow> u8 list \<Rightarrow> u8 list" where
  "hash_filter_header H filter_hash previous_filter_header = H (filter_hash @ previous_filter_header)"

definition bf_filter_header :: "(u8 list \<Rightarrow> u8 list) \<Rightarrow> u8 list \<Rightarrow> u8 list \<Rightarrow> u8 list" where
  "bf_filter_header H content previous_filter_header = hash_filter_header H (H content) previous_filter_header"

section \<open>Bit streams carry lists of bits\<close>

text \<open>The lowest \<open>n\<close> bits of a word, the highest of them first.\<close>

definition low_bits :: "nat \<Rightarrow> 'a::len word \<Rightarrow> bool list" where
  "low_bits n x = map (\<lambda>i. bit x (n - 1 - i)) [0..<n]"

lemma length_low_bits [simp]: "length (low_bits n x) = n"
  by (simp add: low_bits_def)

lemma nth_low_bits [simp]: "i < n \<Longrightarrow> low_bits n x ! i = bit x (n - 1 - i)"
  by (simp add: low_bits_def)

definition bw_bits :: "bit_stream_writer \<Rightarrow> bool list" where
  "bw_bits w = concat (map (low_bits 8) (bw_writer w)) @ take (unat (bw_offset w)) (low_bits 8 (bw_buffer w))"

definition bw_inv :: "bit_stream_writer \<Rightarrow> bool" where
  "bw_inv w \<longleftrightarrow> bw_offset w < 8 \<and> (\<forall>i<8 - unat (bw_offset w). \<not> bit (bw_buffer w) i)"

definition br_bits :: "bit_stream_reader \<Rightarrow> bool list" where
  "br_bits r = drop (unat (br_offset r)) (low_bits 8 (br_buffer r)) @ concat (map (low_bits 8) (br_reader r))"

lemma low_bits_split: "m \<le> n \<Longrightarrow> low_bits n x = take m (low_bits n x) @ low_bits (n - m) x"
  by (rule nth_equalityI) (auto simp: nth_append)

text \<open>One round of the writing loop, with the counters read as numbers.\<close>

lemma write_round:
  fixes data :: u64 and nbits off buf :: u8
  defines "n \<equiv> unat nbits" and "o' \<equiv> unat off"
  defines "b \<equiv> min (8 - o') n"
  assumes n: "0 < n" "n \<le> 64" and off: "o' < 8" and zero: "\<forall>i<8 - o'. \<not> bit buf i"
    and buf': "buf' = buf OR ucast (drop_bit (unat (64 - 8 + off)) (push_bit (unat (64 - nbits)) data))"
  shows "unat (min (8 - off) nbits) = b" and "unat (off + min (8 - off) nbits) = o' + b"
    and "unat (nbits - min (8 - off) nbits) = n - b"
    and "take (o' + b) (low_bits 8 buf') = take o' (low_bits 8 buf) @ take b (low_bits n data)"
    and "\<forall>i<8 - (o' + b). \<not> bit buf' i"
proof -
  have shl: "unat (64 - nbits) = 64 - n" using n by (subst unat_sub) (simp_all add: word_le_nat_alt n_def)
  have shr: "unat (64 - 8 + off) = 56 + o'"
    using off by (simp add: unat_plus_simple [THEN iffD1] word_le_nat_alt o'_def unat_word_ariths)
  have sub8: "unat (8 - off) = 8 - o'" using off by (subst unat_sub) (simp_all add: word_le_nat_alt o'_def)
  show min: "unat (min (8 - off) nbits) = b"
    using sub8 by (auto simp: min_def b_def n_def word_le_nat_alt)
  show "unat (off + min (8 - off) nbits) = o' + b"
    using min off by (simp add: unat_word_ariths o'_def b_def)
  show "unat (nbits - min (8 - off) nbits) = n - b"
    using min by (subst unat_sub) (simp_all add: n_def)
  have bit': "bit buf' i \<longleftrightarrow> bit buf i \<or> (i < 8 - o' \<and> 8 - o' \<le> n + i \<and> bit data (n + i - (8 - o')))" if "i < 8" for i
    using that n off unfolding buf' shl shr
    by (auto simp: bit_or_iff bit_ucast_iff bit_drop_bit_eq bit_push_bit_iff ac_simps)
  show "\<forall>i<8 - (o' + b). \<not> bit buf' i"
    using zero bit' by (auto simp: b_def min_def split: if_splits)
  show "take (o' + b) (low_bits 8 buf') = take o' (low_bits 8 buf) @ take b (low_bits n data)"
  proof (rule nth_equalityI)
    show "length (take (o' + b) (low_bits 8 buf')) = length (take o' (low_bits 8 buf) @ take b (low_bits n data))"
      using off by (auto simp: b_def)
    fix i assume "i < length (take (o' + b) (low_bits 8 buf'))"
    then have i: "i < o' + b" "i < 8" by auto
    show "take (o' + b) (low_bits 8 buf') ! i = (take o' (low_bits 8 buf) @ take b (low_bits n data)) ! i"
    proof (cases "i < o'")
      case True
      then show ?thesis using i off bit' [of "7 - i"] by (auto simp: nth_append)
    next
      case False
      then have "n + (7 - i) - (8 - o') = n - 1 - (i - o')" using i off by (auto simp: b_def min_def split: if_splits)
      then show ?thesis
        using False i off zero bit' [of "7 - i"] by (auto simp: nth_append b_def min_def split: if_splits)
    qed
  qed
qed

lemma bw_write_loop_bits:
  assumes "bw_inv w" and "unat nbits \<le> 64" and "bw_write_loop data nbits wrote w = (wrote', w')"
  shows "bw_inv w' \<and> bw_bits w' = bw_bits w @ low_bits (unat nbits) data"
  using assms
proof (induction data nbits wrote w rule: bw_write_loop.induct)
  case (1 data nbits wrote w)
  show ?case
  proof (cases "nbits > 0")
    case False
    then have "unat nbits = 0" by (simp add: word_less_nat_alt)
    then show ?thesis using 1(2,4) False by (simp add: bw_write_loop.simps [of data nbits] low_bits_def)
  next
    case True
    define bits where "bits = min (8 - bw_offset w) nbits"
    define buf where "buf = bw_buffer w OR ucast (drop_bit (unat (64 - 8 + bw_offset w)) (push_bit (unat (64 - nbits)) data))"
    define w1 where "w1 = w\<lparr>bw_buffer := buf, bw_offset := bw_offset w + bits\<rparr>"
    obtain n2 w2 where w2: "(if bw_offset w1 = 8 then bw_flush w1 else (0, w1)) = (n2, w2)" by (rule prod.exhaust)
    have n: "0 < unat nbits" using True by (simp add: word_less_nat_alt)
    have off: "unat (bw_offset w) < 8" using 1(2) by (simp add: bw_inv_def word_less_nat_alt)
    note R = write_round [OF n 1(3) off _ buf_def, folded bits_def]
    define b where "b = min (8 - unat (bw_offset w)) (unat nbits)"
    have zero: "\<forall>i<8 - unat (bw_offset w). \<not> bit (bw_buffer w) i" using 1(2) by (simp add: bw_inv_def)
    note R = R [OF zero, folded b_def]
    have w1: "unat (bw_offset w1) = unat (bw_offset w) + b" "bw_buffer w1 = buf" "bw_writer w1 = bw_writer w"
      using R(2) by (simp_all add: w1_def)
    have bits1: "bw_bits w1 = bw_bits w @ take b (low_bits (unat nbits) data)"
      using R(4) w1 by (simp add: bw_bits_def)
    have step: "bw_inv w2 \<and> bw_bits w2 = bw_bits w1"
    proof (cases "bw_offset w1 = 8")
      case True
      then have "w2 = \<lparr>bw_buffer = 0, bw_offset = 0, bw_writer = bw_writer w1 @ [bw_buffer w1]\<rparr>"
        using w2 by (simp add: bw_flush_def)
      then show ?thesis using True by (simp add: bw_inv_def bw_bits_def)
    next
      case False
      then have "unat (bw_offset w1) \<noteq> 8" by (simp add: word_unat_eq_iff)
      moreover have "unat (bw_offset w1) \<le> 8" using w1(1) off by (simp add: b_def)
      ultimately have "bw_offset w1 < 8" by (simp add: word_less_nat_alt)
      then show ?thesis using False w2 R(5) w1 by (simp add: bw_inv_def)
    qed
    have rec: "bw_write_loop data (nbits - bits) (wrote + n2) w2 = (wrote', w')"
      using 1(4) [unfolded bw_write_loop.simps [of data nbits] if_P [OF True] Let_def,
          folded bits_def, folded buf_def, folded w1_def, unfolded w2 prod.case] .
    have "bw_inv w' \<and> bw_bits w' = bw_bits w2 @ low_bits (unat (nbits - bits)) data"
      using 1(1) [OF True bits_def refl, folded buf_def, OF w1_def w2 [symmetric] refl] step rec R(3) 1(3) by simp
    moreover have "low_bits (unat nbits) data = take b (low_bits (unat nbits) data) @ low_bits (unat nbits - b) data"
      by (rule low_bits_split) (simp add: b_def)
    ultimately show ?thesis using step bits1 R(3) by simp
  qed
qed

lemma bw_write_bits:
  assumes "bw_inv w" and "nbits \<le> 64"
  obtains wrote w' where "bw_write data nbits w = Ok (wrote, w')" "bw_inv w'" "bw_bits w' = bw_bits w @ low_bits (unat nbits) data"
proof -
  obtain wrote w' where r: "bw_write_loop data nbits 0 w = (wrote, w')" by (rule prod.exhaust)
  have "unat nbits \<le> 64" using assms(2) by (simp add: word_le_nat_alt)
  with bw_write_loop_bits [OF assms(1) this r] r assms(2) that show thesis
    by (simp add: bw_write_def not_less)
qed

text \<open>Reading: the value read carries the next bits, and the rest stays.\<close>

definition carries :: "u64 \<Rightarrow> bool list \<Rightarrow> bool" where
  "carries d bs \<longleftrightarrow> length bs \<le> 64 \<and> (\<forall>i. bit d i \<longleftrightarrow> i < length bs \<and> bs ! (length bs - 1 - i))"

lemma read_round:
  fixes data :: u64 and nbits off buf :: u8
  defines "n \<equiv> unat nbits" and "o' \<equiv> unat off"
  defines "b \<equiv> min (8 - o') n"
  assumes n: "0 < n" and off: "o' < 8" and data: "carries data bs" and len: "length bs + n \<le> 64"
    and data': "data' = push_bit (unat (min (8 - off) nbits)) data OR
      ucast (drop_bit (unat (8 - min (8 - off) nbits)) (push_bit (unat off) buf))"
  shows "unat (off + min (8 - off) nbits) = o' + b" and "unat (nbits - min (8 - off) nbits) = n - b"
    and "carries data' (bs @ take b (drop o' (low_bits 8 buf)))"
proof -
  have sub8: "unat (8 - off) = 8 - o'" using off by (subst unat_sub) (simp_all add: word_le_nat_alt o'_def)
  have min: "unat (min (8 - off) nbits) = b"
    using sub8 by (auto simp: min_def b_def n_def word_le_nat_alt)
  show "unat (off + min (8 - off) nbits) = o' + b"
    using min off by (simp add: unat_word_ariths o'_def b_def)
  show "unat (nbits - min (8 - off) nbits) = n - b"
    using min by (subst unat_sub) (simp_all add: n_def)
  have b: "0 < b" "b \<le> 8 - o'" "b \<le> n" using n off by (auto simp: b_def)
  have sub: "unat (8 - min (8 - off) nbits) = 8 - b"
    using min b by (subst unat_sub) (simp_all add: word_le_nat_alt)
  have chunk: "length (take b (drop o' (low_bits 8 buf))) = b" using b by simp
  have bit': "bit data' i \<longleftrightarrow> (b \<le> i \<and> i < 64 \<and> bit data (i - b)) \<or> (i < b \<and> bit buf (8 - b - o' + i))" for i
    using b off unfolding data' min sub o'_def [symmetric]
    by (auto simp: bit_or_iff bit_ucast_iff bit_drop_bit_eq bit_push_bit_iff ac_simps dest: bit_imp_le_length)
  show "carries data' (bs @ take b (drop o' (low_bits 8 buf)))"
    unfolding carries_def length_append chunk
  proof (intro conjI allI)
    show "length bs + b \<le> 64" using b len by simp
    fix i
    show "bit data' i \<longleftrightarrow> i < length bs + b \<and> (bs @ take b (drop o' (low_bits 8 buf))) ! (length bs + b - 1 - i)"
    proof (cases "i < b")
      case True
      then have "length bs + b - 1 - i = length bs + (b - 1 - i)" by simp
      moreover have "8 - 1 - (o' + (b - 1 - i)) = 8 - b - o' + i" using True b by simp
      moreover have "take b (drop o' (low_bits 8 buf)) ! (b - 1 - i) = bit buf (8 - 1 - (o' + (b - 1 - i)))"
        using True b by simp
      ultimately show ?thesis
        using True unfolding bit' by (simp only: nth_append_length_plus) simp
    next
      case False
      have "bit data (i - b) \<longleftrightarrow> i - b < length bs \<and> bs ! (length bs - 1 - (i - b))"
        using data unfolding carries_def by blast
      moreover have "i - b < length bs \<longleftrightarrow> i < length bs + b" "length bs - 1 - (i - b) = length bs + b - 1 - i"
        using False by auto
      ultimately show ?thesis
        using False b len unfolding bit' by (auto simp: nth_append)
    qed
  qed
qed

lemma br_refill_bits:
  assumes "br_offset r \<le> 8" and "br_bits r \<noteq> []"
  obtains r' where "br_refill r = Ok r'" "br_offset r' < 8" "br_bits r' = br_bits r"
proof (cases "br_offset r = 8")
  case True
  then obtain b rest where "br_reader r = b # rest"
    using assms(2) by (cases "br_reader r") (auto simp: br_bits_def)
  with True that [of "\<lparr>br_buffer = b, br_offset = 0, br_reader = rest\<rparr>"] show thesis
    by (simp add: br_refill_def br_bits_def)
next
  case False
  with assms(1) that [of r] show thesis by (simp add: br_refill_def)
qed

lemma br_read_loop_bits:
  assumes "br_offset r \<le> 8" and "unat nbits \<le> length (br_bits r)" and "carries data bs" and "length bs + unat nbits \<le> 64"
  shows "\<exists>d r'. br_read_loop data nbits r = Ok (d, r') \<and> br_offset r' \<le> 8 \<and>
    carries d (bs @ take (unat nbits) (br_bits r)) \<and> br_bits r' = drop (unat nbits) (br_bits r)"
  using assms
proof (induction data nbits r arbitrary: bs rule: br_read_loop.induct)
  case (1 data nbits r)
  show ?case
  proof (cases "nbits > 0")
    case False
    then have "unat nbits = 0" by (simp add: word_less_nat_alt)
    with False 1(2,4) show ?thesis by (simp add: br_read_loop.simps [of data nbits])
  next
    case True
    have n: "0 < unat nbits" using True by (simp add: word_less_nat_alt)
    with 1(3) have "br_bits r \<noteq> []" by auto
    with 1(2) obtain r1 where r1: "br_refill r = Ok r1" "br_offset r1 < 8" "br_bits r1 = br_bits r"
      by (rule br_refill_bits)
    define off where "off = unat (br_offset r1)"
    have off: "off < 8" using r1(2) by (simp add: off_def word_less_nat_alt)
    define bits where "bits = min (8 - br_offset r1) nbits"
    define data' where "data' = push_bit (unat bits) data OR
      ucast (drop_bit (unat (8 - bits)) (push_bit (unat (br_offset r1)) (br_buffer r1)))"
    define b where "b = min (8 - off) (unat nbits)"
    define r2 where "r2 = r1\<lparr>br_offset := br_offset r1 + bits\<rparr>"
    note R = read_round [OF n off [unfolded off_def] 1(4,5) data'_def [unfolded bits_def],
        folded bits_def, folded off_def, folded b_def]
    have br: "br_bits r = drop off (low_bits 8 (br_buffer r1)) @ concat (map (low_bits 8) (br_reader r1))"
      using r1(3) by (simp add: br_bits_def [of r1] off_def)
    have r2: "unat (br_offset r2) = off + b" "br_bits r2 = drop b (br_bits r)"
      using R(1) off by (simp_all add: r2_def br_bits_def [of "br_offset_update _ _"] br b_def add.commute)
    have take: "take b (drop off (low_bits 8 (br_buffer r1))) = take b (br_bits r)"
      using off by (simp add: br b_def)
    have rest: "unat (nbits - bits) = unat nbits - b" by (rule R(2))
    have "br_offset r2 \<le> 8" using r2(1) off by (simp add: word_le_nat_alt b_def)
    moreover have "unat (nbits - bits) \<le> length (br_bits r2)" using 1(3) by (simp add: rest r2(2))
    moreover have "carries data' (bs @ take b (br_bits r))" using R(3) by (simp add: take)
    moreover have "length (bs @ take b (br_bits r)) + unat (nbits - bits) \<le> 64"
      using 1(3,5) by (simp add: rest b_def)
    ultimately obtain d r' where ih: "br_read_loop data' (nbits - bits) r2 = Ok (d, r')" "br_offset r' \<le> 8"
      "carries d ((bs @ take b (br_bits r)) @ take (unat (nbits - bits)) (br_bits r2))"
      "br_bits r' = drop (unat (nbits - bits)) (br_bits r2)"
      using 1(1) [OF True r1(1) bits_def data'_def, folded r2_def] by blast
    have "b \<le> unat nbits" by (simp add: b_def)
    then have "take b (br_bits r) @ take (unat nbits - b) (drop b (br_bits r)) = take (unat nbits) (br_bits r)"
      by (metis take_add le_add_diff_inverse)
    moreover have "br_read_loop data nbits r = Ok (d, r')"
      using True r1(1) ih(1)
      by (subst br_read_loop.simps) (simp add: Let_def bits_def [symmetric] data'_def [symmetric] r2_def [symmetric])
    ultimately show ?thesis using ih(2-4) \<open>b \<le> unat nbits\<close> by (simp add: rest r2(2))
  qed
qed

lemma br_read_bits:
  assumes "br_offset r \<le> 8" and "nbits \<le> 64" and "br_bits r = bs @ rest" and "length bs = unat nbits"
  obtains d r' where "br_read nbits r = Ok (d, r')" "br_offset r' \<le> 8" "br_bits r' = rest" "carries d bs"
proof -
  have "carries 0 []" by (simp add: carries_def)
  moreover have "unat nbits \<le> 64" using assms(2) by (simp add: word_le_nat_alt)
  ultimately obtain d r' where "br_read_loop 0 nbits r = Ok (d, r')" "br_offset r' \<le> 8"
    "carries d ([] @ take (unat nbits) (br_bits r))" "br_bits r' = drop (unat nbits) (br_bits r)"
    using br_read_loop_bits [OF assms(1), of nbits 0 "[]"] assms(3,4) by auto
  with that [of d r'] assms(2-4) show thesis by (simp add: br_read_def not_less)
qed

lemma carries_low_bits:
  assumes "carries d (low_bits n x)"
  shows "d = take_bit n x"
proof (rule bit_eqI)
  fix i
  have "bit d i \<longleftrightarrow> i < n \<and> low_bits n x ! (n - 1 - i)" using assms by (simp add: carries_def)
  also have "\<dots> \<longleftrightarrow> bit (take_bit n x) i" by (auto simp: bit_take_bit_iff)
  finally show "bit d i \<longleftrightarrow> bit (take_bit n x) i" .
qed

section \<open>Golomb-Rice coding round trips\<close>

definition golomb_bits :: "gcs_filter \<Rightarrow> u64 \<Rightarrow> bool list" where
  "golomb_bits f n =
     replicate (unat (drop_bit (unat (gf_p f)) n)) True @ False # low_bits (unat (gf_p f)) n"

lemma low_bits_ones: "n \<le> 64 \<Longrightarrow> low_bits n (NOT 0 :: u64) = replicate n True"
  by (rule nth_equalityI) (auto simp: bit_not_iff)

lemma golomb_quotient_bits:
  assumes "bw_inv w"
  shows "\<exists>n w'. golomb_quotient q wrote w = Ok (n, w') \<and> bw_inv w' \<and> bw_bits w' = bw_bits w @ replicate (unat q) True"
  using assms
proof (induction q wrote w rule: golomb_quotient.induct)
  case (1 q wrote w)
  show ?case
  proof (cases "q > 0")
    case False
    then have "unat q = 0" by (simp add: word_less_nat_alt)
    with False 1(2) show ?thesis by (simp add: golomb_quotient.simps [of q])
  next
    case True
    define nbits where "nbits = min q 64"
    have small: "unat nbits \<le> 64" "nbits \<le> q" by (simp_all add: nbits_def min_def word_le_nat_alt)
    then have cast: "unat (ucast nbits :: u8) = unat nbits"
      by (simp add: unsigned_ucast_eq take_bit_eq_mod)
    then have "(ucast nbits :: u8) \<le> 64" using small by (simp add: word_le_nat_alt)
    with 1(2) obtain n w1 where w1: "bw_write (NOT 0) (ucast nbits) w = Ok (n, w1)" "bw_inv w1"
      "bw_bits w1 = bw_bits w @ low_bits (unat (ucast nbits :: u8)) (NOT 0 :: u64)"
      by (rule bw_write_bits)
    obtain m w2 where w2: "golomb_quotient (q - nbits) (wrote + n) w1 = Ok (m, w2)" "bw_inv w2"
      "bw_bits w2 = bw_bits w1 @ replicate (unat (q - nbits)) True"
      using 1(1) [OF True nbits_def w1(1) refl w1(2)] by blast
    have "unat nbits + unat (q - nbits) = unat q"
      using small(2) by (simp add: unat_sub word_le_nat_alt)
    then have "bw_bits w2 = bw_bits w @ replicate (unat q) True"
      using w1(3) w2(3) cast small(1) by (simp add: low_bits_ones [simplified] flip: replicate_add)
    moreover have "golomb_quotient q wrote w = Ok (m, w2)"
      using True w1(1) w2(1) by (subst golomb_quotient.simps) (simp add: Let_def flip: nbits_def)
    ultimately show ?thesis using w2(2) by blast
  qed
qed

lemma golomb_encode_bits:
  assumes "bw_inv w" and "gf_p f < 64"
  obtains wrote w' where "golomb_rice_encode f n w = Ok (wrote, w')" "bw_inv w'" "bw_bits w' = bw_bits w @ golomb_bits f n"
proof -
  have p: "unat (gf_p f) mod 64 = unat (gf_p f)" using assms(2) by (simp add: word_less_nat_alt)
  obtain k1 w1 where w1: "golomb_quotient (drop_bit (unat (gf_p f)) n) 0 w = Ok (k1, w1)" "bw_inv w1"
    "bw_bits w1 = bw_bits w @ replicate (unat (drop_bit (unat (gf_p f)) n)) True"
    using golomb_quotient_bits [OF assms(1)] by blast
  obtain k2 w2 where w2: "bw_write 0 1 w1 = Ok (k2, w2)" "bw_inv w2" "bw_bits w2 = bw_bits w1 @ low_bits (unat (1::u8)) (0 :: u64)"
    by (rule bw_write_bits [OF w1(2), of 1 0]) simp_all
  obtain k3 w3 where w3: "bw_write n (gf_p f) w2 = Ok (k3, w3)" "bw_inv w3" "bw_bits w3 = bw_bits w2 @ low_bits (unat (gf_p f)) n"
    by (rule bw_write_bits [OF w2(2) less_imp_le [OF assms(2)], of n])
  have "bw_bits w3 = bw_bits w @ golomb_bits f n"
    using w1(3) w2(3) w3(3) by (simp add: golomb_bits_def low_bits_def)
  with that w1(1) w2(1) w3(1,2) p show thesis by (simp add: golomb_rice_encode_def)
qed

lemma br_read_1:
  assumes "br_offset r \<le> 8" and "br_bits r = b # rest"
  obtains r' where "br_read 1 r = Ok (of_bool b, r')" "br_offset r' \<le> 8" "br_bits r' = rest"
proof -
  obtain d r' where r': "br_read 1 r = Ok (d, r')" "br_offset r' \<le> 8" "br_bits r' = rest" "carries d [b]"
    by (rule br_read_bits [OF assms(1), of 1 "[b]" rest]) (simp_all add: assms(2))
  have "low_bits 1 (of_bool b :: u64) = [b]" by (cases b) (simp_all add: low_bits_def)
  then have "d = take_bit 1 (of_bool b)" using r'(4) carries_low_bits [of d 1 "of_bool b"] by simp
  then have "d = of_bool b" by (cases b) simp_all
  with r' that show thesis by simp
qed

lemma golomb_ones_bits:
  assumes "br_offset r \<le> 8" and "br_bits r = replicate k True @ False # rest"
  shows "\<exists>r'. golomb_ones q r = Ok (q + word_of_nat k, r') \<and> br_offset r' \<le> 8 \<and> br_bits r' = rest"
  using assms
proof (induction k arbitrary: q r)
  case 0
  then obtain r' where "br_read 1 r = Ok (of_bool False, r')" "br_offset r' \<le> 8" "br_bits r' = rest"
    by (auto elim: br_read_1)
  then show ?case by (simp add: golomb_ones.simps [of q r])
next
  case (Suc k)
  then obtain r' where "br_read 1 r = Ok (of_bool True, r')" "br_offset r' \<le> 8" "br_bits r' = replicate k True @ False # rest"
    by (auto elim: br_read_1)
  with Suc.IH [of r' "q + 1"] show ?case by (simp add: golomb_ones.simps [of q r] ac_simps)
qed

lemma golomb_decode_bits:
  assumes "br_offset r \<le> 8" and "gf_p f < 64" and "br_bits r = golomb_bits f n @ rest"
  obtains r' where "golomb_rice_decode f r = Ok (n, r')" "br_offset r' \<le> 8" "br_bits r' = rest"
proof -
  have p: "unat (gf_p f) mod 64 = unat (gf_p f)" using assms(2) by (simp add: word_less_nat_alt)
  define q where "q = drop_bit (unat (gf_p f)) n"
  have "br_bits r = replicate (unat q) True @ False # low_bits (unat (gf_p f)) n @ rest"
    using assms(3) by (simp add: golomb_bits_def q_def)
  then obtain r1 where r1: "golomb_ones 0 r = Ok (q, r1)" "br_offset r1 \<le> 8" "br_bits r1 = low_bits (unat (gf_p f)) n @ rest"
    using golomb_ones_bits [OF assms(1), of "unat q" "low_bits (unat (gf_p f)) n @ rest" 0] by auto
  obtain d r2 where r2: "br_read (gf_p f) r1 = Ok (d, r2)" "br_offset r2 \<le> 8" "br_bits r2 = rest"
    "carries d (low_bits (unat (gf_p f)) n)"
    by (rule br_read_bits [OF r1(2) less_imp_le [OF assms(2)] r1(3)]) simp
  have "d = take_bit (unat (gf_p f)) n" by (rule carries_low_bits [OF r2(4)])
  then have "push_bit (unat (gf_p f)) q + d = n" by (simp add: q_def bits_ident)
  with that r1(1) r2(1-3) p show thesis by (simp add: golomb_rice_decode_def)
qed

section \<open>Writing and matching Golomb-coded sets\<close>

fun delta_bits :: "gcs_filter \<Rightarrow> u64 \<Rightarrow> u64 list \<Rightarrow> bool list" where
  "delta_bits f prev [] = []"
| "delta_bits f prev (x # xs) = golomb_bits f (x - prev) @ delta_bits f x xs"

lemma write_deltas_bits:
  assumes "bw_inv w" and "gf_p f < 64"
  shows "\<exists>n w'. write_deltas f xs prev wrote w = Ok (n, w') \<and> bw_inv w' \<and> bw_bits w' = bw_bits w @ delta_bits f prev xs"
  using assms(1)
proof (induction xs arbitrary: prev wrote w)
  case (Cons x xs)
  obtain k w1 where w1: "golomb_rice_encode f (x - prev) w = Ok (k, w1)" "bw_inv w1"
    "bw_bits w1 = bw_bits w @ golomb_bits f (x - prev)"
    by (rule golomb_encode_bits [OF Cons.prems assms(2)])
  with Cons.IH [OF w1(2), of x "wrote + k"] show ?case by auto
qed simp

lemma bw_flush_bits:
  assumes "bw_inv w" and "bw_flush w = (n, w')"
  shows "\<exists>pad. concat (map (low_bits 8) (bw_writer w')) = bw_bits w @ pad"
proof -
  have "concat (map (low_bits 8) (bw_writer w')) = bw_bits w @ drop (unat (bw_offset w)) (low_bits 8 (bw_buffer w))
      \<or> concat (map (low_bits 8) (bw_writer w')) = bw_bits w"
    using assms by (auto simp: bw_flush_def bw_bits_def word_less_nat_alt split: if_splits)
  then show ?thesis by auto
qed

lemma low_bits_8_inject: "low_bits 8 (x :: u8) = low_bits 8 y \<Longrightarrow> x = y"
proof (rule bit_word_eqI)
  fix n
  assume eq: "low_bits 8 x = low_bits 8 y" and n: "n < LENGTH(8)"
  then have "low_bits 8 x ! (7 - n) = low_bits 8 y ! (7 - n)" by simp
  with n show "bit x n = bit y n" by simp
qed

lemma byte_bits_prefix:
  "concat (map (low_bits 8) bs) = concat (map (low_bits 8) as) @ X \<Longrightarrow>
   \<exists>ps. bs = as @ ps \<and> concat (map (low_bits 8) ps) = X" for as bs :: "u8 list"
proof (induction "as" arbitrary: bs)
  case (Cons a as')
  then obtain b bs' where bs: "bs = b # bs'" by (cases bs) (auto dest: arg_cong [where f = length])
  have "low_bits 8 b = low_bits 8 a" "concat (map (low_bits 8) bs') = concat (map (low_bits 8) as') @ X"
    using Cons.prems by (simp_all add: bs append_eq_append_conv)
  with Cons.IH [of bs'] show ?case by (simp add: bs low_bits_8_inject)
qed simp

text \<open>The state of a matcher: the last value read, and the values still to come.\<close>

definition at_values :: "gcs_filter \<Rightarrow> u64 \<Rightarrow> u64 list \<Rightarrow> bit_stream_reader \<Rightarrow> bool" where
  "at_values f v vs r \<longleftrightarrow> sorted (v # vs) \<and> br_offset r \<le> 8 \<and> (\<exists>pad. br_bits r = delta_bits f v vs @ pad)"

lemma seek_values:
  assumes "gf_p f < 64" and "at_values f v vs r"
  shows "\<exists>v' vs' r'. seek f x v (length vs) r = Ok (v', length vs', r') \<and> at_values f v' vs' r' \<and>
    (\<forall>y\<ge>x. y \<in> set (v # vs) \<longleftrightarrow> y \<in> set (v' # vs')) \<and> (v' < x \<longrightarrow> vs' = [])"
  using assms(2)
proof (induction vs arbitrary: v r)
  case Nil
  then show ?case by (intro exI [of _ v] exI [of _ "[]"] exI [of _ r]) simp
next
  case (Cons u vs)
  show ?case
  proof (cases "v < x")
    case False
    with Cons.prems show ?thesis by (intro exI [of _ v] exI [of _ "u # vs"] exI [of _ r]) simp
  next
    case True
    from Cons.prems obtain pad where r: "br_offset r \<le> 8" "br_bits r = golomb_bits f (u - v) @ delta_bits f u vs @ pad"
      by (auto simp: at_values_def)
    obtain r1 where r1: "golomb_rice_decode f r = Ok (u - v, r1)" "br_offset r1 \<le> 8" "br_bits r1 = delta_bits f u vs @ pad"
      by (rule golomb_decode_bits [OF r(1) assms(1) r(2)])
    have "at_values f u vs r1" using Cons.prems r1 by (auto simp: at_values_def)
    from Cons.IH [OF this] obtain v' vs' r' where ih: "seek f x u (length vs) r1 = Ok (v', length vs', r')"
      "at_values f v' vs' r'" "\<forall>y\<ge>x. y \<in> set (u # vs) \<longleftrightarrow> y \<in> set (v' # vs')" "v' < x \<longrightarrow> vs' = []"
      by blast
    have "seek f x v (length (u # vs)) r = Ok (v', length vs', r')" using True r1(1) ih(1) by simp
    moreover have "\<forall>y\<ge>x. y \<in> set (v # u # vs) \<longleftrightarrow> y \<in> set (v' # vs')" using True ih(3) by auto
    ultimately show ?thesis using ih(2,4) by blast
  qed
qed

lemma match_any_loop_values:
  assumes "gf_p f < 64" and "at_values f v vs r" and "sorted xs"
  shows "match_any_loop f xs v (length vs) r = Ok (\<exists>x\<in>set xs. x \<in> set (v # vs))"
  using assms(2,3)
proof (induction xs arbitrary: v vs r)
  case (Cons x xs)
  obtain v' vs' r' where s: "seek f x v (length vs) r = Ok (v', length vs', r')" "at_values f v' vs' r'"
    "\<forall>y\<ge>x. y \<in> set (v # vs) \<longleftrightarrow> y \<in> set (v' # vs')" "v' < x \<longrightarrow> vs' = []"
    using seek_values [OF assms(1) Cons.prems(1), of x] by blast
  have later: "\<forall>y\<in>set (x # xs). y \<in> set (v # vs) \<longleftrightarrow> y \<in> set (v' # vs')"
    using s(3) Cons.prems(2) by auto
  have sorted: "\<forall>u\<in>set (v' # vs'). v' \<le> u" using s(2) by (auto simp: at_values_def)
  consider "v' = x" | "v' < x" | "x < v'" by (rule linorder_cases)
  then show ?case
  proof cases
    case 1
    then show ?thesis using s(1) later by auto
  next
    case 2
    then have "\<forall>y\<in>set (x # xs). y \<notin> set (v' # vs')" using s(4) Cons.prems(2) by auto
    then show ?thesis using 2 s(1) later by auto
  next
    case 3
    then have "x \<notin> set (v' # vs')" using sorted by auto
    moreover have "match_any_loop f xs v' (length vs') r' = Ok (\<exists>x\<in>set xs. x \<in> set (v' # vs'))"
      using Cons.IH [OF s(2)] Cons.prems(2) by simp
    ultimately show ?thesis using 3 s(1) later by auto
  qed
qed simp

lemma match_all_loop_values:
  assumes "gf_p f < 64" and "at_values f v vs r" and "sorted xs"
  shows "match_all_loop f xs v (length vs) r = Ok (\<forall>x\<in>set xs. x \<in> set (v # vs))"
  using assms(2,3)
proof (induction xs arbitrary: v vs r)
  case (Cons x xs)
  obtain v' vs' r' where s: "seek f x v (length vs) r = Ok (v', length vs', r')" "at_values f v' vs' r'"
    "\<forall>y\<ge>x. y \<in> set (v # vs) \<longleftrightarrow> y \<in> set (v' # vs')" "v' < x \<longrightarrow> vs' = []"
    using seek_values [OF assms(1) Cons.prems(1), of x] by blast
  have later: "\<forall>y\<in>set (x # xs). y \<in> set (v # vs) \<longleftrightarrow> y \<in> set (v' # vs')"
    using s(3) Cons.prems(2) by auto
  have sorted: "\<forall>u\<in>set (v' # vs'). v' \<le> u" using s(2) by (auto simp: at_values_def)
  show ?case
  proof (cases "v' = x")
    case True
    then show ?thesis using s(1) later Cons.IH [OF s(2)] Cons.prems(2) by auto
  next
    case False
    then have "x \<notin> set (v' # vs')" using sorted s(4) by (cases "v' < x") auto
    then show ?thesis using False s(1) later by auto
  qed
qed simp

text \<open>The values a filter of these elements stores, and the value an element is looked up by.\<close>

definition element_code :: "(u64 \<Rightarrow> u64 \<Rightarrow> u8 list \<Rightarrow> u64) \<Rightarrow> gcs_filter_writer \<Rightarrow> u8 list \<Rightarrow> u64" where
  "element_code sip gw e =
     map_to_range (gf_hash sip (gw_filter gw) e) (word_of_nat (length (gw_elements gw)) * gw_m gw)"

definition element_codes :: "(u64 \<Rightarrow> u64 \<Rightarrow> u8 list \<Rightarrow> u64) \<Rightarrow> gcs_filter_writer \<Rightarrow> u64 list" where
  "element_codes sip gw = sort (map (element_code sip gw) (gw_elements gw))"

lemma gw_finish_bytes:
  assumes "gf_p (gw_filter gw) < 64"
  shows "\<exists>n payload pad. gw_finish sip gw = Ok (n, gw\<lparr>gw_writer := gw_writer gw @
      varint_encode (word_of_nat (length (gw_elements gw))) @ payload\<rparr>) \<and>
    concat (map (low_bits 8) payload) = delta_bits (gw_filter gw) 0 (element_codes sip gw) @ pad"
proof -
  let ?f = "gw_filter gw" and ?count = "varint_encode (word_of_nat (length (gw_elements gw)))"
  let ?w0 = "bw_new (gw_writer gw @ ?count)"
  have w0: "bw_inv ?w0" "bw_bits ?w0 = concat (map (low_bits 8) (gw_writer gw @ ?count))"
    by (simp_all add: bw_new_def bw_inv_def bw_bits_def)
  obtain n w where w: "write_deltas ?f (element_codes sip gw) 0 (length ?count) ?w0 = Ok (n, w)" "bw_inv w"
    "bw_bits w = bw_bits ?w0 @ delta_bits ?f 0 (element_codes sip gw)"
    using write_deltas_bits [OF w0(1) assms] by blast
  obtain m w' where w': "bw_flush w = (m, w')" by (rule prod.exhaust)
  from bw_flush_bits [OF w(2) w'] obtain pad where
    "concat (map (low_bits 8) (bw_writer w')) =
      concat (map (low_bits 8) (gw_writer gw @ ?count)) @ delta_bits ?f 0 (element_codes sip gw) @ pad"
    using w(3) w0(2) by auto
  from byte_bits_prefix [OF this] obtain payload where
    "bw_writer w' = (gw_writer gw @ ?count) @ payload"
    "concat (map (low_bits 8) payload) = delta_bits ?f 0 (element_codes sip gw) @ pad"
    by blast
  moreover have "map_to_range (gf_hash sip ?f e) (word_of_nat (length (gw_elements gw)) * gw_m gw) = element_code sip gw e" for e
    by (simp add: element_code_def)
  ultimately show ?thesis
    using w(1) w'
    by (intro exI [of _ "n + m"] exI [of _ payload] exI [of _ pad])
      (simp add: gw_finish_def Let_def flip: element_codes_def)
qed

text \<open>What a matcher sees before its loop, on a filter that was written.\<close>

lemma filter_prefix:
  assumes p: "gf_p (gw_filter gw) < 64" and len: "length (gw_elements gw) < 2 ^ 64"
    and payload: "concat (map (low_bits 8) payload) = delta_bits (gw_filter gw) 0 (element_codes sip gw) @ pad"
    and ne: "gw_elements gw \<noteq> []"
  shows "\<exists>v vs r. golomb_rice_decode (gw_filter gw) (br_new payload) = Ok (v, r) \<and>
    at_values (gw_filter gw) v vs r \<and> length vs = unat (word_of_nat (length (gw_elements gw)) - 1 :: u64) \<and>
    set (v # vs) = element_code sip gw ` set (gw_elements gw)"
proof -
  obtain v vs where codes: "element_codes sip gw = v # vs"
    using ne by (cases "element_codes sip gw") (auto simp: element_codes_def dest: arg_cong [where f = length])
  have bits: "br_bits (br_new payload) = golomb_bits (gw_filter gw) v @ delta_bits (gw_filter gw) v vs @ pad"
    using payload codes by (simp add: br_bits_def br_new_def)
  have off: "br_offset (br_new payload) \<le> 8" by (simp add: br_new_def)
  obtain r where r: "golomb_rice_decode (gw_filter gw) (br_new payload) = Ok (v, r)" "br_offset r \<le> 8"
    "br_bits r = delta_bits (gw_filter gw) v vs @ pad"
    by (rule golomb_decode_bits [OF off p bits])
  have sorted: "sorted (v # vs)" unfolding codes [symmetric] element_codes_def by simp
  have set: "set (v # vs) = element_code sip gw ` set (gw_elements gw)"
    unfolding codes [symmetric] element_codes_def by simp
  have "Suc (length vs) = length (gw_elements gw)"
    using arg_cong [OF codes, of length] by (simp add: element_codes_def)
  then have "unat (word_of_nat (length (gw_elements gw)) - 1 :: u64) = length vs"
    using len by (simp flip: \<open>Suc _ = _\<close> add: unat_length_u64)
  with r sorted set show ?thesis by (auto simp: at_values_def)
qed

definition reader_of :: "gcs_filter_writer \<Rightarrow> gcs_filter_reader" where
  "reader_of gw = \<lparr>gr_filter = gw_filter gw, gr_m = gw_m gw\<rparr>"

lemma gcs_match_any:
  assumes "gf_p (gw_filter gw) < 64" and "length (gw_elements gw) < 2 ^ 64" and "gw_writer gw = []"
    and "gw_finish sip gw = Ok (n, gw')"
  shows "gr_match_any sip (reader_of gw) (gw_writer gw') query =
    Ok (\<exists>q\<in>set query. element_code sip gw q \<in> element_code sip gw ` set (gw_elements gw))"
proof -
  obtain payload pad where out: "gw_writer gw' = varint_encode (word_of_nat (length (gw_elements gw))) @ payload"
    "concat (map (low_bits 8) payload) = delta_bits (gw_filter gw) 0 (element_codes sip gw) @ pad"
    using gw_finish_bytes [OF assms(1), of sip] assms(3,4) by auto
  have count: "read_n_elements (gw_writer gw') = (word_of_nat (length (gw_elements gw)), payload)"
    by (simp add: read_n_elements_def out(1) varint_round_trip)
  have code: "map_to_range (gf_hash sip (gw_filter gw) e) (word_of_nat (length (gw_elements gw)) * gw_m gw) = element_code sip gw e" for e
    by (simp add: element_code_def)
  show ?thesis
  proof (cases "gw_elements gw = [] \<or> query = []")
    case True
    then show ?thesis by (auto simp: gr_match_any_def count reader_of_def)
  next
    case False
    then obtain v vs r where v: "golomb_rice_decode (gw_filter gw) (br_new payload) = Ok (v, r)"
      "at_values (gw_filter gw) v vs r" "length vs = unat (word_of_nat (length (gw_elements gw)) - 1 :: u64)"
      "set (v # vs) = element_code sip gw ` set (gw_elements gw)"
      using filter_prefix [OF assms(1,2) out(2)] by blast
    have "(word_of_nat (length (gw_elements gw)) :: u64) \<noteq> 0"
      using False unat_length_u64 [OF assms(2)] by (metis length_0_conv unat_0)
    moreover have "match_any_loop (gw_filter gw) (sort (map (element_code sip gw) query)) v (length vs) r =
        Ok (\<exists>q\<in>set query. element_code sip gw q \<in> element_code sip gw ` set (gw_elements gw))"
      using match_any_loop_values [OF assms(1) v(2), of "sort (map (element_code sip gw) query)", unfolded v(4)]
      by (simp)
    ultimately show ?thesis
      using False v(1,3) by (simp add: gr_match_any_def count reader_of_def code)
  qed
qed

lemma gcs_match_all:
  assumes "gf_p (gw_filter gw) < 64" and "length (gw_elements gw) < 2 ^ 64" and "gw_writer gw = []"
    and "gw_finish sip gw = Ok (n, gw')"
  shows "gr_match_all sip (reader_of gw) (gw_writer gw') query =
    Ok (\<forall>q\<in>set query. element_code sip gw q \<in> element_code sip gw ` set (gw_elements gw))"
proof -
  obtain payload pad where out: "gw_writer gw' = varint_encode (word_of_nat (length (gw_elements gw))) @ payload"
    "concat (map (low_bits 8) payload) = delta_bits (gw_filter gw) 0 (element_codes sip gw) @ pad"
    using gw_finish_bytes [OF assms(1), of sip] assms(3,4) by auto
  have count: "read_n_elements (gw_writer gw') = (word_of_nat (length (gw_elements gw)), payload)"
    by (simp add: read_n_elements_def out(1) varint_round_trip)
  have code: "map_to_range (gf_hash sip (gw_filter gw) e) (word_of_nat (length (gw_elements gw)) * gw_m gw) = element_code sip gw e" for e
    by (simp add: element_code_def)
  show ?thesis
  proof (cases "gw_elements gw = [] \<or> query = []")
    case True
    then show ?thesis by (auto simp: gr_match_all_def count reader_of_def neq_Nil_conv Let_def)
  next
    case False
    then obtain v vs r where v: "golomb_rice_decode (gw_filter gw) (br_new payload) = Ok (v, r)"
      "at_values (gw_filter gw) v vs r" "length vs = unat (word_of_nat (length (gw_elements gw)) - 1 :: u64)"
      "set (v # vs) = element_code sip gw ` set (gw_elements gw)"
      using filter_prefix [OF assms(1,2) out(2)] by blast
    have "(word_of_nat (length (gw_elements gw)) :: u64) \<noteq> 0"
      using False unat_length_u64 [OF assms(2)] by (metis length_0_conv unat_0)
    moreover have "match_all_loop (gw_filter gw) (remdups_adj (sort (map (element_code sip gw) query))) v (length vs) r =
        Ok (\<forall>q\<in>set query. element_code sip gw q \<in> element_code sip gw ` set (gw_elements gw))"
      using match_all_loop_values [OF assms(1) v(2), of "remdups_adj (sort (map (element_code sip gw) query))", unfolded v(4)]
      by (simp add: sorted_remdups_adj)
    ultimately show ?thesis
      using False v(1,3) by (simp add: gr_match_all_def count reader_of_def code Let_def)
  qed
qed

text \<open>
  C18: with a Golomb-Rice parameter below 64, where no shift by it overflows, writing a Golomb-coded
  set succeeds for any elements, and matching the written bytes succeeds and is exact for the coded
  values: a query matches any (all) exactly when one (each) of its items has the code of a stored
  element. In particular a stored element is never missed.
\<close>

theorem gcs_filter_exact:
  assumes "gf_p (gw_filter gw) < 64" and "length (gw_elements gw) < 2 ^ 64" and "gw_writer gw = []"
  shows "\<exists>n gw'. gw_finish sip gw = Ok (n, gw') \<and> (\<forall>query.
    gr_match_any sip (reader_of gw) (gw_writer gw') query =
      Ok (\<exists>q\<in>set query. element_code sip gw q \<in> element_code sip gw ` set (gw_elements gw)) \<and>
    gr_match_all sip (reader_of gw) (gw_writer gw') query =
      Ok (\<forall>q\<in>set query. element_code sip gw q \<in> element_code sip gw ` set (gw_elements gw)))"
proof -
  obtain n gw' where "gw_finish sip gw = Ok (n, gw')" using gw_finish_bytes [OF assms(1)] by blast
  with gcs_match_any [OF assms this] gcs_match_all [OF assms this] show ?thesis by blast
qed

definition sample_sip :: "u64 \<Rightarrow> u64 \<Rightarrow> u8 list \<Rightarrow> u64" where
  "sample_sip k0 k1 data = k0 + k1 * fold (\<lambda>b acc. acc * 0x123456789ABCDEF + ucast b) data 1"

definition sample_gw :: gcs_filter_writer where
  "sample_gw = gw_add_element [3, 4] (gw_add_element [] (gw_add_element [1, 2] (gw_new [] 5 7 BF_M BF_P)))"

theorem gcs_filter_exact_witness:
  "\<exists>n gw'. gw_finish sample_sip sample_gw = Ok (n, gw') \<and>
    gr_match_any sample_sip (reader_of sample_gw) (gw_writer gw') [[9], [3, 4]] = Ok True \<and>
    gr_match_all sample_sip (reader_of sample_gw) (gw_writer gw') [[3, 4], [1, 2]] = Ok True"
proof -
  have "gf_p (gw_filter sample_gw) < 64" "length (gw_elements sample_gw) < 2 ^ 64" "gw_writer sample_gw = []"
    "set (gw_elements sample_gw) = {[1, 2], [3, 4]}"
    by (auto simp: sample_gw_def gw_add_element_def gw_new_def BF_P_def insort_insert_key_def)
  with gcs_filter_exact [of sample_gw sample_sip] show ?thesis by auto
qed

end
