(* ===== verification/Download_Coordinator.thy ===== *)
theory Download_Coordinator
  imports Prelude
begin

text \<open>
  The generic download coordinator of the sync pipelines,
  \<open>src/dash-spv/src/sync/download_coordinator.rs\<close>: a queue of pending keys, the keys in
  flight with the time they were sent, the reorg generation each was sent under, and a retry
  count per key. Every operation of the \<open>impl\<close> block is a definition here; the invariant
  \<open>dc_inv\<close> holds of every reachable coordinator, and the laws the pipelines rely on are the
  locale \<open>download_queue\<close>, interpreted on these definitions at the end.
\<close>

section \<open>State\<close>

record download_config =
  max_concurrent :: nat
  timeout :: duration

record 'k coordinator =
  dc_pending :: "'k list"
  dc_in_flight :: "('k, instant) hash_map"
  dc_generations :: "('k, u64) hash_map"
  dc_retry_counts :: "('k, u32) hash_map"
  dc_config :: download_config
  dc_last_progress :: instant

text \<open>Durations are counted in milliseconds.\<close>

definition default_config :: download_config where
  "default_config = \<lparr>max_concurrent = 10, timeout = 30000\<rparr>"

definition with_max_concurrent :: "nat \<Rightarrow> download_config \<Rightarrow> download_config" where
  "with_max_concurrent m cfg = cfg\<lparr>max_concurrent := m\<rparr>"

definition with_timeout :: "duration \<Rightarrow> download_config \<Rightarrow> download_config" where
  "with_timeout t cfg = cfg\<lparr>timeout := t\<rparr>"

definition dc_new :: "download_config \<Rightarrow> instant \<Rightarrow> 'k coordinator" where
  "dc_new cfg now =
     \<lparr>dc_pending = [], dc_in_flight = [], dc_generations = [], dc_retry_counts = [], dc_config = cfg,
      dc_last_progress = now\<rparr>"

section \<open>Operations\<close>

definition dc_clear :: "instant \<Rightarrow> 'k coordinator \<Rightarrow> 'k coordinator" where
  "dc_clear now c =
     c\<lparr>dc_pending := [], dc_in_flight := [], dc_generations := [], dc_retry_counts := [],
       dc_last_progress := now\<rparr>"

definition dc_push_front :: "'k \<Rightarrow> 'k coordinator \<Rightarrow> 'k coordinator" where
  "dc_push_front k c = c\<lparr>dc_pending := k # dc_pending c\<rparr>"

definition dc_push_back :: "'k \<Rightarrow> 'k coordinator \<Rightarrow> 'k coordinator" where
  "dc_push_back k c = c\<lparr>dc_pending := dc_pending c @ [k]\<rparr>"

definition dc_requeue_in_flight :: "'k coordinator \<Rightarrow> 'k coordinator" where
  "dc_requeue_in_flight c =
     (let items = hm_keys (dc_in_flight c); c1 = c\<lparr>dc_in_flight := []\<rparr> in
      if items = [] then c1
      else
        let c2 = c1\<lparr>dc_generations := fold hm_remove items (dc_generations c1)\<rparr> in
        fold dc_push_front (rev items) c2)"

definition dc_enqueue :: "'k list \<Rightarrow> 'k coordinator \<Rightarrow> 'k coordinator" where
  "dc_enqueue items c = fold dc_push_back items c"

definition dc_enqueue_retry :: "'k \<Rightarrow> 'k coordinator \<Rightarrow> 'k coordinator" where
  "dc_enqueue_retry item c =
     (let count = (case hm_get (dc_retry_counts c) item of None \<Rightarrow> 0 | Some n \<Rightarrow> n) + 1 in
      dc_push_front item (c\<lparr>dc_retry_counts := hm_insert item count (dc_retry_counts c)\<rparr>))"

definition dc_available_to_send :: "'k coordinator \<Rightarrow> nat" where
  "dc_available_to_send c =
     min (max_concurrent (dc_config c) - length (dc_in_flight c)) (length (dc_pending c))"

definition dc_take_pending :: "nat \<Rightarrow> 'k coordinator \<Rightarrow> 'k list \<times> 'k coordinator" where
  "dc_take_pending count c =
     (let actual = min count (length (dc_pending c)) in
      (take actual (dc_pending c), c\<lparr>dc_pending := drop actual (dc_pending c)\<rparr>))"

definition dc_mark_sent :: "instant \<Rightarrow> 'k list \<Rightarrow> 'k coordinator \<Rightarrow> 'k coordinator" where
  "dc_mark_sent now items c =
     c\<lparr>dc_in_flight := fold (\<lambda>item. hm_insert item now) items (dc_in_flight c)\<rparr>"

definition dc_mark_sent_with_generation ::
  "instant \<Rightarrow> 'k list \<Rightarrow> u64 \<Rightarrow> 'k coordinator \<Rightarrow> 'k coordinator" where
  "dc_mark_sent_with_generation now items g c =
     c\<lparr>dc_in_flight := fold (\<lambda>item. hm_insert item now) items (dc_in_flight c),
       dc_generations := fold (\<lambda>item. hm_insert item g) items (dc_generations c)\<rparr>"

definition dc_generation_for :: "'k coordinator \<Rightarrow> 'k \<Rightarrow> u64 option" where
  "dc_generation_for c k = hm_get (dc_generations c) k"

definition dc_receive :: "instant \<Rightarrow> 'k \<Rightarrow> 'k coordinator \<Rightarrow> bool \<times> 'k coordinator" where
  "dc_receive now k c =
     (if hm_contains (dc_in_flight c) k then
        (True,
         c\<lparr>dc_in_flight := hm_remove k (dc_in_flight c), dc_generations := hm_remove k (dc_generations c),
           dc_retry_counts := hm_remove k (dc_retry_counts c), dc_last_progress := now\<rparr>)
      else (False, c))"

definition dc_cancel_pending :: "'k \<Rightarrow> 'k coordinator \<Rightarrow> 'k coordinator" where
  "dc_cancel_pending k c =
     c\<lparr>dc_pending := filter (\<lambda>x. x \<noteq> k) (dc_pending c), dc_retry_counts := hm_remove k (dc_retry_counts c),
       dc_generations := hm_remove k (dc_generations c)\<rparr>"

definition dc_is_in_flight :: "'k coordinator \<Rightarrow> 'k \<Rightarrow> bool" where
  "dc_is_in_flight c k = hm_contains (dc_in_flight c) k"

definition dc_check_timeouts :: "instant \<Rightarrow> 'k coordinator \<Rightarrow> 'k list \<times> 'k coordinator" where
  "dc_check_timeouts now c =
     (let timed_out = hm_keys (filter (\<lambda>(_, sent). timeout (dc_config c) < now - sent) (dc_in_flight c)) in
      (timed_out,
       c\<lparr>dc_in_flight := fold hm_remove timed_out (dc_in_flight c),
         dc_generations := fold hm_remove timed_out (dc_generations c)\<rparr>))"

definition dc_check_and_retry_timeouts :: "instant \<Rightarrow> 'k coordinator \<Rightarrow> 'k list \<times> 'k coordinator" where
  "dc_check_and_retry_timeouts now c =
     (let (timed_out, c') = dc_check_timeouts now c in (timed_out, fold dc_enqueue_retry timed_out c'))"

definition dc_is_empty :: "'k coordinator \<Rightarrow> bool" where
  "dc_is_empty c \<longleftrightarrow> dc_pending c = [] \<and> dc_in_flight c = []"

definition dc_pending_count :: "'k coordinator \<Rightarrow> nat" where
  "dc_pending_count c = length (dc_pending c)"

definition dc_active_count :: "'k coordinator \<Rightarrow> nat" where
  "dc_active_count c = length (dc_in_flight c)"

definition dc_remaining :: "'k coordinator \<Rightarrow> nat" where
  "dc_remaining c = length (dc_pending c) + length (dc_in_flight c)"

section \<open>Loops in closed form\<close>

lemma fold_push_front: "fold dc_push_front ks c = c\<lparr>dc_pending := rev ks @ dc_pending c\<rparr>"
  by (induction ks arbitrary: c) (simp_all add: dc_push_front_def)

lemma dc_enqueue_eq: "dc_enqueue ks c = c\<lparr>dc_pending := dc_pending c @ ks\<rparr>"
  unfolding dc_enqueue_def by (induction ks arbitrary: c) (simp_all add: dc_push_back_def)

lemma dc_requeue_eq:
  "dc_requeue_in_flight c =
     c\<lparr>dc_pending := hm_keys (dc_in_flight c) @ dc_pending c, dc_in_flight := [],
       dc_generations := fold hm_remove (hm_keys (dc_in_flight c)) (dc_generations c)\<rparr>"
  by (auto simp: dc_requeue_in_flight_def fold_push_front Let_def)

lemma dc_enqueue_retry_pending [simp]: "dc_pending (dc_enqueue_retry k c) = k # dc_pending c"
  by (simp add: dc_enqueue_retry_def dc_push_front_def)

lemma dc_enqueue_retry_frame [simp]:
  "dc_in_flight (dc_enqueue_retry k c) = dc_in_flight c"
  "dc_generations (dc_enqueue_retry k c) = dc_generations c"
  "dc_config (dc_enqueue_retry k c) = dc_config c"
  "dc_last_progress (dc_enqueue_retry k c) = dc_last_progress c"
  by (simp_all add: dc_enqueue_retry_def dc_push_front_def)

lemma fold_enqueue_retry_pending: "dc_pending (fold dc_enqueue_retry ks c) = rev ks @ dc_pending c"
  by (induction ks arbitrary: c) simp_all

lemma fold_enqueue_retry_frame [simp]:
  "dc_in_flight (fold dc_enqueue_retry ks c) = dc_in_flight c"
  "dc_generations (fold dc_enqueue_retry ks c) = dc_generations c"
  "dc_config (fold dc_enqueue_retry ks c) = dc_config c"
  by (induction ks arbitrary: c) simp_all

section \<open>Invariant\<close>

text \<open>
  The maps have one entry per key, and a generation is recorded only for a key in flight: a
  response is checked against the generation its own request was sent under.
\<close>

definition dc_inv :: "'k coordinator \<Rightarrow> bool" where
  "dc_inv c \<longleftrightarrow>
     hm_ok (dc_in_flight c) \<and> hm_ok (dc_generations c) \<and> hm_ok (dc_retry_counts c) \<and>
     fst ` set (dc_generations c) \<subseteq> fst ` set (dc_in_flight c)"

lemma hm_ok_insert_all: "hm_ok m \<Longrightarrow> hm_ok (fold (\<lambda>k. hm_insert k v) ks m)"
  by (rule hm.ok_ins_all)

lemma hm_ok_remove_all: "hm_ok m \<Longrightarrow> hm_ok (fold hm_remove ks m)"
  by (rule hm.ok_del_all)

lemmas hm_ok_intros = hm_ok_insert_all hm_ok_remove_all distinct_update distinct_delete

lemma dc_inv_new: "dc_inv (dc_new cfg now)"
  by (simp add: dc_inv_def dc_new_def)

lemma dc_inv_clear: "dc_inv (dc_clear now c)"
  by (simp add: dc_inv_def dc_clear_def)

lemma dc_inv_enqueue: "dc_inv c \<Longrightarrow> dc_inv (dc_enqueue ks c)"
  by (simp add: dc_inv_def dc_enqueue_eq)

lemma dc_inv_enqueue_retry: "dc_inv c \<Longrightarrow> dc_inv (dc_enqueue_retry k c)"
  by (simp add: dc_inv_def) (simp add: dc_enqueue_retry_def dc_push_front_def distinct_update)

lemma dc_inv_fold_enqueue_retry: "dc_inv c \<Longrightarrow> dc_inv (fold dc_enqueue_retry ks c)"
  by (induction ks arbitrary: c) (simp_all add: dc_inv_enqueue_retry)

lemma dc_inv_requeue: "dc_inv c \<Longrightarrow> dc_inv (dc_requeue_in_flight c)"
  by (auto simp: dc_inv_def dc_requeue_eq hm_keys_remove_all intro: hm_ok_intros)

lemma dc_inv_take_pending: "dc_inv c \<Longrightarrow> dc_inv (snd (dc_take_pending n c))"
  by (simp add: dc_inv_def dc_take_pending_def Let_def)

lemma dc_inv_mark_sent: "dc_inv c \<Longrightarrow> dc_inv (dc_mark_sent now ks c)"
  by (auto simp: dc_inv_def dc_mark_sent_def hm_keys_insert_all intro: hm_ok_intros)

lemma dc_inv_mark_sent_with_generation:
  "dc_inv c \<Longrightarrow> dc_inv (dc_mark_sent_with_generation now ks g c)"
  by (auto simp: dc_inv_def dc_mark_sent_with_generation_def hm_keys_insert_all intro: hm_ok_intros)

lemma dc_inv_receive: "dc_inv c \<Longrightarrow> dc_inv (snd (dc_receive now k c))"
  by (auto simp: dc_inv_def dc_receive_def hm_keys_remove intro: hm_ok_intros)

lemma dc_inv_cancel_pending: "dc_inv c \<Longrightarrow> dc_inv (dc_cancel_pending k c)"
  by (auto simp: dc_inv_def dc_cancel_pending_def hm_keys_remove intro: hm_ok_intros)

lemma dc_inv_check_timeouts: "dc_inv c \<Longrightarrow> dc_inv (snd (dc_check_timeouts now c))"
  by (auto simp: dc_inv_def dc_check_timeouts_def Let_def hm_keys_remove_all intro: hm_ok_intros)

lemma dc_inv_check_and_retry:
  "dc_inv c \<Longrightarrow> dc_inv (snd (dc_check_and_retry_timeouts now c))"
  using dc_inv_check_timeouts [of c now]
  by (simp add: dc_check_and_retry_timeouts_def split_beta dc_inv_fold_enqueue_retry)

lemmas dc_inv_ops = dc_inv_clear dc_inv_enqueue dc_inv_enqueue_retry dc_inv_requeue
  dc_inv_take_pending dc_inv_mark_sent dc_inv_mark_sent_with_generation dc_inv_receive
  dc_inv_cancel_pending dc_inv_check_timeouts dc_inv_check_and_retry

section \<open>What is still wanted\<close>

text \<open>A key is wanted while it waits in the queue or is in flight.\<close>

definition dc_wanted :: "'k coordinator \<Rightarrow> 'k set" where
  "dc_wanted c = set (dc_pending c) \<union> fst ` set (dc_in_flight c)"

lemma dc_wanted_new [simp]: "dc_wanted (dc_new cfg now) = {}"
  by (simp add: dc_wanted_def dc_new_def)

lemma dc_wanted_clear [simp]: "dc_wanted (dc_clear now c) = {}"
  by (simp add: dc_wanted_def dc_clear_def)

lemma dc_wanted_enqueue [simp]: "dc_wanted (dc_enqueue ks c) = dc_wanted c \<union> set ks"
  by (auto simp: dc_wanted_def dc_enqueue_eq)

lemma dc_wanted_enqueue_retry [simp]: "dc_wanted (dc_enqueue_retry k c) = insert k (dc_wanted c)"
  by (auto simp: dc_wanted_def)

lemma dc_wanted_requeue [simp]: "dc_wanted (dc_requeue_in_flight c) = dc_wanted c"
  by (auto simp: dc_wanted_def dc_requeue_eq)

lemma dc_wanted_mark_sent:
  "dc_wanted (dc_mark_sent now ks c) = dc_wanted c \<union> set ks"
  by (auto simp: dc_wanted_def dc_mark_sent_def hm_keys_insert_all)

lemma dc_wanted_mark_sent_with_generation:
  "dc_wanted (dc_mark_sent_with_generation now ks g c) = dc_wanted c \<union> set ks"
  by (auto simp: dc_wanted_def dc_mark_sent_with_generation_def hm_keys_insert_all)

lemma dc_wanted_take_pending:
  "dc_take_pending n c = (ks, c') \<Longrightarrow> dc_wanted c = set ks \<union> dc_wanted c'"
  using set_append [of "take n (dc_pending c)" "drop n (dc_pending c)"]
  by (auto simp: dc_wanted_def dc_take_pending_def Let_def min_def simp del: set_append
      split: if_splits)

lemma dc_wanted_receive:
  "dc_wanted c - {k} \<subseteq> dc_wanted (snd (dc_receive now k c))"
  "dc_wanted (snd (dc_receive now k c)) \<subseteq> dc_wanted c"
  by (auto simp: dc_wanted_def dc_receive_def hm_keys_remove)

lemma dc_wanted_cancel_pending:
  "dc_wanted (dc_cancel_pending k c) = set (dc_pending c) - {k} \<union> fst ` set (dc_in_flight c)"
  by (auto simp: dc_wanted_def dc_cancel_pending_def)

lemma timed_out_in_flight: "set (fst (dc_check_timeouts now c)) \<subseteq> fst ` set (dc_in_flight c)"
  by (auto simp: dc_check_timeouts_def Let_def image_iff)

lemma dc_wanted_check_and_retry [simp]:
  "dc_wanted (snd (dc_check_and_retry_timeouts now c)) = dc_wanted c"
  using timed_out_in_flight [of now c]
  by (auto simp: dc_wanted_def dc_check_and_retry_timeouts_def fold_enqueue_retry_pending
      dc_check_timeouts_def Let_def hm_keys_remove_all)

section \<open>The coordinator as a state machine\<close>

text \<open>
  The steps a pipeline takes on its coordinator. Sending is not one step: the pipeline takes at
  most \<open>dc_available_to_send\<close> keys from the queue, holds them while it sends the requests, and
  marks each key sent once its request is out, or puts it back; when a send fails it returns early
  and drops the keys it still holds. The pipelines for filters, filter headers and headers hold the
  keys that timed out in the same way, and queue each again. The state is the list of keys held
  together with the coordinator, and a pipeline takes new keys only when it holds none. The label is the set of
  keys the step gives up: the key a response arrived for, the key that was cancelled, the keys
  held when a send failed, or everything on a reset.
\<close>

type_synonym 'k held_state = "'k list \<times> 'k coordinator"

inductive dc_step :: "'k held_state \<Rightarrow> 'k set \<Rightarrow> 'k held_state \<Rightarrow> bool" where
  step_enqueue: "dc_step (held, c) {} (held, dc_enqueue ks c)"
| step_take: "dc_take_pending n c = (ks, c') \<Longrightarrow> n \<le> dc_available_to_send c \<Longrightarrow>
    dc_step ([], c) {} (ks, c')"
| step_mark: "dc_step (ks @ held, c) {} (held, dc_mark_sent_with_generation now ks g c)"
| step_mark_untagged: "dc_step (ks @ held, c) {} (held, dc_mark_sent now ks c)"
| step_put_back: "dc_step (k # held, c) {} (held, dc_enqueue [k] c)"
| step_send_failed: "dc_step (held, c) (set held) ([], c)"
| step_receive: "dc_step (held, c) {k} (held, snd (dc_receive now k c))"
| step_cancel: "dc_step (held, c) {k} (held, dc_cancel_pending k c)"
| step_timeouts: "dc_step (held, c) {} (held, snd (dc_check_and_retry_timeouts now c))"
| step_check_timeouts: "dc_check_timeouts now c = (ks, c') \<Longrightarrow> dc_step (held, c) {} (ks @ held, c')"
| step_retry: "dc_step (k # held, c) {} (held, dc_enqueue_retry k c)"
| step_requeue: "dc_step (held, c) {} (held, dc_requeue_in_flight c)"
| step_clear: "dc_step (held, c) UNIV ([], dc_clear now c)"

inductive dc_steps :: "'k held_state \<Rightarrow> 'k set \<Rightarrow> 'k held_state \<Rightarrow> bool" where
  steps_refl: "dc_steps s {} s"
| steps_step: "dc_steps s R s' \<Longrightarrow> dc_step s' G s'' \<Longrightarrow> dc_steps s (R \<union> G) s''"

text \<open>
  The segments of the header pipeline also mark a key sent that was never queued, without regard
  to the limit.
\<close>

inductive dc_calls :: "'k held_state \<Rightarrow> 'k set \<Rightarrow> 'k held_state \<Rightarrow> bool" where
  calls_refl: "dc_calls s {} s"
| calls_step: "dc_calls s R s' \<Longrightarrow> dc_step s' G s'' \<Longrightarrow> dc_calls s (R \<union> G) s''"
| calls_mark: "dc_calls s R (held, c) \<Longrightarrow> dc_calls s R (held, dc_mark_sent now ks c)"

lemmas dc_step_induct = dc_step.induct [split_format (complete)]

lemmas dc_steps_induct = dc_steps.induct [split_format (complete)]

lemmas dc_calls_induct = dc_calls.induct [split_format (complete)]

lemma length_insert_all:
  "length (fold (\<lambda>k. hm_insert k v) ks m) \<le> length ks + length m"
proof (induction ks arbitrary: m)
  case (Cons k ks)
  from Cons.IH [of "hm_insert k v m"] show ?case
    by (simp add: hm_length_insert split: if_splits)
qed simp

lemma length_remove_all: "length (fold hm_remove ks m) \<le> length m"
proof (induction ks arbitrary: m)
  case (Cons k ks)
  from Cons.IH [of "hm_remove k m"] show ?case
    using length_delete_le [of k m] by simp
qed simp

lemma fold_remove_filter: "fold hm_remove ks m = filter (\<lambda>p. fst p \<notin> set ks) m"
proof (induction ks arbitrary: m)
  case (Cons k ks)
  from Cons.IH [of "hm_remove k m"] show ?case by (auto simp: AList.delete_eq intro: filter_cong)
qed simp

text \<open>Every request that timed out leaves the ones in flight.\<close>

lemma dc_check_timeouts_room:
  assumes "dc_check_timeouts now c = (ks, c')"
  shows "length ks + length (dc_in_flight c') \<le> length (dc_in_flight c)"
proof -
  define late where "late = (\<lambda>(_ :: 'a, sent). timeout (dc_config c) < now - sent)"
  have ks: "ks = map fst (filter late (dc_in_flight c))" "dc_in_flight c' = fold hm_remove ks (dc_in_flight c)"
    using assms by (auto simp: dc_check_timeouts_def Let_def late_def)
  have "p \<in> set (dc_in_flight c) \<Longrightarrow> fst p \<notin> set ks \<Longrightarrow> \<not> late p" for p by (auto simp: ks(1))
  then have "filter (\<lambda>p. fst p \<notin> set ks) (dc_in_flight c) =
      filter (\<lambda>p. fst p \<notin> set ks) (filter (\<lambda>p. \<not> late p) (dc_in_flight c))"
    by (auto intro: filter_cong)
  then have "length (dc_in_flight c') \<le> length (filter (\<lambda>p. \<not> late p) (dc_in_flight c))"
    by (simp only: ks(2) fold_remove_filter length_filter_le)
  then show ?thesis using sum_length_filter_compl [of late "dc_in_flight c"] by (simp add: ks(1))
qed

lemma dc_wanted_check_timeouts: "dc_check_timeouts now c = (ks, c') \<Longrightarrow> dc_wanted c \<subseteq> dc_wanted c' \<union> set ks"
  by (force simp: dc_wanted_def dc_check_timeouts_def Let_def hm_keys_remove_all)

lemma dc_take_room:
  assumes "dc_take_pending n c = (ks, c')" and "n \<le> dc_available_to_send c"
  shows "length ks \<le> max_concurrent (dc_config c) - length (dc_in_flight c)" "dc_in_flight c' = dc_in_flight c"
  using assms by (auto simp: dc_take_pending_def dc_available_to_send_def Let_def)

lemma dc_step_inv: "dc_step (h, c) R (h', c') \<Longrightarrow> dc_inv c \<Longrightarrow> dc_inv c'"
proof (induction rule: dc_step_induct)
  case (step_take n c ks c')
  then show ?case using dc_inv_take_pending [of c n] by simp
next
  case (step_check_timeouts now c ks c' held)
  then show ?case using dc_inv_check_timeouts [of c now] by simp
qed (auto intro: dc_inv_ops dc_inv_enqueue_retry)

lemma dc_config_ops [simp]:
  "dc_config (dc_enqueue ks c) = dc_config c"
  "dc_config (snd (dc_take_pending n c)) = dc_config c"
  "dc_config (dc_mark_sent_with_generation now ks g c) = dc_config c"
  "dc_config (dc_mark_sent now ks c) = dc_config c"
  "dc_config (snd (dc_receive now k c)) = dc_config c"
  "dc_config (dc_cancel_pending k c) = dc_config c"
  "dc_config (snd (dc_check_and_retry_timeouts now c)) = dc_config c"
  "dc_config (dc_requeue_in_flight c) = dc_config c"
  "dc_config (dc_clear now c) = dc_config c"
  by (simp_all add: dc_enqueue_eq dc_requeue_eq dc_clear_def dc_receive_def dc_cancel_pending_def
      dc_check_and_retry_timeouts_def dc_check_timeouts_def dc_take_pending_def
      dc_mark_sent_with_generation_def dc_mark_sent_def Let_def)

lemma dc_step_config: "dc_step (h, c) R (h', c') \<Longrightarrow> dc_config c' = dc_config c"
proof (induction rule: dc_step_induct)
  case (step_take n c ks c')
  then show ?case using dc_config_ops(2) [of n c] by simp
next
  case (step_check_timeouts now c ks c' held)
  then show ?case by (auto simp: dc_check_timeouts_def Let_def)
qed simp_all

text \<open>The keys held count against the limit.\<close>

lemma dc_step_bound:
  assumes "dc_step (h, c) R (h', c')" and "length h + length (dc_in_flight c) \<le> max_concurrent (dc_config c)"
  shows "length h' + length (dc_in_flight c') \<le> max_concurrent (dc_config c)"
  using assms
proof (induction rule: dc_step_induct)
  case (step_take n c ks c')
  then show ?case using dc_take_room [OF step_take(1,2)] by simp
next
  case (step_mark ks held c now g)
  then show ?case
    using length_insert_all [of now ks "dc_in_flight c"] by (simp add: dc_mark_sent_with_generation_def)
next
  case (step_mark_untagged ks held c now)
  then show ?case using length_insert_all [of now ks "dc_in_flight c"] by (simp add: dc_mark_sent_def)
next
  case (step_receive held c k now)
  then show ?case
    using length_delete_le [of k "dc_in_flight c"] by (simp add: dc_receive_def)
next
  case (step_timeouts held c now)
  then show ?case
    using length_remove_all [of "fst (dc_check_timeouts now c)" "dc_in_flight c"]
    by (simp add: dc_check_and_retry_timeouts_def dc_check_timeouts_def Let_def)
next
  case (step_check_timeouts now c ks c' held)
  then show ?case using dc_check_timeouts_room [OF step_check_timeouts(1)] by simp
qed (simp_all add: dc_enqueue_eq dc_requeue_eq dc_clear_def dc_cancel_pending_def)

lemma dc_step_wanted:
  "dc_step (h, c) R (h', c') \<Longrightarrow> dc_wanted c \<union> set h - R \<subseteq> dc_wanted c' \<union> set h'"
proof (induction rule: dc_step_induct)
  case (step_take n c ks c')
  then show ?case using dc_wanted_take_pending [of n c ks c'] by auto
next
  case (step_receive held c k now)
  then show ?case using dc_wanted_receive(1) [of c k now] by auto
next
  case (step_cancel held c k)
  then show ?case by (auto simp: dc_wanted_def dc_cancel_pending_def)
next
  case (step_check_timeouts now c ks c' held)
  then show ?case using dc_wanted_check_timeouts [of now c ks c'] by auto
qed (auto simp: dc_wanted_mark_sent dc_wanted_mark_sent_with_generation)

lemma dc_steps_inv: "dc_steps (h, c) R (h', c') \<Longrightarrow> dc_inv c \<Longrightarrow> dc_inv c'"
  by (induction rule: dc_steps_induct) (auto intro: dc_step_inv)

lemma dc_steps_bound:
  "dc_steps (h, c) R (h', c') \<Longrightarrow> length h + length (dc_in_flight c) \<le> max_concurrent (dc_config c) \<Longrightarrow>
     length h' + length (dc_in_flight c') \<le> max_concurrent (dc_config c) \<and> dc_config c' = dc_config c"
proof (induction rule: dc_steps_induct)
  case (steps_step h c R h' c' G h'' c'')
  then show ?case using dc_step_bound [of h' c' G h'' c''] dc_step_config [of h' c' G h'' c''] by simp
qed simp

text \<open>
  C1: What makes a pipeline lose an item. A key that is queued, in flight or held by the pipeline
  between taking and marking stays one of these along every sequence of calls that does not give
  that key up. A key is given up in four ways only: a response for it arrives, it is cancelled,
  the coordinator is cleared, or a send fails while the pipeline holds the key. Timeouts,
  retries, disconnects, partial sends, keys put back and keys marked without having been queued
  lose nothing.
\<close>

theorem dc_no_item_lost:
  assumes "dc_calls (h, c) R (h', c')" and "k \<in> dc_wanted c \<union> set h" and "k \<notin> R"
  shows "k \<in> dc_wanted c' \<union> set h'"
  using assms
proof (induction rule: dc_calls_induct)
  case (calls_step h c R h' c' G h'' c'')
  then show ?case using dc_step_wanted [of h' c' G h'' c''] by blast
qed (auto simp: dc_wanted_mark_sent)

lemma dc_no_item_lost_witness:
  "(1::nat) \<in> dc_wanted (dc_requeue_in_flight (dc_mark_sent_with_generation 5 [1] 7
     (snd (dc_take_pending 2 (dc_enqueue [1, 2, 3] (dc_new default_config 0)))))) \<union> set []"
proof -
  let ?c = "dc_enqueue [1, 2, 3] (dc_new default_config 0) :: nat coordinator"
  let ?c1 = "snd (dc_take_pending 2 ?c)"
  let ?c2 = "dc_mark_sent_with_generation 5 [1] 7 ?c1"
  have "dc_step ([], ?c) {} ([1, 2], ?c1)"
    by (rule step_take [where n = 2])
      (simp_all add: dc_take_pending_def dc_enqueue_eq dc_new_def dc_available_to_send_def default_config_def)
  moreover have "dc_step ([1, 2], ?c1) {} ([2], ?c2)"
    using step_mark [of "[1]" "[2]" ?c1 5 7] by simp
  moreover have "dc_step ([2], ?c2) {2} ([], ?c2)" using step_send_failed [of "[2]" ?c2] by simp
  ultimately have "dc_calls ([], ?c) ({} \<union> {} \<union> {} \<union> {2} \<union> {}) ([], dc_requeue_in_flight ?c2)"
    by (intro calls_step [OF _ step_requeue]) (blast intro: calls_refl calls_step)
  then show ?thesis by (rule dc_no_item_lost) simp_all
qed

text \<open>
  C2: in every coordinator reachable from a fresh one by the steps of a pipeline that sends from
  the queue, the number of requests in flight, and even together with the keys held for sending,
  is at most \<open>max_concurrent\<close>, no key is in flight twice, and a generation snapshot exists only
  for a key that is in flight, so a snapshot never outlives its request.
\<close>

theorem dc_reachable_bounded:
  assumes "dc_steps ([], dc_new cfg now) R (held, c)"
  shows "length held + dc_active_count c \<le> max_concurrent cfg \<and> distinct (hm_keys (dc_in_flight c)) \<and>
     (\<forall>k. dc_generation_for c k \<noteq> None \<longrightarrow> dc_is_in_flight c k)"
proof -
  have "dc_inv c" using assms dc_inv_new by (rule dc_steps_inv)
  moreover have "length held + length (dc_in_flight c) \<le> max_concurrent cfg"
    using dc_steps_bound [OF assms] by (simp add: dc_new_def)
  ultimately show ?thesis
    by (auto simp: dc_active_count_def dc_generation_for_def dc_is_in_flight_def dc_inv_def
        map_of_eq_None_iff)
qed

lemma dc_reachable_bounded_witness:
  "dc_active_count (dc_mark_sent_with_generation 5 [1::nat] 7
     (snd (dc_take_pending 1 (dc_enqueue [1, 2] (dc_new (with_max_concurrent 1 default_config) 0))))) \<le> 1"
proof -
  let ?cfg = "with_max_concurrent 1 default_config"
  let ?c = "dc_enqueue [1, 2] (dc_new ?cfg 0) :: nat coordinator"
  let ?c1 = "snd (dc_take_pending 1 ?c)"
  let ?c2 = "dc_mark_sent_with_generation 5 [1] 7 ?c1"
  have "dc_step ([], ?c) {} ([1], ?c1)"
    by (rule step_take [where n = 1])
      (simp_all add: dc_take_pending_def dc_enqueue_eq dc_new_def dc_available_to_send_def with_max_concurrent_def)
  moreover have "dc_step ([1], ?c1) {} ([], ?c2)" using step_mark [of "[1]" "[]" ?c1 5 7] by simp
  ultimately have "dc_steps ([], dc_new ?cfg 0) ({} \<union> {} \<union> {} \<union> {}) ([], ?c2)"
    by (blast intro: steps_refl steps_step step_enqueue)
  from dc_reachable_bounded [OF this] show ?thesis by (simp add: with_max_concurrent_def)
qed

section \<open>The interface the pipelines use\<close>

text \<open>
  What a pipeline relies on when it keeps each key it wants in the queue exactly once: a key
  waits or is in flight, a send moves the oldest keys, a response removes the key it answers, and
  timeouts and disconnects only move keys back. That a full send leaves something in flight and
  that every answered key brings the queue closer to empty is proved from these laws.
\<close>

locale download_queue =
  fixes ok :: "'q \<Rightarrow> bool"
    and waiting :: "'q \<Rightarrow> 'k list"
    and flying :: "'q \<Rightarrow> 'k list"
    and enq :: "'k \<Rightarrow> 'q \<Rightarrow> 'q"
    and send :: "nat \<Rightarrow> 'q \<Rightarrow> 'k list \<times> 'q"
    and recv :: "'k \<Rightarrow> 'q \<Rightarrow> bool \<times> 'q"
    and cancel :: "'k \<Rightarrow> 'q \<Rightarrow> 'q"
    and retry :: "'q \<Rightarrow> 'q"
    and requeue :: "'q \<Rightarrow> 'q"
    and wanted :: "'q \<Rightarrow> 'k set"
  assumes wanted_eq: "wanted q = set (waiting q) \<union> set (flying q)"
    and once: "ok q \<Longrightarrow> distinct (waiting q @ flying q)"
    and enq_laws: "ok q \<Longrightarrow> k \<notin> set (waiting q) \<union> set (flying q) \<Longrightarrow>
      ok (enq k q) \<and> waiting (enq k q) = waiting q @ [k] \<and> flying (enq k q) = flying q"
    and send_laws: "ok q \<Longrightarrow> fst (send n q) = take n (waiting q) \<and> ok (snd (send n q)) \<and>
      waiting (snd (send n q)) = drop n (waiting q) \<and>
      set (flying (snd (send n q))) = set (take n (waiting q)) \<union> set (flying q)"
    and recv_laws: "ok q \<Longrightarrow> fst (recv k q) = (k \<in> set (flying q)) \<and> ok (snd (recv k q)) \<and>
      waiting (snd (recv k q)) = waiting q \<and> set (flying (snd (recv k q))) = set (flying q) - {k}"
    and cancel_laws: "ok q \<Longrightarrow> k \<notin> set (flying q) \<Longrightarrow> ok (cancel k q) \<and>
      set (waiting (cancel k q)) = set (waiting q) - {k} \<and> flying (cancel k q) = flying q"
    and retry_laws: "ok q \<Longrightarrow> ok (retry q) \<and>
      set (waiting (retry q)) \<union> set (flying (retry q)) = set (waiting q) \<union> set (flying q)"
    and requeue_laws: "ok q \<Longrightarrow> ok (requeue q) \<and> flying (requeue q) = [] \<and>
      set (waiting (requeue q)) = set (waiting q) \<union> set (flying q)"
begin

lemma card_wanted: "ok q \<Longrightarrow> card (wanted q) = length (waiting q) + length (flying q)"
  using once [of q] distinct_card [of "waiting q @ flying q"] by (simp add: wanted_eq)

lemma wanted_enq: "ok q \<Longrightarrow> k \<notin> wanted q \<Longrightarrow> ok (enq k q) \<and> wanted (enq k q) = insert k (wanted q)"
  using enq_laws [of q k] by (auto simp: wanted_eq)

lemma wanted_send: "ok q \<Longrightarrow> wanted (snd (send n q)) = wanted q"
  using send_laws [of q n] set_append [of "take n (waiting q)" "drop n (waiting q)"]
  by (auto simp: wanted_eq simp del: set_append)

lemma length_flying_send:
  assumes "ok q"
  shows "length (flying (snd (send n q))) = min n (length (waiting q)) + length (flying q)"
proof -
  have "card (wanted (snd (send n q))) = card (wanted q)" using wanted_send [OF assms] by simp
  then show ?thesis
    using card_wanted [of q] card_wanted [of "snd (send n q)"] send_laws [OF assms, of n] assms by simp
qed

lemma wanted_recv: "ok q \<Longrightarrow> k \<in> set (flying q) \<Longrightarrow> wanted (snd (recv k q)) = wanted q - {k}"
  using recv_laws [of q k] once [of q] by (auto simp: wanted_eq)

lemma recv_other: "ok q \<Longrightarrow> k \<notin> set (flying q) \<Longrightarrow> wanted (snd (recv k q)) = wanted q"
  using recv_laws [of q k] by (auto simp: wanted_eq)

lemma recv_progress: "ok q \<Longrightarrow> k \<in> set (flying q) \<Longrightarrow> card (wanted (snd (recv k q))) < card (wanted q)"
  unfolding wanted_recv by (rule card_Diff1_less) (simp_all add: wanted_eq)

lemma recv_or_cancel:
  assumes "ok q"
  shows "ok (if fst (recv k q) then snd (recv k q) else cancel k (snd (recv k q)))"
    and "wanted (if fst (recv k q) then snd (recv k q) else cancel k (snd (recv k q))) = wanted q - {k}"
  using recv_laws [OF assms, of k] cancel_laws [of "snd (recv k q)" k] wanted_recv [OF assms, of k] assms
  by (auto simp: wanted_eq)

lemma wanted_retry: "ok q \<Longrightarrow> wanted (retry q) = wanted q"
  using retry_laws [of q] by (simp add: wanted_eq)

lemma wanted_requeue: "ok q \<Longrightarrow> wanted (requeue q) = wanted q"
  using requeue_laws [of q] by (simp add: wanted_eq)

lemma not_stuck:
  assumes "wanted q \<noteq> {}" and "0 < cap" and "min (cap - length (flying q)) (length (waiting q)) = 0"
  shows "flying q \<noteq> []"
  using assms by (auto simp: wanted_eq min_def split: if_splits)

end

text \<open>The coordinator meets the interface while no key is queued twice.\<close>

definition dc_exact :: "'k coordinator \<Rightarrow> bool" where
  "dc_exact c \<longleftrightarrow> dc_inv c \<and> distinct (dc_pending c @ hm_keys (dc_in_flight c))"

definition dc_send :: "instant \<Rightarrow> u64 \<Rightarrow> nat \<Rightarrow> 'k coordinator \<Rightarrow> 'k list \<times> 'k coordinator" where
  "dc_send now g n c =
     (let (ks, c') = dc_take_pending n c in (ks, dc_mark_sent_with_generation now ks g c'))"

lemma dc_exact_inv: "dc_exact c \<Longrightarrow> dc_inv c"
  by (simp add: dc_exact_def)

lemma dc_send_parts:
  "fst (dc_send now g n c) = take n (dc_pending c)"
  "dc_pending (snd (dc_send now g n c)) = drop n (dc_pending c)"
  "dc_in_flight (snd (dc_send now g n c)) =
     fold (\<lambda>item. hm_insert item now) (take n (dc_pending c)) (dc_in_flight c)"
  "dc_generations (snd (dc_send now g n c)) =
     fold (\<lambda>item. hm_insert item g) (take n (dc_pending c)) (dc_generations c)"
  "dc_config (snd (dc_send now g n c)) = dc_config c"
  by (auto simp: dc_send_def dc_take_pending_def dc_mark_sent_with_generation_def Let_def min_def)

lemma dc_exact_send:
  assumes "dc_exact c"
  shows "dc_exact (snd (dc_send now g n c))"
proof -
  have "dc_inv (snd (dc_send now g n c))"
    using dc_inv_take_pending [OF dc_exact_inv [OF assms], of n]
    by (simp add: dc_send_def split_beta dc_inv_mark_sent_with_generation)
  moreover have "hm_ok (dc_in_flight (snd (dc_send now g n c)))" using calculation by (simp add: dc_inv_def)
  moreover have "set (hm_keys (dc_in_flight (snd (dc_send now g n c)))) =
      set (take n (dc_pending c)) \<union> fst ` set (dc_in_flight c)"
    by (simp add: dc_send_parts hm_keys_insert_all)
  moreover have "set (drop n (dc_pending c)) \<inter> (set (take n (dc_pending c)) \<union> fst ` set (dc_in_flight c)) = {}"
    using assms set_take_disj_set_drop_if_distinct [of "dc_pending c" n n] set_drop_subset [of n "dc_pending c"]
    by (auto simp: dc_exact_def)
  ultimately show ?thesis using assms by (simp add: dc_exact_def dc_send_parts del: set_map)
qed

lemma dc_exact_timeouts:
  assumes "dc_exact c"
  shows "dc_exact (snd (dc_check_and_retry_timeouts now c))"
proof -
  have d: "distinct (fst (dc_check_timeouts now c))"
    using assms by (simp add: dc_exact_def dc_check_timeouts_def Let_def distinct_map_filter)
  have ok: "hm_ok (fold hm_remove (fst (dc_check_timeouts now c)) (dc_in_flight c))"
    using assms by (auto simp: dc_exact_def intro: hm_ok_remove_all)
  have "dc_pending (snd (dc_check_and_retry_timeouts now c)) = rev (fst (dc_check_timeouts now c)) @ dc_pending c"
    and "dc_in_flight (snd (dc_check_and_retry_timeouts now c)) =
      fold hm_remove (fst (dc_check_timeouts now c)) (dc_in_flight c)"
    by (simp_all add: dc_check_and_retry_timeouts_def split_beta fold_enqueue_retry_pending)
      (simp_all add: dc_check_timeouts_def Let_def)
  moreover have "dc_inv (snd (dc_check_and_retry_timeouts now c))"
    using assms by (auto simp: dc_exact_def intro: dc_inv_ops)
  ultimately show ?thesis
    using assms d ok timed_out_in_flight [of now c]
    by (auto simp: dc_exact_def hm_keys_remove_all)
qed

lemma dc_receive_laws:
  assumes "dc_exact c"
  shows "fst (dc_receive now k c) = (k \<in> set (hm_keys (dc_in_flight c))) \<and> dc_exact (snd (dc_receive now k c)) \<and>
      dc_pending (snd (dc_receive now k c)) = dc_pending c \<and>
      set (hm_keys (dc_in_flight (snd (dc_receive now k c)))) = set (hm_keys (dc_in_flight c)) - {k}"
proof (cases "k \<in> fst ` set (dc_in_flight c)")
  case True
  have "hm_ok (hm_remove k (dc_in_flight c))" using assms by (simp add: dc_exact_def distinct_delete)
  moreover have "set (dc_pending c) \<inter> (fst ` set (dc_in_flight c) - {k}) = {}"
    using assms by (auto simp: dc_exact_def)
  ultimately show ?thesis
    using assms True dc_inv_receive [OF dc_exact_inv [OF assms], of now k]
    by (simp add: dc_exact_def dc_receive_def map_of_eq_None_iff hm_keys_remove)
next
  case False
  then show ?thesis using assms by (simp add: dc_receive_def map_of_eq_None_iff)
qed

interpretation dq: download_queue dc_exact dc_pending "\<lambda>c. hm_keys (dc_in_flight c)"
    "\<lambda>k. dc_enqueue [k]" "dc_send now g" "dc_receive now" dc_cancel_pending
    "\<lambda>c. snd (dc_check_and_retry_timeouts now c)" dc_requeue_in_flight dc_wanted
  for now g
proof unfold_locales
  show "dc_wanted c = set (dc_pending c) \<union> set (hm_keys (dc_in_flight c))" for c :: "'a coordinator"
    by (simp add: dc_wanted_def)
next
  fix c :: "'a coordinator" and k :: 'a and n
  assume ex: "dc_exact c"
  then have inv: "dc_inv c" by (rule dc_exact_inv)
  show "distinct (dc_pending c @ hm_keys (dc_in_flight c))" using ex by (simp add: dc_exact_def)
  show "fst (dc_send now g n c) = take n (dc_pending c) \<and> dc_exact (snd (dc_send now g n c)) \<and>
      dc_pending (snd (dc_send now g n c)) = drop n (dc_pending c) \<and>
      set (hm_keys (dc_in_flight (snd (dc_send now g n c)))) =
        set (take n (dc_pending c)) \<union> set (hm_keys (dc_in_flight c))"
    using dc_exact_send [OF ex] by (simp add: dc_send_parts hm_keys_insert_all)
  show "fst (dc_receive now k c) = (k \<in> set (hm_keys (dc_in_flight c))) \<and> dc_exact (snd (dc_receive now k c)) \<and>
      dc_pending (snd (dc_receive now k c)) = dc_pending c \<and>
      set (hm_keys (dc_in_flight (snd (dc_receive now k c)))) = set (hm_keys (dc_in_flight c)) - {k}"
    by (rule dc_receive_laws [OF ex])
  show "dc_exact (snd (dc_check_and_retry_timeouts now c)) \<and>
      set (dc_pending (snd (dc_check_and_retry_timeouts now c))) \<union>
        set (hm_keys (dc_in_flight (snd (dc_check_and_retry_timeouts now c)))) =
      set (dc_pending c) \<union> set (hm_keys (dc_in_flight c))"
    using dc_exact_timeouts [OF ex] dc_wanted_check_and_retry [of now c] by (simp add: dc_wanted_def)
  show "dc_exact (dc_requeue_in_flight c) \<and> hm_keys (dc_in_flight (dc_requeue_in_flight c)) = [] \<and>
      set (dc_pending (dc_requeue_in_flight c)) = set (dc_pending c) \<union> set (hm_keys (dc_in_flight c))"
    using ex dc_inv_requeue [OF inv] by (auto simp: dc_exact_def dc_requeue_eq)
  show "dc_exact (dc_enqueue [k] c) \<and> dc_pending (dc_enqueue [k] c) = dc_pending c @ [k] \<and>
      hm_keys (dc_in_flight (dc_enqueue [k] c)) = hm_keys (dc_in_flight c)"
    if "k \<notin> set (dc_pending c) \<union> set (hm_keys (dc_in_flight c))"
    using ex that dc_inv_enqueue [OF inv, of "[k]"] by (auto simp: dc_exact_def dc_enqueue_eq)
  show "dc_exact (dc_cancel_pending k c) \<and> set (dc_pending (dc_cancel_pending k c)) = set (dc_pending c) - {k} \<and>
      hm_keys (dc_in_flight (dc_cancel_pending k c)) = hm_keys (dc_in_flight c)"
    if "k \<notin> set (hm_keys (dc_in_flight c))"
    using ex dc_inv_cancel_pending [OF inv, of k] by (auto simp: dc_exact_def dc_cancel_pending_def)
qed

end
