(* ===== verification/Witness.thy ===== *)
theory Witness
  imports Consensus "HOL-Library.Monad_Syntax"
begin

text \<open>
  Transaction witnesses, from \<open>src/dash/src/blockdata/witness.rs\<close>. A witness is a list of byte
  strings kept in one vector: the encoded elements, then a table with the position of each element
  as a \<open>u32\<close>. The operations work on that vector with the copies, resizes and rotations of the
  source; the lemmas show that they implement the operations on the list. \<open>None\<close> is a panic: a
  slice out of range, or a position that does not fit \<open>u32\<close>. Positions are stored in the byte order
  of the machine, here little-endian.
\<close>

section \<open>Data and slices\<close>

record witness =
  w_content :: "u8 list"
  witness_elements :: nat
  indices_start :: nat

definition witness_default :: witness where
  "witness_default = \<lparr>w_content = [], witness_elements = 0, indices_start = 0\<rparr>"

text \<open>\<open>copy_from_slice\<close> into a range, \<open>resize\<close>, and the two rotations of a slice.\<close>

definition copy_at :: "nat \<Rightarrow> 'a list \<Rightarrow> 'a list \<Rightarrow> 'a list option" where
  "copy_at pos xs buf =
     (if pos + length xs \<le> length buf then Some (take pos buf @ xs @ drop (pos + length xs) buf) else None)"

definition resize :: "nat \<Rightarrow> 'a \<Rightarrow> 'a list \<Rightarrow> 'a list" where
  "resize n x xs = take n xs @ replicate (n - length xs) x"

definition rotate_left :: "nat \<Rightarrow> 'a list \<Rightarrow> 'a list option" where
  "rotate_left n xs = (if n \<le> length xs then Some (drop n xs @ take n xs) else None)"

definition rotate_right :: "nat \<Rightarrow> 'a list \<Rightarrow> 'a list option" where
  "rotate_right n xs =
     (if n \<le> length xs then Some (drop (length xs - n) xs @ take (length xs - n) xs) else None)"

section \<open>Operations\<close>

definition encode_cursor :: "u8 list \<Rightarrow> nat \<Rightarrow> nat \<Rightarrow> nat \<Rightarrow> u8 list option" where
  "encode_cursor bytes start_of_indices index value =
     (if value < 2 ^ 32
      then copy_at (start_of_indices + index * 4) (to_le_bytes (as_u32 value)) bytes
      else None)"

text \<open>
  The index is the caller's, any \<open>usize\<close>, so the position of the table entry may wrap. A slice
  \<open>bytes[start..end]\<close> whose end wrapped to before its start panics.
\<close>

definition decode_cursor :: "u8 list \<Rightarrow> nat \<Rightarrow> nat \<Rightarrow> nat option option" where
  "decode_cursor bytes start_of_indices index =
     (let start = (start_of_indices + index * 4) mod 2 ^ 64; e = (start + 4) mod 2 ^ 64 in
      if e > length bytes then Some None
      else if start > e then None
      else Some (Some (unat (from_le_bytes (take (e - start) (drop start bytes)) :: u32))))"

function grow_len :: "nat \<Rightarrow> nat \<Rightarrow> nat" where
  "grow_len required_len new_len =
     (if new_len \<le> required_len \<and> new_len \<noteq> 0 then grow_len required_len (new_len * 2) else new_len)"
  by auto
termination
  by (relation "measure (\<lambda>(required_len, new_len). Suc required_len - new_len)") auto

declare grow_len.simps [simp del]

definition resize_if_needed :: "u8 list \<Rightarrow> nat \<Rightarrow> u8 list" where
  "resize_if_needed vec required_len =
     (if required_len \<ge> length vec then resize (grow_len required_len (max (length vec) 1)) 0 vec else vec)"

fun from_slice_loop :: "nat \<Rightarrow> nat \<Rightarrow> u8 list list \<Rightarrow> nat \<Rightarrow> u8 list \<Rightarrow> u8 list option" where
  "from_slice_loop content_size i [] cursor content = Some content"
| "from_slice_loop content_size i (elem # elems) cursor content =
     do {
       content \<leftarrow> encode_cursor content content_size i cursor;
       content \<leftarrow> copy_at cursor (varint_encode (word_of_nat (length elem))) content;
       let cursor = cursor + varint_len (word_of_nat (length elem));
       content \<leftarrow> copy_at cursor elem content;
       from_slice_loop content_size (i + 1) elems (cursor + length elem) content
     }"

definition from_slice :: "u8 list list \<Rightarrow> witness option" where
  "from_slice elems =
     (let witness_elements = length elems;
          index_size = witness_elements * 4;
          content_size = sum_list (map (\<lambda>elem. length elem + varint_len (word_of_nat (length elem))) elems) in
      do {
        content \<leftarrow> from_slice_loop content_size 0 elems 0 (replicate (content_size + index_size) 0);
        Some \<lparr>w_content = content, witness_elements = witness_elements, indices_start = content_size\<rparr>
      })"

definition wit_is_empty :: "witness \<Rightarrow> bool" where
  "wit_is_empty w \<longleftrightarrow> witness_elements w = 0"

definition wit_len :: "witness \<Rightarrow> nat" where
  "wit_len w = witness_elements w"

definition wit_clear :: "witness \<Rightarrow> witness" where
  "wit_clear w = \<lparr>w_content = [], witness_elements = 0, indices_start = 0\<rparr>"

definition push_slice :: "u8 list \<Rightarrow> witness \<Rightarrow> witness option" where
  "push_slice new_element w =
     (let witness_elements' = witness_elements w + 1;
          previous_content_end = indices_start w;
          element_len_varint = varint_encode (word_of_nat (length new_element));
          varint_length = varint_len (word_of_nat (length new_element));
          current_content_len = length (w_content w);
          new_item_total_len = varint_length + length new_element;
          content = resize (current_content_len + new_item_total_len + 4) 0 (w_content w) in
      if previous_content_end > length content then None
      else do {
        tail \<leftarrow> rotate_right new_item_total_len (drop previous_content_end content);
        let content = take previous_content_end content @ tail;
        let indices_start' = previous_content_end + new_item_total_len;
        content \<leftarrow> encode_cursor content indices_start' (witness_elements' - 1) previous_content_end;
        content \<leftarrow> copy_at previous_content_end element_len_varint content;
        content \<leftarrow> copy_at (previous_content_end + varint_length) new_element content;
        Some \<lparr>w_content = content, witness_elements = witness_elements', indices_start = indices_start'\<rparr>
      })"

text \<open>Reading an element: outside a panic, the result is the source's \<open>Option\<close>.\<close>

definition element_at :: "witness \<Rightarrow> nat \<Rightarrow> u8 list option option" where
  "element_at w index =
     (if index > length (w_content w) then None
      else
        case varint_decode (drop index (w_content w)) of
          Err e \<Rightarrow> Some None
        | Ok (n, _) \<Rightarrow>
            let start = index + varint_len n in
            if start + unat n > length (w_content w) then None
            else Some (Some (take (unat n) (drop start (w_content w)))))"

definition wit_nth :: "witness \<Rightarrow> nat \<Rightarrow> u8 list option option" where
  "wit_nth w index =
     (case decode_cursor (w_content w) (indices_start w) index of
        None \<Rightarrow> None
      | Some None \<Rightarrow> Some None
      | Some (Some pos) \<Rightarrow> element_at w pos)"

definition wit_last :: "witness \<Rightarrow> u8 list option option" where
  "wit_last w = (if witness_elements w = 0 then Some None else wit_nth w (witness_elements w - 1))"

definition second_to_last :: "witness \<Rightarrow> u8 list option option" where
  "second_to_last w = (if witness_elements w \<le> 1 then Some None else wit_nth w (witness_elements w - 2))"

definition TAPROOT_ANNEX_PREFIX :: u8 where
  "TAPROOT_ANNEX_PREFIX = 0x50"

definition tapscript :: "witness \<Rightarrow> u8 list option option" where
  "tapscript w =
     (case wit_last w of
        None \<Rightarrow> None
      | Some None \<Rightarrow> Some None
      | Some (Some last_elem) \<Rightarrow>
          let script_pos_from_last =
                (if wit_len w \<ge> 2 \<and> last_elem \<noteq> [] \<and> hd last_elem = TAPROOT_ANNEX_PREFIX then 3 else 2) in
          if wit_len w \<ge> script_pos_from_last then wit_nth w (wit_len w - script_pos_from_last)
          else Some None)"

text \<open>
  \<open>Iter::next\<close> until it gives nothing; each call moves to the next table entry. The positions of
  the entries start inside the vector and grow by four, so none of them wraps.
\<close>

definition iter_next :: "witness \<Rightarrow> nat \<Rightarrow> u8 list option option" where
  "iter_next w current_index = wit_nth w current_index"

function to_vec_from :: "witness \<Rightarrow> nat \<Rightarrow> u8 list list option" where
  "to_vec_from w current_index =
     (if indices_start w + current_index * 4 + 4 > length (w_content w) then Some []
      else
        case iter_next w current_index of
          None \<Rightarrow> None
        | Some None \<Rightarrow> Some []
        | Some (Some elem) \<Rightarrow> map_option (Cons elem) (to_vec_from w (current_index + 1)))"
  by auto
termination
  by (relation "measure (\<lambda>(w, current_index). length (w_content w) - current_index)") auto

declare to_vec_from.simps [simp del]

definition to_vec :: "witness \<Rightarrow> u8 list list option" where
  "to_vec w = to_vec_from w 0"

definition serialized_len :: "witness \<Rightarrow> nat option" where
  "serialized_len w =
     map_option (\<lambda>els. sum_list (map (\<lambda>el. varint_len (word_of_nat (length el)) + length el) els) +
       varint_len (word_of_nat (witness_elements w))) (to_vec w)"

section \<open>Encoding\<close>

definition witness_encode :: "witness \<Rightarrow> u8 list" where
  "witness_encode w =
     (let content_len = length (w_content w) - witness_elements w * 4 in
      varint_encode (word_of_nat (witness_elements w)) @ take content_len (w_content w))"

fun witness_decode_loop ::
    "nat \<Rightarrow> nat \<Rightarrow> nat \<Rightarrow> nat \<Rightarrow> u8 list \<Rightarrow> u8 list \<Rightarrow> ((u8 list \<times> nat) \<times> u8 list, enc_error) result option" where
  "witness_decode_loop witness_index_space i 0 cursor content r = Some (Ok ((content, cursor), r))"
| "witness_decode_loop witness_index_space i (Suc left) cursor content r =
     (case varint_decode r of
        Err e \<Rightarrow> Some (Err e)
      | Ok (element_size_varint, r1) \<Rightarrow>
          let varint_length = varint_len element_size_varint;
              element_size = unat element_size_varint in
          if cursor + element_size \<ge> 2 ^ 64 \<or> cursor + element_size + varint_length \<ge> 2 ^ 64
          then Some (Err (OversizedVectorAllocation (2 ^ 64 - 1) MAX_VEC_SIZE))
          else
            let required_len = cursor + element_size + varint_length in
            if required_len > MAX_VEC_SIZE + witness_index_space
            then Some (Err (OversizedVectorAllocation required_len MAX_VEC_SIZE))
            else do {
              content \<leftarrow> encode_cursor content 0 i (cursor - witness_index_space);
              let content = resize_if_needed content required_len;
              content \<leftarrow> copy_at cursor (varint_encode element_size_varint) content;
              let cursor = cursor + varint_length;
              (case read_slice element_size r1 of
                 Err e \<Rightarrow> Some (Err e)
               | Ok (bytes, r2) \<Rightarrow> do {
                   content \<leftarrow> copy_at cursor bytes content;
                   witness_decode_loop witness_index_space (i + 1) left (cursor + element_size) content r2
                 })
            })"

definition witness_decode_opt :: "u8 list \<Rightarrow> (witness \<times> u8 list, enc_error) result option" where
  "witness_decode_opt r =
     (case varint_decode r of
        Err e \<Rightarrow> Some (Err e)
      | Ok (n, r1) \<Rightarrow>
          let witness_elements = unat n in
          if witness_elements > MAX_VEC_SIZE
          then Some (Err (OversizedVectorAllocation witness_elements MAX_VEC_SIZE))
          else if witness_elements = 0 then Some (Ok (witness_default, r1))
          else
            let witness_index_space = witness_elements * 4 in
            case witness_decode_loop witness_index_space 0 witness_elements witness_index_space
                (replicate (witness_index_space + 128) 0) r1 of
              None \<Rightarrow> None
            | Some (Err e) \<Rightarrow> Some (Err e)
            | Some (Ok ((content, cursor), r2)) \<Rightarrow> do {
                content \<leftarrow> rotate_left witness_index_space (take cursor content);
                Some (Ok (\<lparr>w_content = content, witness_elements = witness_elements,
                  indices_start = cursor - witness_index_space\<rparr>, r2))
              })"

text \<open>Decoding never panics (lemma \<open>witness_decode_total\<close> below).\<close>

definition witness_decode :: "witness decoder" where
  "witness_decode r = the (witness_decode_opt r)"

section \<open>What the vector holds\<close>

definition elem_bytes :: "u8 list \<Rightarrow> u8 list" where
  "elem_bytes e = varint_encode (word_of_nat (length e)) @ e"

definition body :: "u8 list list \<Rightarrow> u8 list" where
  "body ws = concat (map elem_bytes ws)"

definition pos_bytes :: "nat \<Rightarrow> u8 list" where
  "pos_bytes n = to_le_bytes (as_u32 n)"

definition table :: "u8 list list \<Rightarrow> u8 list" where
  "table ws = concat (map (\<lambda>i. pos_bytes (length (body (take i ws)))) [0..<length ws])"

definition witness_of :: "u8 list list \<Rightarrow> witness" where
  "witness_of ws = \<lparr>w_content = body ws @ table ws, witness_elements = length ws, indices_start = length (body ws)\<rparr>"

text \<open>The lists whose positions fit the table.\<close>

definition fits :: "u8 list list \<Rightarrow> bool" where
  "fits ws \<longleftrightarrow> length (body ws) < 2 ^ 32"

lemma varint_len_encode: "varint_len n = length (varint_encode n)"
  by (simp add: varint_len_def varint_encode_def emit_u8_def emit_int_def length_to_le_bytes Let_def)

lemma length_elem_bytes: "length (elem_bytes e) = varint_len (word_of_nat (length e)) + length e"
  by (simp add: elem_bytes_def varint_len_encode)

lemma length_pos_bytes [simp]: "length (pos_bytes n) = 4"
  by (simp add: pos_bytes_def length_to_le_bytes)

lemma length_table [simp]: "length (table ws) = 4 * length ws"
proof -
  have "length (concat (map (\<lambda>i. pos_bytes (f i)) xs)) = 4 * length xs" for f :: "nat \<Rightarrow> nat" and xs
    by (induction xs) simp_all
  then show ?thesis by (simp add: table_def)
qed

lemma body_append: "body (xs @ ys) = body xs @ body ys"
  by (simp add: body_def)

lemma body_simps [simp]: "body [] = []" "body (x # xs) = elem_bytes x @ body xs"
  by (simp_all add: body_def)

lemma table_append1: "table (ws @ [e]) = table ws @ pos_bytes (length (body ws))"
  by (auto simp: table_def intro!: arg_cong [where f = concat] map_cong)

lemma table_nth: "i < length ws \<Longrightarrow> take 4 (drop (4 * i) (table ws)) = pos_bytes (length (body (take i ws)))"
proof (induction ws rule: rev_induct)
  case (snoc e ws)
  show ?case
  proof (cases "i < length ws")
    case True
    then have "4 * i + 4 \<le> 4 * length ws" by simp
    then show ?thesis using True snoc by (simp add: table_append1)
  next
    case False
    then have "i = length ws" using snoc.prems by simp
    then show ?thesis by (simp add: table_append1)
  qed
qed simp

lemma body_take_le: "length (body (take i ws)) \<le> length (body ws)"
  using body_append [of "take i ws" "drop i ws"] by simp

lemma elem_fits: "fits ws \<Longrightarrow> e \<in> set ws \<Longrightarrow> length e < 2 ^ 32"
proof -
  have "length e \<le> length (body ws)" if "e \<in> set ws" for e
    using that by (induction ws) (auto simp: elem_bytes_def)
  then show "fits ws \<Longrightarrow> e \<in> set ws \<Longrightarrow> length e < 2 ^ 32" by (fastforce simp: fits_def)
qed

section \<open>The operations work on the list\<close>

lemma copy_at_middle: "length ys = length xs \<Longrightarrow> pos = length as \<Longrightarrow> copy_at pos xs (as @ ys @ bs) = Some (as @ xs @ bs)"
  by (simp add: copy_at_def)

lemma copy_at_front: "length ys = length xs \<Longrightarrow> copy_at 0 xs (ys @ bs) = Some (xs @ bs)"
  by (simp add: copy_at_def)

lemma encode_cursor_middle:
  "length ys = 4 \<Longrightarrow> start + index * 4 = length as \<Longrightarrow> value < 2 ^ 32 \<Longrightarrow>
   encode_cursor (as @ ys @ bs) start index value = Some (as @ pos_bytes value @ bs)"
  by (simp add: encode_cursor_def copy_at_middle length_to_le_bytes pos_bytes_def)

lemma push_slice_list:
  assumes "fits ws"
  shows "push_slice e (witness_of ws) = Some (witness_of (ws @ [e]))"
proof -
  let ?v = "varint_encode (word_of_nat (length e))"
  let ?n = "length ?v + length e"
  have body: "body (ws @ [e]) = body ws @ ?v @ e" by (simp add: body_append elem_bytes_def)
  have grown: "resize (length (body ws @ table ws) + ?n + 4) 0 (body ws @ table ws) =
      body ws @ table ws @ replicate ?n 0 @ replicate 4 0"
    by (simp add: resize_def flip: replicate_add)
  have rot: "rotate_right ?n (table ws @ replicate ?n 0 @ replicate 4 (0::u8)) =
      Some (replicate ?n 0 @ table ws @ replicate 4 0)"
  proof -
    have "table ws @ replicate ?n 0 @ replicate 4 (0::u8) = (table ws @ replicate 4 0) @ replicate ?n 0"
      by (simp flip: replicate_add add: add.commute)
    then show ?thesis by (simp add: rotate_right_def)
  qed
  have c1: "encode_cursor (body ws @ replicate ?n 0 @ table ws @ replicate 4 0) (length (body ws) + ?n) (length ws) (length (body ws)) =
      Some ((body ws @ replicate ?n 0 @ table ws) @ pos_bytes (length (body ws)) @ [])"
    using encode_cursor_middle [of "replicate 4 0" "length (body ws) + ?n" "length ws" "body ws @ replicate ?n 0 @ table ws" "length (body ws)" "[]"] assms
    by (simp add: fits_def)
  have c2: "copy_at (length (body ws)) ?v (body ws @ replicate ?n 0 @ table ws @ pos_bytes (length (body ws))) =
      Some (body ws @ ?v @ replicate (length e) 0 @ table ws @ pos_bytes (length (body ws)))"
    using copy_at_middle [of "replicate (length ?v) 0" ?v "length (body ws)" "body ws"] by (simp add: replicate_add)
  have c3: "copy_at (length (body ws) + length ?v) e (body ws @ ?v @ replicate (length e) 0 @ table ws @ pos_bytes (length (body ws))) =
      Some (body ws @ ?v @ e @ table ws @ pos_bytes (length (body ws)))"
    using copy_at_middle [of "replicate (length e) 0" e "length (body ws) + length ?v" "body ws @ ?v"] by simp
  show ?thesis
    unfolding push_slice_def witness_of_def Let_def varint_len_encode
    using grown rot c1 c2 c3 by (simp add: body table_append1)
qed

lemma from_slice_loop_list:
  assumes "fits (ws1 @ ws2)"
  shows "from_slice_loop (length (body (ws1 @ ws2))) (length ws1) ws2 (length (body ws1))
      (body ws1 @ replicate (length (body ws2)) 0 @ table ws1 @ replicate (4 * length ws2) 0) =
    Some (body (ws1 @ ws2) @ table (ws1 @ ws2))"
  using assms
proof (induction ws2 arbitrary: ws1)
  case (Cons e ws2)
  let ?v = "varint_encode (word_of_nat (length e))" and ?pos = "pos_bytes (length (body ws1))"
  have small: "length (body ws1) < 2 ^ 32" using Cons.prems by (simp add: fits_def body_append)
  have c1: "encode_cursor (body ws1 @ replicate (length (body (e # ws2))) 0 @ table ws1 @ replicate (4 * length (e # ws2)) 0)
      (length (body (ws1 @ e # ws2))) (length ws1) (length (body ws1)) =
      Some (body ws1 @ replicate (length (body (e # ws2))) 0 @ table ws1 @ ?pos @ replicate (4 * length ws2) 0)"
    using encode_cursor_middle [of "replicate 4 0" "length (body (ws1 @ e # ws2))" "length ws1"
        "body ws1 @ replicate (length (body (e # ws2))) 0 @ table ws1" "length (body ws1)" "replicate (4 * length ws2) 0"] small
    by (simp add: body_append flip: replicate_add)
  have c2: "copy_at (length (body ws1)) ?v (body ws1 @ replicate (length (body (e # ws2))) 0 @ table ws1 @ ?pos @ replicate (4 * length ws2) 0) =
      Some (body ws1 @ ?v @ replicate (length e + length (body ws2)) 0 @ table ws1 @ ?pos @ replicate (4 * length ws2) 0)"
    using copy_at_middle [of "replicate (length ?v) 0" ?v "length (body ws1)" "body ws1"]
    by (simp add: replicate_add elem_bytes_def)
  have c3: "copy_at (length (body ws1) + length ?v) e
      (body ws1 @ ?v @ replicate (length e + length (body ws2)) 0 @ table ws1 @ ?pos @ replicate (4 * length ws2) 0) =
      Some (body (ws1 @ [e]) @ replicate (length (body ws2)) 0 @ table (ws1 @ [e]) @ replicate (4 * length ws2) 0)"
    using copy_at_middle [of "replicate (length e) 0" e "length (body ws1) + length ?v" "body ws1 @ ?v"]
    by (simp add: replicate_add body_append elem_bytes_def table_append1)
  have "length (body (ws1 @ [e])) = length (body ws1) + length ?v + length e" by (simp add: body_append elem_bytes_def)
  with Cons.IH [of "ws1 @ [e]"] Cons.prems show ?case
    unfolding from_slice_loop.simps(2) c1 varint_len_encode by (simp add: c2 [simplified] c3 Let_def)
qed simp

lemma length_body: "length (body ws) = sum_list (map (\<lambda>e. length e + varint_len (word_of_nat (length e))) ws)"
  by (induction ws) (simp_all add: length_elem_bytes)

lemma from_slice_list: "fits ws \<Longrightarrow> from_slice ws = Some (witness_of ws)"
  using from_slice_loop_list [of "[]" ws]
  by (simp add: from_slice_def witness_of_def Let_def length_body [symmetric] table_def mult.commute flip: replicate_add)

lemma length_le_body: "length ws \<le> length (body ws)"
  by (induction ws) (auto simp: elem_bytes_def varint_encode_def emit_u8_def emit_int_def length_to_le_bytes Let_def)

lemma entry_fits: "fits ws \<Longrightarrow> i \<le> length ws \<Longrightarrow> length (body ws) + 4 * i + 4 < 2 ^ 64"
  using length_le_body [of ws] by (simp add: fits_def)

lemma wit_nth_list:
  assumes "fits ws" and "length (body ws) + 4 * i + 4 < 2 ^ 64"
  shows "wit_nth (witness_of ws) i = Some (if i < length ws then Some (ws ! i) else None)"
proof (cases "i < length ws")
  case False
  then show ?thesis using assms(2) by (simp add: wit_nth_def witness_of_def decode_cursor_def Let_def mult.commute)
next
  case True
  let ?p = "length (body (take i ws))" and ?e = "ws ! i"
  have "?p < 2 ^ 32" using body_take_le [of i ws] assms(1) by (simp add: fits_def)
  then have "unat (as_u32 ?p) = ?p" by (simp add: unsigned_of_nat take_bit_eq_mod)
  then have cursor: "decode_cursor (w_content (witness_of ws)) (indices_start (witness_of ws)) i = Some (Some ?p)"
    using True assms(2) table_nth [OF True] by (simp add: decode_cursor_def witness_of_def Let_def pos_bytes_def mult.commute from_to_le_bytes_word)
  have "ws = take i ws @ ?e # drop (Suc i) ws" using True by (rule id_take_nth_drop)
  then have "body ws = body (take i ws) @ elem_bytes ?e @ body (drop (Suc i) ws)"
    using body_append [of "take i ws" "?e # drop (Suc i) ws"] by simp
  then have content: "w_content (witness_of ws) = body (take i ws) @
      varint_encode (word_of_nat (length ?e)) @ ?e @ body (drop (Suc i) ws) @ table ws"
    by (simp add: witness_of_def elem_bytes_def)
  have "length ?e < 2 ^ 64" using elem_fits [OF assms(1), of ?e] True by simp
  then have "unat (word_of_nat (length ?e) :: u64) = length ?e" by (rule unat_length_u64)
  then have "element_at (witness_of ws) ?p = Some (Some ?e)"
    by (simp add: element_at_def content varint_round_trip Let_def varint_len_encode)
  with True cursor show ?thesis by (simp add: wit_nth_def)
qed

text \<open>Past those indices the entries repeat: an index and the one \<open>2 ^ 62\<close> above read the same.\<close>

lemma wit_nth_wraps: "wit_nth w (i + 2 ^ 62) = wit_nth w i"
proof -
  have "indices_start w + (i + 2 ^ 62) * 4 = indices_start w + i * 4 + 2 ^ 64" by simp
  then have "(indices_start w + (i + 2 ^ 62) * 4) mod 2 ^ 64 = (indices_start w + i * 4) mod 2 ^ 64" by (simp only: mod_add_self2)
  then show ?thesis by (simp only: wit_nth_def decode_cursor_def Let_def)
qed

lemma to_vec_list:
  assumes "fits ws"
  shows "to_vec (witness_of ws) = Some ws"
proof -
  have "to_vec_from (witness_of ws) i = Some (drop i ws)" if "i \<le> length ws" for i
    using that
  proof (induction "length ws - i" arbitrary: i)
    case 0
    then show ?case by (subst to_vec_from.simps) (simp add: witness_of_def)
  next
    case (Suc n)
    then have i: "i < length ws" by simp
    have "to_vec_from (witness_of ws) (Suc i) = Some (drop (Suc i) ws)" using Suc by simp
    then show ?case
      using i wit_nth_list [OF assms entry_fits [OF assms], of i]
      by (subst to_vec_from.simps) (simp add: iter_next_def Cons_nth_drop_Suc, simp add: witness_of_def)
  qed
  from this [of 0] show ?thesis by (simp add: to_vec_def)
qed

section \<open>Encoding works on the list\<close>

text \<open>Reading the elements without the vector.\<close>

fun elems_decode :: "nat \<Rightarrow> nat \<Rightarrow> nat \<Rightarrow> u8 list list decoder" where
  "elems_decode space 0 c = dret []"
| "elems_decode space (Suc left) c =
     dbind varint_decode (\<lambda>n.
       if space + c + unat n \<ge> 2 ^ 64 \<or> space + c + unat n + varint_len n \<ge> 2 ^ 64
       then dfail (OversizedVectorAllocation (2 ^ 64 - 1) MAX_VEC_SIZE)
       else if space + c + unat n + varint_len n > MAX_VEC_SIZE + space
       then dfail (OversizedVectorAllocation (space + c + unat n + varint_len n) MAX_VEC_SIZE)
       else dbind (read_slice (unat n)) (\<lambda>e.
         dbind (elems_decode space left (c + varint_len n + unat n)) (\<lambda>es. dret (e # es))))"

definition witness_list_decode :: "u8 list list decoder" where
  "witness_list_decode =
     dbind varint_decode (\<lambda>n.
       if unat n > MAX_VEC_SIZE then dfail (OversizedVectorAllocation (unat n) MAX_VEC_SIZE)
       else elems_decode (unat n * 4) (unat n) 0)"

lemma grow_len_gt: "new_len \<noteq> 0 \<Longrightarrow> required_len < grow_len required_len new_len \<and> new_len \<le> grow_len required_len new_len"
proof (induction required_len new_len rule: grow_len.induct)
  case (1 required_len new_len)
  then show ?case by (subst (1 2) grow_len.simps) auto
qed

lemma resize_if_needed_prefix:
  "\<exists>extra. resize_if_needed vec required_len = vec @ extra \<and> required_len < length (vec @ extra)"
proof (cases "required_len \<ge> length vec")
  case True
  let ?n = "grow_len required_len (max (length vec) 1)"
  have "required_len < ?n" "length vec \<le> ?n"
    using grow_len_gt [of "max (length vec) 1" required_len] by auto
  then show ?thesis using True by (auto simp: resize_if_needed_def resize_def)
next
  case False
  then show ?thesis by (auto simp: resize_if_needed_def)
qed

lemma unat_word_len: "word_of_nat (unat n) = (n :: u64)"
  by simp

lemma witness_decode_loop_list:
  assumes "space = 4 * (length ws + left)" and "length content \<ge> space + length (body ws)"
    and "take (4 * length ws) content = table ws" and "take (length (body ws)) (drop space content) = body ws"
    and "length (body ws) \<le> MAX_VEC_SIZE"
  shows "\<exists>content'. witness_decode_loop space (length ws) left (space + length (body ws)) content r =
    Some (case elems_decode space left (length (body ws)) r of
      Err e \<Rightarrow> Err e
    | Ok (es, r') \<Rightarrow> Ok ((content', space + length (body (ws @ es))), r')) \<and>
    (\<forall>es r'. elems_decode space left (length (body ws)) r = Ok (es, r') \<longrightarrow>
      take (space + length (body (ws @ es))) content' = table (ws @ es) @ body (ws @ es))"
  using assms
proof (induction left arbitrary: ws content r)
  case 0
  have "take (space + length (body ws)) content = table ws @ body ws"
    using 0 by (simp add: take_add)
  then show ?case by (intro exI [of _ content]) (simp add: dret_def)
next
  case (Suc left)
  let ?c = "length (body ws)"
  define idx where "idx = drop (4 * length ws) (take space content)"
  define X where "X = drop (space + ?c) content"
  have content: "content = table ws @ idx @ body ws @ X"
  proof -
    have "content = take space content @ take ?c (drop space content) @ drop ?c (drop space content)"
      by (simp only: append_take_drop_id)
    moreover have "take space content = take (4 * length ws) content @ idx"
      using Suc.prems(1) append_take_drop_id [of "4 * length ws" "take space content"] by (simp add: idx_def min_def)
    ultimately show ?thesis using Suc.prems(3,4) by (simp add: X_def add.commute)
  qed
  have len_idx: "length idx = 4 * Suc left" using Suc.prems(1,2) by (simp add: idx_def)
  then obtain z m where idx: "idx = z @ m" "length z = 4" "length m = 4 * left"
    by (metis append_take_drop_id diff_add_inverse length_drop length_take min.absorb2 mult_Suc_right le_add1)
  show ?case
  proof (cases "varint_decode r")
    case (Inl e)
    then show ?thesis by (simp add: dbind_def)
  next
    case (Inr nr)
    obtain n r1 where nr: "varint_decode r = Ok (n, r1)" using Inr by (cases nr) simp
    let ?v = "varint_encode n"
    consider "space + ?c + unat n \<ge> 2 ^ 64 \<or> space + ?c + unat n + varint_len n \<ge> 2 ^ 64"
      | "\<not> (space + ?c + unat n \<ge> 2 ^ 64 \<or> space + ?c + unat n + varint_len n \<ge> 2 ^ 64)"
        "space + ?c + unat n + varint_len n > MAX_VEC_SIZE + space"
      | "\<not> (space + ?c + unat n \<ge> 2 ^ 64 \<or> space + ?c + unat n + varint_len n \<ge> 2 ^ 64)"
        "\<not> space + ?c + unat n + varint_len n > MAX_VEC_SIZE + space" by blast
    then show ?thesis
    proof cases
      case 1
      then show ?thesis by (simp add: nr dbind_def dfail_def Let_def)
    next
      case 2
      then show ?thesis by (simp add: nr dbind_def dfail_def Let_def)
    next
      case 3
      obtain extra where extra: "resize_if_needed (table ws @ pos_bytes ?c @ m @ body ws @ X) (space + ?c + unat n + varint_len n) =
          (table ws @ pos_bytes ?c @ m @ body ws @ X) @ extra"
        "space + ?c + unat n + varint_len n < length ((table ws @ pos_bytes ?c @ m @ body ws @ X) @ extra)"
        using resize_if_needed_prefix by blast
      have space: "space = 4 * length ws + 4 + 4 * left" using Suc.prems(1) by simp
      have "unat n + length ?v \<le> length (X @ extra)" using extra(2) idx(3) space by (simp add: varint_len_encode)
      then obtain y1 y2 y3 where Y: "X @ extra = y1 @ y2 @ y3" "length y1 = length ?v" "length y2 = unat n"
        by (metis (no_types, lifting) append_take_drop_id length_take length_drop min.absorb2 add_leD2 le_diff_conv2 add.commute)
      have cur: "encode_cursor content 0 (length ws) ?c = Some (table ws @ pos_bytes ?c @ m @ body ws @ X)"
        using encode_cursor_middle [of z 0 "length ws" "table ws" ?c "m @ body ws @ X"] Suc.prems(5)
        by (simp add: content idx MAX_VEC_SIZE_def mult.commute)
      have vec: "copy_at (space + ?c) ?v ((table ws @ pos_bytes ?c @ m @ body ws @ X) @ extra) =
          Some (table ws @ pos_bytes ?c @ m @ body ws @ ?v @ y2 @ y3)"
        using copy_at_middle [of y1 ?v "space + ?c" "table ws @ pos_bytes ?c @ m @ body ws" "y2 @ y3"] Y space idx(3)
        by simp
      show ?thesis
      proof (cases "read_slice (unat n) r1")
        case (Inl e)
        then show ?thesis
          using 3 by (simp add: nr dbind_def Let_def cur extra(1) vec [simplified])
      next
        case rd: (Inr er)
        obtain e r2 where er: "read_slice (unat n) r1 = Ok (e, r2)" using rd by (cases er) simp
        have len: "length e = unat n" using er by (auto simp: read_slice_def split: if_splits)
        have eb: "elem_bytes e = ?v @ e" by (simp add: elem_bytes_def len)
        let ?content = "table (ws @ [e]) @ m @ body (ws @ [e]) @ y3"
        have elem: "copy_at (space + ?c + length ?v) e (table ws @ pos_bytes ?c @ m @ body ws @ ?v @ y2 @ y3) = Some ?content"
          using copy_at_middle [of y2 e "space + ?c + length ?v" "table ws @ pos_bytes ?c @ m @ body ws @ ?v" y3] Y(3) space idx(3)
          by (simp add: table_append1 body_append eb len)
        have c': "length (body (ws @ [e])) = ?c + varint_len n + unat n"
          by (simp add: body_append eb varint_len_encode len)
        have "\<exists>content'. witness_decode_loop space (length (ws @ [e])) left (space + length (body (ws @ [e]))) ?content r2 =
            Some (case elems_decode space left (length (body (ws @ [e]))) r2 of
              Err e \<Rightarrow> Err e
            | Ok (es, r') \<Rightarrow> Ok ((content', space + length (body ((ws @ [e]) @ es))), r')) \<and>
            (\<forall>es r'. elems_decode space left (length (body (ws @ [e]))) r2 = Ok (es, r') \<longrightarrow>
              take (space + length (body ((ws @ [e]) @ es))) content' = table ((ws @ [e]) @ es) @ body ((ws @ [e]) @ es))"
        proof (rule Suc.IH)
          show "space = 4 * (length (ws @ [e]) + left)" using space by simp
          show "space + length (body (ws @ [e])) \<le> length ?content" using space idx(3) by simp
          show "take (4 * length (ws @ [e])) ?content = table (ws @ [e])" by (simp add: table_append1)
          show "take (length (body (ws @ [e]))) (drop space ?content) = body (ws @ [e])" using space idx(3) by simp
          show "length (body (ws @ [e])) \<le> MAX_VEC_SIZE" using 3(2) c' by simp
        qed
        moreover have ap: "length (ws @ [e]) = length ws + 1" "\<And>es. (ws @ [e]) @ es = ws @ e # es" by simp_all
        ultimately obtain content' where ih: "witness_decode_loop space (length ws + 1) left (space + (?c + varint_len n + unat n)) ?content r2 =
            Some (case elems_decode space left (?c + varint_len n + unat n) r2 of
              Err e \<Rightarrow> Err e
            | Ok (es, r') \<Rightarrow> Ok ((content', space + length (body (ws @ e # es))), r'))"
          "\<forall>es r'. elems_decode space left (?c + varint_len n + unat n) r2 = Ok (es, r') \<longrightarrow>
              take (space + length (body (ws @ e # es))) content' = table (ws @ e # es) @ body (ws @ e # es)"
          unfolding c' ap by blast
        show ?thesis
        proof (intro exI [of _ content'] conjI)
          show "witness_decode_loop space (length ws) (Suc left) (space + ?c) content r =
              Some (case elems_decode space (Suc left) ?c r of Err e \<Rightarrow> Err e
                | Ok (es, r') \<Rightarrow> Ok ((content', space + length (body (ws @ es))), r'))"
            using 3 nr er cur extra(1) vec [simplified] elem ih(1)
            by (simp add: dbind_def dret_def Let_def varint_len_encode add.assoc split: sum.split)
          show "\<forall>es r'. elems_decode space (Suc left) ?c r = Ok (es, r') \<longrightarrow>
              take (space + length (body (ws @ es))) content' = table (ws @ es) @ body (ws @ es)"
            using 3 nr er ih(2) by (auto simp: dbind_Ok_iff dret_Ok_iff)
        qed
      qed
    qed
  qed
qed

lemma elems_decode_iff:
  assumes "c \<le> MAX_VEC_SIZE" and "space \<le> 4 * MAX_VEC_SIZE"
  shows "elems_decode space left c bs = Ok (es, rest) \<longleftrightarrow>
    length es = left \<and> bs = body es @ rest \<and> c + length (body es) \<le> MAX_VEC_SIZE"
  using assms(1)
proof (induction left arbitrary: c bs es)
  case 0
  then show ?case by (auto simp: dret_Ok_iff)
next
  case (Suc left)
  have big: "MAX_VEC_SIZE + space < 2 ^ 64" using assms(2) by (simp add: MAX_VEC_SIZE_def)
  show ?case
  proof
    assume "elems_decode space (Suc left) c bs = Ok (es, rest)"
    then obtain n bs1 e es' where n: "bs = varint_encode n @ e @ bs1" "length e = unat n"
      "c + unat n + varint_len n \<le> MAX_VEC_SIZE" "es = e # es'"
      "elems_decode space left (c + varint_len n + unat n) bs1 = Ok (es', rest)"
      by (auto simp: dbind_Ok_iff dret_Ok_iff dfail_Ok_iff c_varint.decode_iff read_slice_Ok_iff split: if_splits)
    moreover have "elem_bytes e = varint_encode n @ e" by (simp add: elem_bytes_def n(2))
    moreover have "length (varint_encode n) = varint_len n" by (simp add: varint_len_encode)
    ultimately show "length es = Suc left \<and> bs = body es @ rest \<and> c + length (body es) \<le> MAX_VEC_SIZE"
      using Suc.IH [of "c + varint_len n + unat n" bs1 es'] by simp
  next
    assume *: "length es = Suc left \<and> bs = body es @ rest \<and> c + length (body es) \<le> MAX_VEC_SIZE"
    then obtain e es' where es: "es = e # es'" by (cases es) auto
    let ?n = "word_of_nat (length e) :: u64"
    have "length e < 2 ^ 64" using * big by (simp add: es length_elem_bytes)
    then have n: "unat ?n = length e" by (rule unat_length_u64)
    have small: "c + length e + varint_len ?n + length (body es') \<le> MAX_VEC_SIZE"
      using * by (simp add: es length_elem_bytes)
    have "elems_decode space left (c + varint_len ?n + unat ?n) (body es' @ rest) = Ok (es', rest)"
      using Suc.IH [of "c + varint_len ?n + unat ?n" "body es' @ rest" es'] small * es by (simp add: n)
    moreover have "bs = varint_encode ?n @ e @ body es' @ rest" using * by (simp add: es elem_bytes_def)
    ultimately show "elems_decode space (Suc left) c bs = Ok (es, rest)"
      using small big by (simp add: c_varint.bind_enc n es dbind_def [of "elems_decode _ _ _"] dret_def)
  qed
qed

lemma witness_list_decode_iff:
  "witness_list_decode bs = Ok (ws, rest) \<longleftrightarrow>
   length ws \<le> MAX_VEC_SIZE \<and> length (body ws) \<le> MAX_VEC_SIZE \<and>
   bs = varint_encode (word_of_nat (length ws)) @ body ws @ rest"
proof
  assume "witness_list_decode bs = Ok (ws, rest)"
  then obtain n bs1 where n: "bs = varint_encode n @ bs1" "unat n \<le> MAX_VEC_SIZE"
    "elems_decode (unat n * 4) (unat n) 0 bs1 = Ok (ws, rest)"
    by (auto simp: witness_list_decode_def dbind_Ok_iff dfail_Ok_iff c_varint.decode_iff split: if_splits)
  then have "length ws = unat n" "bs1 = body ws @ rest" "length (body ws) \<le> MAX_VEC_SIZE"
    using elems_decode_iff [of 0 "unat n * 4" "unat n" bs1 ws rest] by simp_all
  with n show "length ws \<le> MAX_VEC_SIZE \<and> length (body ws) \<le> MAX_VEC_SIZE \<and>
      bs = varint_encode (word_of_nat (length ws)) @ body ws @ rest" by simp
next
  assume *: "length ws \<le> MAX_VEC_SIZE \<and> length (body ws) \<le> MAX_VEC_SIZE \<and>
    bs = varint_encode (word_of_nat (length ws)) @ body ws @ rest"
  then have n: "unat (word_of_nat (length ws) :: u64) = length ws"
    by (intro unat_length_u64) (simp add: MAX_VEC_SIZE_def)
  have "elems_decode (length ws * 4) (length ws) 0 (body ws @ rest) = Ok (ws, rest)"
    using elems_decode_iff [of 0 "length ws * 4" "length ws" "body ws @ rest" ws rest] * by simp
  with * n show "witness_list_decode bs = Ok (ws, rest)"
    by (simp add: witness_list_decode_def c_varint.bind_enc)
qed

lemma witness_decode_list:
  "witness_decode_opt r =
   Some (case witness_list_decode r of Err e \<Rightarrow> Err e | Ok (ws, r') \<Rightarrow> Ok (witness_of ws, r'))"
proof (cases "varint_decode r")
  case (Inl e)
  then show ?thesis by (simp add: witness_decode_opt_def witness_list_decode_def dbind_def)
next
  case (Inr nr)
  obtain n r1 where nr: "varint_decode r = Ok (n, r1)" using Inr by (cases nr) simp
  consider "unat n > MAX_VEC_SIZE" | "unat n = 0" "unat n \<le> MAX_VEC_SIZE" | "unat n \<noteq> 0" "unat n \<le> MAX_VEC_SIZE" by linarith
  then show ?thesis
  proof cases
    case 1
    then show ?thesis by (simp add: witness_decode_opt_def witness_list_decode_def nr dbind_def dfail_def)
  next
    case 2
    then show ?thesis
      by (simp add: witness_decode_opt_def witness_list_decode_def nr dbind_def dret_def witness_default_def witness_of_def table_def)
  next
    case 3
    let ?space = "unat n * 4"
    obtain content' where loop: "witness_decode_loop ?space 0 (unat n) ?space (replicate (?space + 128) 0) r1 =
        Some (case elems_decode ?space (unat n) 0 r1 of Err e \<Rightarrow> Err e
          | Ok (es, r') \<Rightarrow> Ok ((content', ?space + length (body es)), r'))"
      "\<And>es r'. elems_decode ?space (unat n) 0 r1 = Ok (es, r') \<Longrightarrow>
          take (?space + length (body es)) content' = table es @ body es"
      using witness_decode_loop_list [of ?space "[]" "unat n" "replicate (?space + 128) 0" r1,
          unfolded append_Nil body_simps(1) list.size(3) add_0_right]
      by (auto simp: table_def [of "[]"])
    show ?thesis
    proof (cases "elems_decode ?space (unat n) 0 r1")
      case (Inl e)
      then show ?thesis using 3 loop(1)
        by (simp add: witness_decode_opt_def witness_list_decode_def nr dbind_def)
    next
      case (Inr er)
      obtain es r' where er: "elems_decode ?space (unat n) 0 r1 = Ok (es, r')" using Inr by (cases er) simp
      have "length es = unat n" using elems_decode_iff [of 0 ?space "unat n" r1 es r'] er 3(2) by simp
      moreover have "rotate_left (4 * length es) (table es @ body es) = Some (body es @ table es)"
        by (simp add: rotate_left_def)
      ultimately show ?thesis
        using 3 loop(1) loop(2) [OF er] er
        by (simp add: witness_decode_opt_def witness_list_decode_def nr dbind_def witness_of_def mult.commute)
    qed
  qed
qed

lemma witness_decode_total: "witness_decode_opt r = Some (witness_decode r)"
  by (simp add: witness_decode_def witness_decode_list)

lemma witness_encode_list: "witness_encode (witness_of ws) = varint_encode (word_of_nat (length ws)) @ body ws"
  by (simp add: witness_encode_def witness_of_def mult.commute)

definition witness_ok :: "witness \<Rightarrow> bool" where
  "witness_ok w \<longleftrightarrow> (\<exists>ws. w = witness_of ws \<and> length ws \<le> MAX_VEC_SIZE \<and> length (body ws) \<le> MAX_VEC_SIZE)"

interpretation c_witness: canonical_codec witness_encode witness_decode witness_ok
proof
  show "witness_decode (witness_encode w @ rest) = Ok (w, rest)" if ok: "witness_ok w" for w rest
  proof -
    obtain ws where ws: "w = witness_of ws" "length ws \<le> MAX_VEC_SIZE" "length (body ws) \<le> MAX_VEC_SIZE"
      using ok by (auto simp: witness_ok_def)
    then have "witness_list_decode (witness_encode w @ rest) = Ok (ws, rest)"
      by (simp add: witness_list_decode_iff witness_encode_list)
    then show ?thesis by (simp add: witness_decode_def witness_decode_list ws(1))
  qed
  show "witness_ok w \<and> bs = witness_encode w @ rest" if dec: "witness_decode bs = Ok (w, rest)" for bs w rest
  proof -
    obtain ws where "witness_list_decode bs = Ok (ws, rest)" "w = witness_of ws"
      using dec by (auto simp: witness_decode_def witness_decode_list split: sum.splits)
    then show ?thesis by (auto simp: witness_list_decode_iff witness_encode_list witness_ok_def)
  qed
qed

section \<open>The vector implements the list\<close>

definition list_tapscript :: "u8 list list \<Rightarrow> u8 list option" where
  "list_tapscript ws =
     (let n = length ws; k = (if n \<ge> 2 \<and> last ws \<noteq> [] \<and> hd (last ws) = TAPROOT_ANNEX_PREFIX then 3 else 2) in
      if n \<ge> k then Some (ws ! (n - k)) else None)"

text \<open>
  C26: on a list of byte strings whose encoding is shorter than four gigabytes, every operation on the
  packed vector is the operation on the list: building, pushing, clearing, counting, reading an
  element, reading from the end, listing all, finding the script of a script path, and the announced
  length is the length of the encoding; none of them panics. Reading takes any index, also past the
  end, for which the position of the table entry does not overflow \<open>usize\<close>.
\<close>

theorem witness_refines_list:
  assumes "fits ws" and "indices_start (witness_of ws) + 4 * i + 4 < 2 ^ 64"
  shows "from_slice ws = Some (witness_of ws) \<and>
    push_slice e (witness_of ws) = Some (witness_of (ws @ [e])) \<and>
    wit_clear (witness_of ws) = witness_of [] \<and>
    wit_len (witness_of ws) = length ws \<and> wit_is_empty (witness_of ws) = (ws = []) \<and>
    wit_nth (witness_of ws) i = Some (if i < length ws then Some (ws ! i) else None) \<and>
    wit_last (witness_of ws) = Some (if ws = [] then None else Some (last ws)) \<and>
    second_to_last (witness_of ws) = Some (if length ws \<le> 1 then None else Some (ws ! (length ws - 2))) \<and>
    to_vec (witness_of ws) = Some ws \<and>
    tapscript (witness_of ws) = Some (list_tapscript ws) \<and>
    serialized_len (witness_of ws) = Some (length (witness_encode (witness_of ws)))"
proof -
  note nth = wit_nth_list [OF assms(1) entry_fits [OF assms(1)]]
  have n: "witness_elements (witness_of ws) = length ws" by (simp add: witness_of_def)
  have last: "wit_last (witness_of ws) = Some (if ws = [] then None else Some (last ws))"
    by (simp add: wit_last_def n nth last_conv_nth)
  have "tapscript (witness_of ws) = Some (list_tapscript ws)"
    by (auto simp: tapscript_def last list_tapscript_def wit_len_def n nth Let_def)
  moreover have "serialized_len (witness_of ws) = Some (length (witness_encode (witness_of ws)))"
    by (simp add: serialized_len_def to_vec_list [OF assms(1)] n witness_encode_list length_body varint_len_encode add.commute)
  moreover have "second_to_last (witness_of ws) = Some (if length ws \<le> 1 then None else Some (ws ! (length ws - 2)))"
    by (auto simp: second_to_last_def n nth)
  moreover have "wit_clear (witness_of ws) = witness_of []"
    by (simp add: wit_clear_def witness_of_def table_def)
  ultimately show ?thesis
    using from_slice_list [OF assms(1)] push_slice_list [OF assms(1)] wit_nth_list [OF assms(1), of i] assms(2) to_vec_list [OF assms(1)] last
    by (simp add: n wit_len_def wit_is_empty_def) (simp add: witness_of_def)
qed

theorem witness_refines_list_witness:
  "\<exists>w. from_slice [[1, 2], [], [3]] = Some w \<and> wit_nth w 2 = Some (Some [3]) \<and> wit_nth w 3 = Some None \<and>
    to_vec w = Some [[1, 2], [], [3]] \<and> wit_last w = Some (Some [3])"
proof -
  have "fits [[1, 2], [], [3]]" by (simp add: fits_def elem_bytes_def varint_encode_def emit_u8_def)
  moreover have "indices_start (witness_of [[1, 2], [], [3]]) + 4 * 3 + 4 < 2 ^ 64"
    by (simp add: witness_of_def elem_bytes_def varint_encode_def emit_u8_def)
  ultimately show ?thesis
    using witness_refines_list [of "[[1, 2], [], [3]]" 2] witness_refines_list [of "[[1, 2], [], [3]]" 3] by simp
qed

text \<open>
  Decoding a witness never panics, and accepts exactly the encodings of lists of at most four
  million elements and four million encoded bytes, giving the packed vector of the list.
\<close>

theorem witness_decode_exact:
  "\<exists>res. witness_decode_opt bs = Some res \<and> (\<forall>w rest. res = Ok (w, rest) \<longleftrightarrow>
     (\<exists>ws. w = witness_of ws \<and> length ws \<le> 4000000 \<and> length (body ws) \<le> 4000000 \<and>
       bs = witness_encode w @ rest))"
  using c_witness.decode_iff [of bs] unfolding witness_decode_total by (auto simp: witness_ok_def MAX_VEC_SIZE_def)

end
