(* ===== verification/Tx_Parts.thy ===== *)
theory Tx_Parts
  imports Merkle_Block Witness
begin

text \<open>
  What transactions are made of: compact sizes and fixed bit sets (\<open>src/dash/src/consensus/encode.rs\<close>),
  socket addresses (\<open>src/dash/src/sml/address.rs\<close>), and outpoints, inputs and outputs
  (\<open>src/dash/src/blockdata/transaction/\<close>). Hashes, keys and signatures are byte lists of their
  length; scripts are byte lists.
\<close>

section \<open>Compact sizes\<close>

definition write_compact_size :: "u32 \<Rightarrow> u8 list" where
  "write_compact_size value =
     (if value < 253 then [ucast value]
      else if value \<le> 0xFFFF then 0xFD # to_le_bytes (ucast value :: u16)
      else 0xFE # to_le_bytes value)"

definition read_compact_size :: "u32 decoder" where
  "read_compact_size =
     dbind (read_slice 1) (\<lambda>marker.
       if marker ! 0 = 0xFD then
         dbind (read_slice 2) (\<lambda>buf.
           let value = ucast (from_le_bytes buf :: u16) in
           if value < 0xFD then dfail Io_InvalidData else dret value)
       else if marker ! 0 = 0xFE then
         dbind (read_slice 4) (\<lambda>buf.
           let value = from_le_bytes buf in
           if value \<le> 0xFFFF then dfail Io_InvalidData else dret value)
       else if marker ! 0 = 0xFF then dfail Io_InvalidData
       else dret (ucast (marker ! 0)))"

definition compact_size_len :: "u32 \<Rightarrow> nat" where
  "compact_size_len value = (if value < 253 then 1 else if value < 65536 then 3 else 5)"

section \<open>Fixed bit sets\<close>

definition MAX_BITSET_SIZE :: nat where
  "MAX_BITSET_SIZE = 1000000"

definition read_fixed_bitset :: "nat \<Rightarrow> bool list decoder" where
  "read_fixed_bitset sz =
     (if sz > MAX_BITSET_SIZE then dfail Io_InvalidInput
      else dbind (read_slice ((sz + 7) div 8)) (\<lambda>bytes.
        dret (map (\<lambda>p. drop_bit (p mod 8) (bytes ! (p div 8)) AND 1 \<noteq> 0) [0..<sz])))"

definition set_bit_step :: "bool list \<Rightarrow> nat \<Rightarrow> u8 list \<Rightarrow> u8 list" where
  "set_bit_step bs p bytes =
     (if bs ! p then bytes[p div 8 := bytes ! (p div 8) OR push_bit (p mod 8) 1] else bytes)"

definition write_fixed_bitset :: "bool list \<Rightarrow> nat \<Rightarrow> (u8 list, enc_error) result" where
  "write_fixed_bitset bs sz =
     (if length bs < sz then Err Io_InvalidInput
      else if sz > MAX_BITSET_SIZE then Err Io_InvalidInput
      else
        let num_bytes = (sz + 7) div 8; ms = min sz (length bs) in
        Ok (fold (set_bit_step bs) [0..<ms] (replicate num_bytes 0)))"

definition fixed_bitset_len :: "bool list \<Rightarrow> nat \<Rightarrow> nat" where
  "fixed_bitset_len bs sz = (let ms = min sz (length bs) in (ms + 7) div 8)"

section \<open>Socket addresses\<close>

datatype socket_addr =
    SocketAddrV4 u32 u16
  | SocketAddrV6 u128 u16 u32 u32

definition swap_bytes :: "u16 \<Rightarrow> u16" where
  "swap_bytes x = from_le_bytes (rev (to_le_bytes x))"

definition to_ipv6_mapped :: "u32 \<Rightarrow> u128" where
  "to_ipv6_mapped ip = 0xFFFF00000000 + ucast ip"

text \<open>The standard library's \<open>Ipv6Addr::to_ipv4\<close>: mapped and compatible addresses.\<close>

definition to_ipv4 :: "u128 \<Rightarrow> u32 option" where
  "to_ipv4 ip = (if drop_bit 32 ip = 0 \<or> drop_bit 32 ip = 0xFFFF then Some (ucast ip) else None)"

definition socket_addr_encode :: "socket_addr \<Rightarrow> u8 list" where
  "socket_addr_encode a =
     (let (ip, port) = (case a of SocketAddrV4 v4 p \<Rightarrow> (to_ipv6_mapped v4, p) | SocketAddrV6 v6 p _ _ \<Rightarrow> (v6, p)) in
      to_be_bytes ip @ emit_int (swap_bytes port))"

definition socket_addr_decode :: "socket_addr decoder" where
  "socket_addr_decode =
     dbind (read_slice 16) (\<lambda>ip_bytes. dbind read_int (\<lambda>p.
       let ip = from_be_bytes ip_bytes; port = swap_bytes p in
       dret (case to_ipv4 ip of
               Some ipv4 \<Rightarrow> SocketAddrV4 ipv4 port
             | None \<Rightarrow> SocketAddrV6 ip port 0 0)))"

section \<open>Outpoints, inputs and outputs\<close>

record outpoint =
  op_txid :: "u8 list"
  op_vout :: u32

definition outpoint_null :: outpoint where
  "outpoint_null = \<lparr>op_txid = replicate 32 0, op_vout = 0xFFFFFFFF\<rparr>"

definition outpoint_is_null :: "outpoint \<Rightarrow> bool" where
  "outpoint_is_null o' \<longleftrightarrow> o' = outpoint_null"

definition outpoint_encode :: "outpoint \<Rightarrow> u8 list" where
  "outpoint_encode o' = array_encode (op_txid o') @ emit_int (op_vout o')"

definition outpoint_decode :: "outpoint decoder" where
  "outpoint_decode =
     dbind (read_slice 32) (\<lambda>t. dbind read_int (\<lambda>v. dret \<lparr>op_txid = t, op_vout = v\<rparr>))"

definition script_encode :: "u8 list \<Rightarrow> u8 list" where
  "script_encode s = consensus_encode_with_size s"

definition script_decode :: "u8 list decoder" where
  "script_decode = bytes_decode"

record txin =
  previous_output :: outpoint
  script_sig :: "u8 list"
  in_sequence :: u32
  in_witness :: witness

definition txin_default :: txin where
  "txin_default =
     \<lparr>previous_output = outpoint_null, script_sig = [], in_sequence = 0xFFFFFFFF, in_witness = witness_default\<rparr>"

definition txin_encode :: "txin \<Rightarrow> u8 list" where
  "txin_encode i =
     outpoint_encode (previous_output i) @ script_encode (script_sig i) @ emit_int (in_sequence i)"

definition txin_decode :: "txin decoder" where
  "txin_decode =
     dbind outpoint_decode (\<lambda>o'. dbind script_decode (\<lambda>s. dbind read_int (\<lambda>q.
       dret \<lparr>previous_output = o', script_sig = s, in_sequence = q, in_witness = witness_default\<rparr>)))"

record txout =
  txo_value :: u64
  script_pubkey :: "u8 list"

definition txout_default :: txout where
  "txout_default = \<lparr>txo_value = 0xffffffffffffffff, script_pubkey = []\<rparr>"

definition txout_size :: "txout \<Rightarrow> nat" where
  "txout_size t = 8 + varint_len (word_of_nat (length (script_pubkey t))) + length (script_pubkey t)"

definition txout_encode :: "txout \<Rightarrow> u8 list" where
  "txout_encode t = emit_int (txo_value t) @ script_encode (script_pubkey t)"

definition txout_decode :: "txout decoder" where
  "txout_decode =
     dbind read_int (\<lambda>v. dbind script_decode (\<lambda>s. dret \<lparr>txo_value = v, script_pubkey = s\<rparr>))"

section \<open>Compact sizes and bit sets round trip\<close>

lemma word_of_unat_ucast: "unat (ucast (x :: 'a::len word) :: 'b::len word) = unat x mod 2 ^ LENGTH('b)"
  by (simp add: unsigned_ucast_eq take_bit_eq_mod)

lemma compact_size_len_encode: "length (write_compact_size v) = compact_size_len v"
  by (simp add: write_compact_size_def compact_size_len_def length_to_le_bytes word_less_nat_alt word_le_nat_alt)

interpretation c_compact_size: canonical_codec write_compact_size read_compact_size "\<lambda>_. True"
proof
  fix v :: u32 and rest
  show "read_compact_size (write_compact_size v @ rest) = Ok (v, rest)"
  proof -
    consider "v < 253" | "\<not> v < 253" "v \<le> 0xFFFF" | "\<not> v < 253" "\<not> v \<le> 0xFFFF" by blast
    then show ?thesis
    proof cases
      case 1
      then have u: "unat (ucast v :: u8) = unat v" by (simp add: word_of_unat_ucast word_less_nat_alt)
      then have "ucast v \<noteq> (0xFD :: u8)" "ucast v \<noteq> (0xFE :: u8)" "ucast v \<noteq> (0xFF :: u8)" "ucast (ucast v :: u8) = v"
        using 1 by (auto simp: word_unat_eq_iff word_less_nat_alt word_of_unat_ucast)
      then show ?thesis
        using 1 by (simp add: read_compact_size_def write_compact_size_def dbind_def read_slice_def dret_def)
    next
      case 2
      then have "ucast (ucast v :: u16) = v" by (simp add: word_unat_eq_iff word_le_nat_alt word_of_unat_ucast)
      then show ?thesis
        using 2 by (simp add: read_compact_size_def write_compact_size_def dbind_def read_slice_def dret_def
            length_to_le_bytes from_to_le_bytes_word Let_def)
    next
      case 3
      then show ?thesis
        by (simp add: read_compact_size_def write_compact_size_def dbind_def read_slice_def dret_def
            length_to_le_bytes from_to_le_bytes_word Let_def)
    qed
  qed
next
  fix bs v rest
  assume dec: "read_compact_size bs = Ok (v, rest)"
  obtain m bs1 where bs: "bs = m # bs1"
    using dec by (cases bs) (auto simp: read_compact_size_def dbind_def read_slice_def)
  consider "m = 0xFD" | "m = 0xFE" | "m = 0xFF" | "m \<noteq> 0xFD" "m \<noteq> 0xFE" "m \<noteq> 0xFF" by blast
  then show "True \<and> bs = write_compact_size v @ rest"
  proof cases
    case 1
    then obtain buf where buf: "bs1 = buf @ rest" "length buf = 2" "v = ucast (from_le_bytes buf :: u16)" "\<not> v < 0xFD"
      using dec by (auto simp: read_compact_size_def bs dbind_Ok_iff dret_Ok_iff dfail_Ok_iff read_slice_Ok_iff
          read_slice_def [of "Suc 0"] Let_def split: if_splits)
    have "unat v \<le> 0xFFFF" 
      using unsigned_less [of "from_le_bytes buf :: u16", where ?'a = nat] unfolding buf(3) word_of_unat_ucast by simp
    moreover have "(ucast v :: u16) = from_le_bytes buf"
      using unsigned_less [of "from_le_bytes buf :: u16", where ?'a = nat]
      by (simp add: buf(3) word_unat_eq_iff word_of_unat_ucast)
    then have "to_le_bytes (ucast v :: u16) = buf" using buf(2) by (simp add: to_from_le_bytes_word)
    ultimately show ?thesis using buf 1 by (simp add: bs write_compact_size_def word_le_nat_alt)
  next
    case 2
    then obtain buf where buf: "bs1 = buf @ rest" "length buf = 4" "v = from_le_bytes buf" "\<not> v \<le> 0xFFFF"
      using dec by (auto simp: read_compact_size_def bs dbind_Ok_iff dret_Ok_iff dfail_Ok_iff read_slice_Ok_iff
          read_slice_def [of "Suc 0"] Let_def split: if_splits)
    then have "\<not> v < 253" by (simp add: word_le_nat_alt word_less_nat_alt)
    then show ?thesis using buf 2 by (simp add: bs write_compact_size_def to_from_le_bytes_word)
  next
    case 3
    then show ?thesis
      using dec by (simp add: read_compact_size_def bs dbind_def read_slice_def dfail_def)
  next
    case 4
    then have v: "v = ucast m" "bs1 = rest"
      using dec by (auto simp: read_compact_size_def bs dbind_def read_slice_def dret_def split: if_splits)
    have "unat m < 256" using unsigned_less [of m] by simp
    then have "unat m < 253" using 4 by (auto simp: word_unat_eq_iff)
    then show ?thesis
      using v by (simp add: bs write_compact_size_def word_less_nat_alt word_of_unat_ucast word_unat_eq_iff)
  qed
qed

lemma set_bit_step_eq: "p < length bs \<Longrightarrow> set_bit_step bs p bytes = pack_step bs p bytes"
  by (simp add: set_bit_step_def pack_step_def)

lemma write_fixed_bitset_eq:
  assumes "length bs \<le> MAX_BITSET_SIZE"
  shows "write_fixed_bitset bs (length bs) = Ok (pack_bits bs)"
proof -
  have "fold (set_bit_step bs) ps x = fold (pack_step bs) ps x" if "\<forall>p\<in>set ps. p < length bs" for ps x
    using that by (induction ps arbitrary: x) (simp_all add: set_bit_step_eq)
  from this [of "[0..<length bs]"] show ?thesis
    using assms by (simp add: write_fixed_bitset_def pack_bits_def)
qed

lemma read_write_bitset:
  assumes "length bs \<le> MAX_BITSET_SIZE"
  shows "read_fixed_bitset (length bs) (pack_bits bs @ rest) = Ok (bs, rest)"
proof -
  have "map (\<lambda>p. drop_bit (p mod 8) (pack_bits bs ! (p div 8)) AND 1 \<noteq> 0) [0..<length bs] = bs"
  proof (rule nth_equalityI)
    fix p assume "p < length (map (\<lambda>p. drop_bit (p mod 8) (pack_bits bs ! (p div 8)) AND 1 \<noteq> 0) [0..<length bs])"
    then have p: "p < length bs" by simp
    then have k: "p div 8 < (length bs + 7) div 8" by auto
    have "drop_bit (p mod 8) (pack_bits bs ! (p div 8)) AND 1 \<noteq> 0 \<longleftrightarrow> bit (pack_bits bs ! (p div 8)) (p mod 8)"
      by (simp add: and_one_eq bit_iff_odd_drop_bit odd_iff_mod_2_eq_one)
    also have "\<dots> \<longleftrightarrow> bs ! p"
      unfolding pack_bits_def using bit_pack_fold [OF order_refl k, of "p mod 8"] p by simp
    finally show "map (\<lambda>p. drop_bit (p mod 8) (pack_bits bs ! (p div 8)) AND 1 \<noteq> 0) [0..<length bs] ! p = bs ! p"
      using p by simp
  qed simp
  then show ?thesis
    using assms by (simp add: read_fixed_bitset_def dret_def)
qed

section \<open>Socket addresses round trip unless they are IPv4-compatible\<close>

definition socket_addr_ok :: "socket_addr \<Rightarrow> bool" where
  "socket_addr_ok a =
     (case a of SocketAddrV4 _ _ \<Rightarrow> True
      | SocketAddrV6 v6 _ f s \<Rightarrow> to_ipv4 v6 = None \<and> f = 0 \<and> s = 0)"

lemma swap_swap [simp]: "swap_bytes (swap_bytes x) = x"
  by (simp add: swap_bytes_def to_from_le_bytes_word from_to_le_bytes_word length_to_le_bytes)

lemma mapped_parts: "drop_bit 32 (to_ipv6_mapped ip) = 0xFFFF" "ucast (to_ipv6_mapped ip) = ip"
proof -
  have u: "unat (to_ipv6_mapped ip) = 0xFFFF00000000 + unat ip"
    using unsigned_less [of ip, where ?'a = nat] by (simp add: to_ipv6_mapped_def unat_word_ariths word_of_unat_ucast)
  show "drop_bit 32 (to_ipv6_mapped ip) = 0xFFFF"
    using unsigned_less [of ip, where ?'a = nat]
    by (simp add: word_unat_eq_iff drop_bit_eq_div unat_div u)
  show "ucast (to_ipv6_mapped ip) = ip"
    using unsigned_less [of ip, where ?'a = nat] mod_add_eq [of 281470681743360 4294967296 "unat ip"]
    by (simp add: word_unat_eq_iff word_of_unat_ucast u)
qed

lemma mapped_of_parts: "drop_bit 32 (ip :: u128) = 0xFFFF \<Longrightarrow> to_ipv6_mapped (ucast ip) = ip"
proof -
  assume "drop_bit 32 ip = 0xFFFF"
  then have "unat ip div 2 ^ 32 = 0xFFFF" by (simp add: word_unat_eq_iff drop_bit_eq_div unat_div)
  then have "unat ip = 0xFFFF * 2 ^ 32 + unat ip mod 2 ^ 32" using div_mult_mod_eq [of "unat ip" "2 ^ 32"] by simp
  then show ?thesis
    by (simp add: word_unat_eq_iff to_ipv6_mapped_def unat_word_ariths word_of_unat_ucast)
qed

lemma be_bytes: "length (to_be_bytes (x :: u128)) = 16" "from_be_bytes (to_be_bytes x) = (x :: u128)"
  "length bs = 16 \<Longrightarrow> to_be_bytes (from_be_bytes bs :: u128) = bs"
  by (simp_all add: to_be_bytes_def from_be_bytes_def length_to_le_bytes from_to_le_bytes_word to_from_le_bytes_word)

interpretation c_socket: codec socket_addr_encode socket_addr_decode socket_addr_ok
  by unfold_locales
    (auto simp: socket_addr_encode_def socket_addr_decode_def socket_addr_ok_def be_bytes Let_def dret_def
      to_ipv4_def mapped_parts split: socket_addr.splits)

text \<open>
  C32: a decoded socket address is written back as the bytes it was read from exactly if the upper 96
  bits of the address are not all zero: IPv4-compatible addresses, among them the unspecified
  address, are read as IPv4 addresses and come back in the mapped form.
\<close>

theorem socket_addr_reencode:
  assumes "socket_addr_decode bs = Ok (a, rest)"
  shows "bs = socket_addr_encode a @ rest \<longleftrightarrow> drop_bit 32 (from_be_bytes (take 16 bs) :: u128) \<noteq> 0"
proof -
  obtain ipb p where bs: "bs = ipb @ emit_int p @ rest" "length ipb = 16"
    and a: "a = (case to_ipv4 (from_be_bytes ipb) of Some ipv4 \<Rightarrow> SocketAddrV4 ipv4 (swap_bytes p)
               | None \<Rightarrow> SocketAddrV6 (from_be_bytes ipb) (swap_bytes p) 0 0)"
    using assms by (auto simp: socket_addr_decode_def dbind_Ok_iff dret_Ok_iff read_slice_Ok_iff c_u16.decode_iff Let_def)
  let ?ip = "from_be_bytes ipb :: u128"
  have take: "take 16 bs = ipb" using bs by simp
  consider "drop_bit 32 ?ip = 0" | "drop_bit 32 ?ip = 0xFFFF" | "drop_bit 32 ?ip \<noteq> 0" "drop_bit 32 ?ip \<noteq> 0xFFFF" by blast
  then show ?thesis
  proof cases
    case 1
    have "to_ipv6_mapped (ucast ?ip) \<noteq> ?ip" using mapped_parts(1) [of "ucast ?ip"] 1 by auto
    then have "to_be_bytes (to_ipv6_mapped (ucast ?ip)) \<noteq> ipb" using be_bytes(2) by metis
    then have "socket_addr_encode a @ rest \<noteq> bs"
      using 1 a bs by (simp add: socket_addr_encode_def to_ipv4_def be_bytes(1))
    with 1 take show ?thesis by auto
  next
    case 2
    then show ?thesis
      using a bs take by (simp add: socket_addr_encode_def to_ipv4_def mapped_of_parts be_bytes(3))
  next
    case 3
    then show ?thesis
      using a bs take by (simp add: socket_addr_encode_def to_ipv4_def be_bytes(3))
  qed
qed

theorem socket_addr_reencode_witness:
  "socket_addr_decode (replicate 18 0) = Ok (SocketAddrV4 0 0, []) \<and>
   replicate 18 0 \<noteq> socket_addr_encode (SocketAddrV4 0 0)"
proof -
  have z: "(from_be_bytes (replicate 16 0) :: u128) = 0"
    by (simp add: from_be_bytes_def from_le_bytes_def numeral_eq_Suc)
  have "(from_le_bytes (replicate 2 0) :: u16) = 0" "swap_bytes 0 = 0"
    by (code_simp, code_simp)
  with z have d: "socket_addr_decode (replicate 18 0) = Ok (SocketAddrV4 0 0, [])"
    by (simp add: socket_addr_decode_def dbind_def read_slice_def read_int_def dret_def Let_def to_ipv4_def)
  show ?thesis using d socket_addr_reencode [OF d] by (simp add: z)
qed

section \<open>Inputs and outputs round trip\<close>

definition outpoint_ok :: "outpoint \<Rightarrow> bool" where
  "outpoint_ok o' \<longleftrightarrow> length (op_txid o') = 32"

interpretation c_outpoint: canonical_codec outpoint_encode outpoint_decode outpoint_ok
  by unfold_locales
    (auto simp: outpoint_encode_def outpoint_decode_def outpoint_ok_def dret_def c_hash.bind_enc
      dbind_Ok_iff c_hash.decode_iff c_u32.decode_iff)

interpretation c_script: canonical_codec script_encode script_decode "\<lambda>s. length s < 2 ^ 64"
  unfolding script_encode_def [abs_def] script_decode_def by (rule bytes_canonical_codec)

interpretation c_script_limited: canonical_codec script_encode "consensus_decode script_decode"
  "\<lambda>s. length s < 2 ^ 64 \<and> length (script_encode s) \<le> MAX_VEC_SIZE"
  by (rule c_script.limited_canonical_codec)

definition txin_ok :: "txin \<Rightarrow> bool" where
  "txin_ok i \<longleftrightarrow> outpoint_ok (previous_output i) \<and> length (script_sig i) < 2 ^ 64"

definition txin_bare :: "txin \<Rightarrow> bool" where
  "txin_bare i \<longleftrightarrow> txin_ok i \<and> in_witness i = witness_default"

interpretation c_txin: canonical_codec txin_encode txin_decode txin_bare
  by unfold_locales
    (auto simp: txin_encode_def txin_decode_def txin_ok_def txin_bare_def dret_def c_outpoint.bind_enc c_script.bind_enc
      dbind_Ok_iff c_outpoint.decode_iff c_script.decode_iff c_u32.decode_iff)

definition txout_ok :: "txout \<Rightarrow> bool" where
  "txout_ok t \<longleftrightarrow> length (script_pubkey t) < 2 ^ 64"

interpretation c_txout: canonical_codec txout_encode txout_decode txout_ok
  by unfold_locales
    (auto simp: txout_encode_def txout_decode_def txout_ok_def dret_def c_script.bind_enc
      dbind_Ok_iff c_script.decode_iff c_u64.decode_iff)

interpretation c_txins: canonical_codec "vec_encode txin_encode" "vec_decode txin_decode" "vec_wf txin_bare"
  by (rule c_txin.vec_canonical_codec)

interpretation c_txouts: canonical_codec "vec_encode txout_encode" "vec_decode txout_decode" "vec_wf txout_ok"
  by (rule c_txout.vec_canonical_codec)

interpretation c_txouts_limited: canonical_codec "vec_encode txout_encode" "consensus_decode (vec_decode txout_decode)"
  "\<lambda>ts. vec_wf txout_ok ts \<and> length (vec_encode txout_encode ts) \<le> MAX_VEC_SIZE"
  by (rule c_txouts.limited_canonical_codec)

lemma length_txout_encode: "length (txout_encode t) = txout_size t"
  by (simp add: txout_encode_def txout_size_def script_encode_def consensus_encode_with_size_def emit_int_def
      length_to_le_bytes varint_len_encode)

end
