(* ===== verification/Llmq.thy ===== *)
theory Llmq
  imports Network_Params Consensus
begin

text \<open>
  Long-living masternode quorum types, from \<open>src/dash/src/sml/llmq_type/mod.rs\<close> and
  \<open>network.rs\<close>: the parameter tables, the numbering of the types, and the windows of block heights
  in which the commitments of distributed key generation (DKG) can be mined. Heights are \<open>u32\<close> and
  wrap. The search for windows in a range is a loop that does not end for every argument, so it is
  a partial function whose value is \<open>None\<close> when the loop runs forever.
\<close>

section \<open>Parameters\<close>

datatype llmq_type =
    LlmqtypeUnknown
  | Llmqtype50_60
  | Llmqtype400_60
  | Llmqtype400_85
  | Llmqtype100_67
  | Llmqtype60_75
  | Llmqtype25_67
  | LlmqtypeTest
  | LlmqtypeDevnet
  | LlmqtypeTestV17
  | LlmqtypeTestDIP0024
  | LlmqtypeTestInstantSend
  | LlmqtypeDevnetDIP0024
  | LlmqtypeTestnetPlatform
  | LlmqtypeDevnetPlatform

record dkg_window =
  cycle_start :: u32
  mining_start :: u32
  mining_end :: u32
  dw_llmq_type :: llmq_type

record dkg_params =
  interval :: u32
  phase_blocks :: u32
  mining_window_start :: u32
  mining_window_end :: u32
  bad_votes_threshold :: u32

record llmq_params =
  quorum_type :: llmq_type
  lp_name :: string
  lp_size :: u32
  min_size :: u32
  lp_threshold :: u32
  lp_dkg_params :: dkg_params
  signing_active_quorum_count :: u32
  keep_old_connections :: u32
  recovery_members :: u32

definition DKG_TEST :: dkg_params where
  "DKG_TEST =
     \<lparr>interval = 24,
      phase_blocks = 2,
      mining_window_start = 10,
      mining_window_end = 18,
      bad_votes_threshold = 2\<rparr>"

definition DKG_DEVNET :: dkg_params where
  "DKG_DEVNET =
     \<lparr>interval = 24,
      phase_blocks = 2,
      mining_window_start = 10,
      mining_window_end = 18,
      bad_votes_threshold = 7\<rparr>"

definition DKG_DEVNET_DIP_0024 :: dkg_params where
  "DKG_DEVNET_DIP_0024 =
     \<lparr>interval = 48,
      phase_blocks = 2,
      mining_window_start = 10,
      mining_window_end = 18,
      bad_votes_threshold = 7\<rparr>"

definition DKG_50_60 :: dkg_params where
  "DKG_50_60 =
     \<lparr>interval = 24,
      phase_blocks = 2,
      mining_window_start = 10,
      mining_window_end = 18,
      bad_votes_threshold = 40\<rparr>"

definition DKG_400_60 :: dkg_params where
  "DKG_400_60 =
     \<lparr>interval = 24 * 12,
      phase_blocks = 4,
      mining_window_start = 20,
      mining_window_end = 28,
      bad_votes_threshold = 300\<rparr>"

definition DKG_400_85 :: dkg_params where
  "DKG_400_85 =
     \<lparr>interval = 24 * 24,
      phase_blocks = 4,
      mining_window_start = 20,
      mining_window_end = 48,
      bad_votes_threshold = 300\<rparr>"

definition DKG_100_67 :: dkg_params where
  "DKG_100_67 =
     \<lparr>interval = 24,
      phase_blocks = 2,
      mining_window_start = 10,
      mining_window_end = 18,
      bad_votes_threshold = 80\<rparr>"

definition DKG_60_75 :: dkg_params where
  "DKG_60_75 =
     \<lparr>interval = 24 * 12,
      phase_blocks = 2,
      mining_window_start = 42,
      mining_window_end = 50,
      bad_votes_threshold = 48\<rparr>"

definition DKG_25_67 :: dkg_params where
  "DKG_25_67 =
     \<lparr>interval = 24,
      phase_blocks = 2,
      mining_window_start = 10,
      mining_window_end = 18,
      bad_votes_threshold = 22\<rparr>"

definition DKG_TEST_DIP0024 :: dkg_params where
  "DKG_TEST_DIP0024 =
     \<lparr>interval = 24,
      phase_blocks = 2,
      mining_window_start = 12,
      mining_window_end = 20,
      bad_votes_threshold = 2\<rparr>"

definition DKG_PLATFORM_TESTNET :: dkg_params where
  "DKG_PLATFORM_TESTNET =
     \<lparr>interval = 24 * 12,
      phase_blocks = 2,
      mining_window_start = 10,
      mining_window_end = 18,
      bad_votes_threshold = 2\<rparr>"

definition DKG_PLATFORM_DEVNET :: dkg_params where
  "DKG_PLATFORM_DEVNET =
     \<lparr>interval = 24 * 12,
      phase_blocks = 2,
      mining_window_start = 10,
      mining_window_end = 18,
      bad_votes_threshold = 7\<rparr>"

definition LLMQ_TEST :: llmq_params where
  "LLMQ_TEST =
     \<lparr>quorum_type = LlmqtypeTest,
      lp_name = ''llmq_test'',
      lp_size = 4,
      min_size = 2,
      lp_threshold = 2,
      lp_dkg_params = DKG_TEST,
      signing_active_quorum_count = 2,
      keep_old_connections = 3,
      recovery_members = 3\<rparr>"

definition LLMQ_V017 :: llmq_params where
  "LLMQ_V017 =
     \<lparr>quorum_type = LlmqtypeTestV17,
      lp_name = ''llmq_test_v17'',
      lp_size = 3,
      min_size = 2,
      lp_threshold = 2,
      lp_dkg_params = DKG_TEST,
      signing_active_quorum_count = 2,
      keep_old_connections = 3,
      recovery_members = 3\<rparr>"

definition LLMQ_0024 :: llmq_params where
  "LLMQ_0024 =
     \<lparr>quorum_type = LlmqtypeDevnetDIP0024,
      lp_name = ''llmq_devnet_dip0024'',
      lp_size = 8,
      min_size = 6,
      lp_threshold = 4,
      lp_dkg_params = DKG_DEVNET_DIP_0024,
      signing_active_quorum_count = 2,
      keep_old_connections = 4,
      recovery_members = 4\<rparr>"

definition LLMQ_TEST_DIP00024 :: llmq_params where
  "LLMQ_TEST_DIP00024 =
     \<lparr>quorum_type = LlmqtypeTestDIP0024,
      lp_name = ''llmq_test_dip0024'',
      lp_size = 4,
      min_size = 4,
      lp_threshold = 3,
      lp_dkg_params = DKG_TEST_DIP0024,
      signing_active_quorum_count = 2,
      keep_old_connections = 4,
      recovery_members = 3\<rparr>"

definition LLMQ_TEST_INSTANT_SEND :: llmq_params where
  "LLMQ_TEST_INSTANT_SEND =
     \<lparr>quorum_type = LlmqtypeTestInstantSend,
      lp_name = ''llmq_test_instantsend'',
      lp_size = 3,
      min_size = 2,
      lp_threshold = 2,
      lp_dkg_params = DKG_TEST,
      signing_active_quorum_count = 2,
      keep_old_connections = 3,
      recovery_members = 3\<rparr>"

definition LLMQ_DEVNET :: llmq_params where
  "LLMQ_DEVNET =
     \<lparr>quorum_type = LlmqtypeDevnet,
      lp_name = ''llmq_devnet'',
      lp_size = 12,
      min_size = 7,
      lp_threshold = 6,
      lp_dkg_params = DKG_DEVNET,
      signing_active_quorum_count = 4,
      keep_old_connections = 4,
      recovery_members = 6\<rparr>"

definition LLMQ_50_60 :: llmq_params where
  "LLMQ_50_60 =
     \<lparr>quorum_type = Llmqtype50_60,
      lp_name = ''llmq_50_60'',
      lp_size = 50,
      min_size = 40,
      lp_threshold = 30,
      lp_dkg_params = DKG_50_60,
      signing_active_quorum_count = 24,
      keep_old_connections = 25,
      recovery_members = 25\<rparr>"

definition LLMQ_400_60 :: llmq_params where
  "LLMQ_400_60 =
     \<lparr>quorum_type = Llmqtype400_60,
      lp_name = ''llmq_400_60'',
      lp_size = 400,
      min_size = 300,
      lp_threshold = 240,
      lp_dkg_params = DKG_400_60,
      signing_active_quorum_count = 4,
      keep_old_connections = 5,
      recovery_members = 100\<rparr>"

definition LLMQ_400_85 :: llmq_params where
  "LLMQ_400_85 =
     \<lparr>quorum_type = Llmqtype400_60,
      lp_name = ''llmq_400_85'',
      lp_size = 400,
      min_size = 350,
      lp_threshold = 340,
      lp_dkg_params = DKG_400_85,
      signing_active_quorum_count = 4,
      keep_old_connections = 5,
      recovery_members = 100\<rparr>"

definition LLMQ_100_67 :: llmq_params where
  "LLMQ_100_67 =
     \<lparr>quorum_type = Llmqtype100_67,
      lp_name = ''llmq_100_67'',
      lp_size = 100,
      min_size = 80,
      lp_threshold = 67,
      lp_dkg_params = DKG_100_67,
      signing_active_quorum_count = 24,
      keep_old_connections = 25,
      recovery_members = 50\<rparr>"

definition LLMQ_60_75 :: llmq_params where
  "LLMQ_60_75 =
     \<lparr>quorum_type = Llmqtype60_75,
      lp_name = ''llmq_60_75'',
      lp_size = 60,
      min_size = 50,
      lp_threshold = 45,
      lp_dkg_params = DKG_60_75,
      signing_active_quorum_count = 32,
      keep_old_connections = 64,
      recovery_members = 25\<rparr>"

definition LLMQ_25_67 :: llmq_params where
  "LLMQ_25_67 =
     \<lparr>quorum_type = Llmqtype25_67,
      lp_name = ''llmq_25_67'',
      lp_size = 25,
      min_size = 22,
      lp_threshold = 17,
      lp_dkg_params = DKG_25_67,
      signing_active_quorum_count = 24,
      keep_old_connections = 25,
      recovery_members = 12\<rparr>"

definition LLMQ_TEST_PLATFORM :: llmq_params where
  "LLMQ_TEST_PLATFORM =
     \<lparr>quorum_type = LlmqtypeTestnetPlatform,
      lp_name = ''llmq_test_platform'',
      lp_size = 3,
      min_size = 2,
      lp_threshold = 2,
      lp_dkg_params = DKG_PLATFORM_TESTNET,
      signing_active_quorum_count = 2,
      keep_old_connections = 4,
      recovery_members = 3\<rparr>"

definition LLMQ_DEV_PLATFORM :: llmq_params where
  "LLMQ_DEV_PLATFORM =
     \<lparr>quorum_type = LlmqtypeDevnetPlatform,
      lp_name = ''llmq_dev_platform'',
      lp_size = 12,
      min_size = 9,
      lp_threshold = 8,
      lp_dkg_params = DKG_PLATFORM_DEVNET,
      signing_active_quorum_count = 4,
      keep_old_connections = 4,
      recovery_members = 3\<rparr>"

fun params :: "llmq_type \<Rightarrow> llmq_params" where
  "params Llmqtype50_60 = LLMQ_50_60"
| "params Llmqtype400_60 = LLMQ_400_60"
| "params Llmqtype400_85 = LLMQ_400_85"
| "params Llmqtype100_67 = LLMQ_100_67"
| "params Llmqtype60_75 = LLMQ_60_75"
| "params Llmqtype25_67 = LLMQ_25_67"
| "params LlmqtypeTest = LLMQ_TEST"
| "params LlmqtypeDevnet = LLMQ_DEVNET"
| "params LlmqtypeTestV17 = LLMQ_V017"
| "params LlmqtypeTestDIP0024 = LLMQ_TEST_DIP00024"
| "params LlmqtypeTestInstantSend = LLMQ_TEST_INSTANT_SEND"
| "params LlmqtypeDevnetDIP0024 = LLMQ_0024"
| "params LlmqtypeTestnetPlatform = LLMQ_TEST_PLATFORM"
| "params LlmqtypeDevnetPlatform = LLMQ_DEV_PLATFORM"
| "params LlmqtypeUnknown = LLMQ_DEVNET"

definition llmq_size :: "llmq_type \<Rightarrow> u32" where
  "llmq_size t = lp_size (params t)"

definition threshold :: "llmq_type \<Rightarrow> u32" where
  "threshold t = lp_threshold (params t)"

definition active_quorum_count :: "llmq_type \<Rightarrow> u32" where
  "active_quorum_count t = signing_active_quorum_count (params t)"

section \<open>Numbering\<close>

definition llmq_from_u8 :: "u8 \<Rightarrow> llmq_type" where
  "llmq_from_u8 orig =
     (if orig = 1 then Llmqtype50_60 else
      if orig = 2 then Llmqtype400_60 else
      if orig = 3 then Llmqtype400_85 else
      if orig = 4 then Llmqtype100_67 else
      if orig = 5 then Llmqtype60_75 else
      if orig = 6 then Llmqtype25_67 else
      if orig = 100 then LlmqtypeTest else
      if orig = 101 then LlmqtypeDevnet else
      if orig = 102 then LlmqtypeTestV17 else
      if orig = 103 then LlmqtypeTestDIP0024 else
      if orig = 104 then LlmqtypeTestInstantSend else
      if orig = 105 then LlmqtypeDevnetDIP0024 else
      if orig = 106 then LlmqtypeTestnetPlatform else
      LlmqtypeUnknown)"

fun llmq_index :: "llmq_type \<Rightarrow> u8" where
  "llmq_index LlmqtypeUnknown = 0"
| "llmq_index Llmqtype50_60 = 1"
| "llmq_index Llmqtype400_60 = 2"
| "llmq_index Llmqtype400_85 = 3"
| "llmq_index Llmqtype100_67 = 4"
| "llmq_index Llmqtype60_75 = 5"
| "llmq_index Llmqtype25_67 = 6"
| "llmq_index LlmqtypeTest = 100"
| "llmq_index LlmqtypeDevnet = 101"
| "llmq_index LlmqtypeTestV17 = 102"
| "llmq_index LlmqtypeTestDIP0024 = 103"
| "llmq_index LlmqtypeTestInstantSend = 104"
| "llmq_index LlmqtypeDevnetDIP0024 = 105"
| "llmq_index LlmqtypeTestnetPlatform = 106"
| "llmq_index LlmqtypeDevnetPlatform = 107"

definition llmq_from_u16 :: "u16 \<Rightarrow> llmq_type" where
  "llmq_from_u16 index = llmq_from_u8 (ucast index)"

definition llmq_encode :: "llmq_type \<Rightarrow> u8 list" where
  "llmq_encode t = emit_u8 (llmq_index t)"

definition llmq_decode :: "llmq_type decoder" where
  "llmq_decode = dbind read_u8 (\<lambda>n. dret (llmq_from_u8 n))"

section \<open>Mining windows\<close>

definition dkg_rotation_params :: "network \<Rightarrow> dkg_params" where
  "dkg_rotation_params n = (if n = Devnet then DKG_DEVNET_DIP_0024 else DKG_60_75)"

fun is_rotating_quorum_type :: "llmq_type \<Rightarrow> bool" where
  "is_rotating_quorum_type Llmqtype60_75 = True"
| "is_rotating_quorum_type LlmqtypeDevnetDIP0024 = True"
| "is_rotating_quorum_type LlmqtypeTestDIP0024 = True"
| "is_rotating_quorum_type _ = False"

definition get_cycle_base_height :: "llmq_type \<Rightarrow> u32 \<Rightarrow> u32" where
  "get_cycle_base_height t height =
     (let interval = interval (lp_dkg_params (params t)) in (height div interval) * interval)"

definition get_dkg_window_for_height :: "llmq_type \<Rightarrow> u32 \<Rightarrow> dkg_window" where
  "get_dkg_window_for_height t height =
     (let p = params t;
          cycle_start = get_cycle_base_height t height;
          mining_start =
            (if is_rotating_quorum_type t
             then cycle_start + signing_active_quorum_count p + phase_blocks (lp_dkg_params p) * 5
             else cycle_start + mining_window_start (lp_dkg_params p));
          mining_end = cycle_start + mining_window_end (lp_dkg_params p) in
      \<lparr>cycle_start = cycle_start, mining_start = mining_start, mining_end = mining_end, dw_llmq_type = t\<rparr>)"

partial_function (option) dkg_windows_loop ::
    "llmq_type \<Rightarrow> u32 \<Rightarrow> u32 \<Rightarrow> u32 \<Rightarrow> dkg_window list \<Rightarrow> dkg_window list option" where
  "dkg_windows_loop t start e cycle windows =
     (if cycle \<le> e then
        let window = get_dkg_window_for_height t cycle;
            windows' =
              (if mining_end window \<ge> start \<and> mining_start window \<le> e then windows @ [window] else windows) in
        dkg_windows_loop t start e (cycle + interval (lp_dkg_params (params t))) windows'
      else Some windows)"

definition get_dkg_windows_in_range :: "llmq_type \<Rightarrow> u32 \<Rightarrow> u32 \<Rightarrow> dkg_window list option" where
  "get_dkg_windows_in_range t start e =
     (let dkg = lp_dkg_params (params t);
          below = (if start < mining_window_end dkg then 0 else start - mining_window_end dkg);
          first_possible_cycle = (below div interval dkg) * interval dkg in
      dkg_windows_loop t start e first_possible_cycle [])"

section \<open>Quorum types of the networks\<close>

fun is_llmq_type :: "network \<Rightarrow> llmq_type" where
  "is_llmq_type Mainnet = Llmqtype50_60"
| "is_llmq_type Testnet = Llmqtype50_60"
| "is_llmq_type Devnet = LlmqtypeDevnet"
| "is_llmq_type Regtest = LlmqtypeTestInstantSend"

fun isd_llmq_type :: "network \<Rightarrow> llmq_type" where
  "isd_llmq_type Mainnet = Llmqtype60_75"
| "isd_llmq_type Testnet = Llmqtype60_75"
| "isd_llmq_type Devnet = LlmqtypeDevnetDIP0024"
| "isd_llmq_type Regtest = LlmqtypeTestDIP0024"

fun chain_locks_type :: "network \<Rightarrow> llmq_type" where
  "chain_locks_type Mainnet = Llmqtype400_60"
| "chain_locks_type Testnet = Llmqtype50_60"
| "chain_locks_type Devnet = LlmqtypeDevnet"
| "chain_locks_type Regtest = LlmqtypeTest"

fun platform_type :: "network \<Rightarrow> llmq_type" where
  "platform_type Mainnet = Llmqtype100_67"
| "platform_type Testnet = Llmqtype25_67"
| "platform_type Devnet = LlmqtypeDevnet"
| "platform_type Regtest = LlmqtypeTestnetPlatform"

fun enabled_llmq_types :: "network \<Rightarrow> llmq_type list" where
  "enabled_llmq_types Mainnet = [Llmqtype50_60, Llmqtype60_75, Llmqtype400_60, Llmqtype400_85, Llmqtype100_67]"
| "enabled_llmq_types Testnet = [Llmqtype50_60, Llmqtype60_75, Llmqtype25_67]"
| "enabled_llmq_types Devnet = [LlmqtypeDevnet, LlmqtypeDevnetDIP0024, LlmqtypeDevnetPlatform]"
| "enabled_llmq_types Regtest = [LlmqtypeTest, LlmqtypeTestDIP0024, LlmqtypeTestInstantSend]"

definition should_skip_quorum_type :: "network \<Rightarrow> llmq_type \<Rightarrow> u32 \<Rightarrow> bool" where
  "should_skip_quorum_type n t height =
     (if n = Mainnet \<and> t = Llmqtype100_67 then height < 1888888
      else if n = Testnet \<and> t = Llmqtype25_67 then height < 1289520
      else False)"

fun push_window :: "dkg_window \<Rightarrow> (u32, dkg_window list) btree_map \<Rightarrow> (u32, dkg_window list) btree_map" where
  "push_window w m =
     (let group = (case bt_get m (mining_start w) of None \<Rightarrow> [] | Some ws \<Rightarrow> ws) in
      bt_insert (mining_start w) (group @ [w]) m)"

fun all_dkg_windows_loop ::
    "network \<Rightarrow> u32 \<Rightarrow> u32 \<Rightarrow> llmq_type list \<Rightarrow> (u32, dkg_window list) btree_map \<Rightarrow> (u32, dkg_window list) btree_map option" where
  "all_dkg_windows_loop n start e [] m = Some m"
| "all_dkg_windows_loop n start e (t # ts) m =
     (case get_dkg_windows_in_range t start e of
        None \<Rightarrow> None
      | Some ws \<Rightarrow>
          all_dkg_windows_loop n start e ts
            (fold push_window (filter (\<lambda>w. \<not> should_skip_quorum_type n t (mining_start w)) ws) m))"

definition get_all_dkg_windows :: "network \<Rightarrow> u32 \<Rightarrow> u32 \<Rightarrow> (u32, dkg_window list) btree_map option" where
  "get_all_dkg_windows n start e = all_dkg_windows_loop n start e (enabled_llmq_types n) []"

section \<open>Numbering round trips\<close>

text \<open>
  C35: reading back the number of a quorum type gives the type, except for the devnet platform type,
  whose number 107 is read as the unknown type; and a number is written back unchanged exactly if
  it is one of 0 to 6 and 100 to 106.
\<close>

theorem llmq_numbering:
  "(llmq_from_u8 (llmq_index t) = t \<longleftrightarrow> t \<noteq> LlmqtypeDevnetPlatform) \<and>
   (llmq_index (llmq_from_u8 n) = n \<longleftrightarrow> n \<le> 6 \<or> 100 \<le> n \<and> n \<le> 106)"
proof
  show "llmq_from_u8 (llmq_index t) = t \<longleftrightarrow> t \<noteq> LlmqtypeDevnetPlatform"
    by (cases t) (simp_all add: llmq_from_u8_def)
  have "n \<le> 6 \<longleftrightarrow> n \<in> {0, 1, 2, 3, 4, 5, 6}"
    unfolding word_le_nat_alt by (auto simp: word_unat_eq_iff)
  moreover have "100 \<le> n \<and> n \<le> 106 \<longleftrightarrow> n \<in> {100, 101, 102, 103, 104, 105, 106}"
    unfolding word_le_nat_alt by (auto simp: word_unat_eq_iff)
  ultimately show "llmq_index (llmq_from_u8 n) = n \<longleftrightarrow> n \<le> 6 \<or> 100 \<le> n \<and> n \<le> 106"
    by (auto simp: llmq_from_u8_def)
qed

section \<open>The mining windows of a range\<close>

lemmas param_tables =
  DKG_TEST_def DKG_DEVNET_def DKG_DEVNET_DIP_0024_def DKG_50_60_def DKG_400_60_def DKG_400_85_def
  DKG_100_67_def DKG_60_75_def DKG_25_67_def DKG_TEST_DIP0024_def DKG_PLATFORM_TESTNET_def
  DKG_PLATFORM_DEVNET_def LLMQ_TEST_def LLMQ_V017_def LLMQ_0024_def LLMQ_TEST_DIP00024_def
  LLMQ_TEST_INSTANT_SEND_def LLMQ_DEVNET_def LLMQ_50_60_def LLMQ_400_60_def LLMQ_400_85_def
  LLMQ_100_67_def LLMQ_60_75_def LLMQ_25_67_def LLMQ_TEST_PLATFORM_def LLMQ_DEV_PLATFORM_def

text \<open>The interval of a type and its window within a cycle, as numbers.\<close>

definition cycle_length :: "llmq_type \<Rightarrow> nat" where
  "cycle_length t = unat (interval (lp_dkg_params (params t)))"

definition window_first :: "llmq_type \<Rightarrow> nat" where
  "window_first t =
     (if is_rotating_quorum_type t
      then unat (signing_active_quorum_count (params t) + phase_blocks (lp_dkg_params (params t)) * 5)
      else unat (mining_window_start (lp_dkg_params (params t))))"

definition window_last :: "llmq_type \<Rightarrow> nat" where
  "window_last t = unat (mining_window_end (lp_dkg_params (params t)))"

lemma window_in_cycle: "0 < window_first t \<and> window_first t \<le> window_last t \<and> window_last t < cycle_length t \<and> cycle_length t \<le> 576"
  by (cases t) (simp_all add: window_first_def window_last_def cycle_length_def param_tables)

lemma unat_as_u32: "n < 2 ^ 32 \<Longrightarrow> unat (as_u32 n) = n"
  by (simp add: unsigned_of_nat take_bit_eq_mod)

lemma window_of_cycle:
  assumes "c = k * cycle_length t" and "c + cycle_length t < 2 ^ 32"
  defines "w \<equiv> get_dkg_window_for_height t (word_of_nat c)"
  shows "unat (cycle_start w) = c" and "unat (mining_start w) = c + window_first t"
    and "unat (mining_end w) = c + window_last t" and "dw_llmq_type w = t"
proof -
  let ?i = "interval (lp_dkg_params (params t))"
  note nat = unat_as_u32
  have small: "c < 2 ^ 32" "k * cycle_length t < 2 ^ 32" using assms(1,2) by simp_all
  have k: "c div cycle_length t = k" using assms(1) window_in_cycle [of t] by auto
  have "unat (get_cycle_base_height t (word_of_nat c)) = (c div cycle_length t) * cycle_length t mod 2 ^ 32"
    by (simp add: get_cycle_base_height_def Let_def unat_word_ariths(2) unat_div_distrib nat [OF small(1)] cycle_length_def)
  then have "unat (get_cycle_base_height t (word_of_nat c)) = c"
    unfolding k assms(1) [symmetric] using small(1) by simp
  then have base: "get_cycle_base_height t (word_of_nat c) = word_of_nat c"
    using nat [OF small(1)] by (simp add: word_unat_eq_iff)
  have add: "unat (word_of_nat c + x :: u32) = c + unat x" if "unat x < cycle_length t" for x
    using that assms(2) nat [OF small(1)] by (simp add: unat_word_ariths(1))
  show "unat (cycle_start w) = c" "dw_llmq_type w = t"
    by (simp_all add: w_def get_dkg_window_for_height_def base Let_def nat [OF small(1)])
  show "unat (mining_end w) = c + window_last t"
    using window_in_cycle [of t] by (simp add: w_def get_dkg_window_for_height_def base Let_def add window_last_def)
  show "unat (mining_start w) = c + window_first t"
    using window_in_cycle [of t]
    by (auto simp: w_def get_dkg_window_for_height_def base Let_def window_first_def add.assoc intro!: add)
qed

text \<open>A search that ends at least one interval below the largest height returns.\<close>

definition cycles_from :: "llmq_type \<Rightarrow> nat \<Rightarrow> nat \<Rightarrow> nat list" where
  "cycles_from t k e = map (\<lambda>j. j * cycle_length t) [k..<Suc (e div cycle_length t)]"

definition overlaps :: "llmq_type \<Rightarrow> nat \<Rightarrow> nat \<Rightarrow> nat \<Rightarrow> bool" where
  "overlaps t start e c \<longleftrightarrow> start \<le> c + window_last t \<and> c + window_first t \<le> e"

abbreviation window_at :: "llmq_type \<Rightarrow> nat \<Rightarrow> dkg_window" where
  "window_at t c \<equiv> get_dkg_window_for_height t (word_of_nat c)"

lemma dkg_windows_loop_value:
  assumes "unat e + cycle_length t < 2 ^ 32" and "k \<le> Suc (unat e div cycle_length t)"
  shows "dkg_windows_loop t start e (word_of_nat (k * cycle_length t)) ws =
    Some (ws @ map (window_at t) (filter (overlaps t (unat start) (unat e)) (cycles_from t k (unat e))))"
  using assms(2)
proof (induction "Suc (unat e div cycle_length t) - k" arbitrary: k ws)
  case 0
  then have k: "k = Suc (unat e div cycle_length t)" by simp
  have pos: "0 < cycle_length t" using window_in_cycle [of t] by simp
  have "unat e < k * cycle_length t" unfolding k using dividend_less_times_div [OF pos, of "unat e"] by (simp add: algebra_simps)
  moreover have "k * cycle_length t \<le> unat e + cycle_length t" unfolding k by simp
  ultimately have "\<not> (word_of_nat (k * cycle_length t) :: u32) \<le> e"
    using assms(1) by (simp add: word_le_nat_alt unat_as_u32 del: of_nat_mult)
  then show ?case by (subst dkg_windows_loop.simps) (simp add: k cycles_from_def)
next
  case (Suc m)
  let ?c = "k * cycle_length t"
  have pos: "0 < cycle_length t" using window_in_cycle [of t] by simp
  have k: "k \<le> unat e div cycle_length t" using Suc by simp
  then have le: "?c \<le> unat e" using pos by (simp add: less_eq_div_iff_mult_less_eq)
  then have c32: "?c + cycle_length t < 2 ^ 32" using assms(1) by simp
  have "(word_of_nat ?c :: u32) \<le> e" using le c32 by (simp add: word_le_nat_alt unat_as_u32 del: of_nat_mult)
  moreover have "word_of_nat ?c + interval (lp_dkg_params (params t)) = (word_of_nat (Suc k * cycle_length t) :: u32)"
    by (simp add: cycle_length_def algebra_simps)
  moreover have "mining_end (window_at t ?c) \<ge> start \<and> mining_start (window_at t ?c) \<le> e \<longleftrightarrow> overlaps t (unat start) (unat e) ?c"
    using window_of_cycle [OF refl c32] by (simp add: word_le_nat_alt overlaps_def)
  moreover have "cycles_from t k (unat e) = ?c # cycles_from t (Suc k) (unat e)"
    using k by (simp add: cycles_from_def upt_conv_Cons)
  moreover have "dkg_windows_loop t start e (word_of_nat (Suc k * cycle_length t)) ws' =
      Some (ws' @ map (window_at t) (filter (overlaps t (unat start) (unat e)) (cycles_from t (Suc k) (unat e))))" for ws'
    using Suc.hyps(2) k by (intro Suc.hyps(1)) simp_all
  ultimately show ?case
    by (subst dkg_windows_loop.simps) (simp add: Let_def del: of_nat_mult of_nat_Suc mult_Suc)
qed

lemma dkg_windows_value:
  assumes "unat e + cycle_length t < 2 ^ 32"
  shows "get_dkg_windows_in_range t start e =
    Some (map (window_at t) (filter (overlaps t (unat start) (unat e)) (cycles_from t 0 (unat e))))"
proof -
  let ?L = "cycle_length t" and ?dkg = "lp_dkg_params (params t)"
  define below where "below = (if start < mining_window_end ?dkg then 0 else start - mining_window_end ?dkg)"
  have below: "unat below = unat start - window_last t"
    by (auto simp: below_def window_last_def word_less_nat_alt unat_sub word_le_nat_alt)
  define k where "k = unat below div ?L"
  have pos: "0 < ?L" using window_in_cycle [of t] by simp
  have "k * ?L \<le> unat below" by (simp add: k_def)
  then have "k * ?L < 2 ^ 32" by (rule le_less_trans) (rule less_le_trans [OF unsigned_less], simp)
  then have "below div interval ?dkg * interval ?dkg = as_u32 (k * ?L)"
    by (simp add: word_unat_eq_iff unat_as_u32 unat_word_ariths(2) unat_div k_def cycle_length_def del: of_nat_mult)
  then have run: "get_dkg_windows_in_range t start e = dkg_windows_loop t start e (as_u32 (k * ?L)) []"
    by (simp add: get_dkg_windows_in_range_def Let_def below_def del: of_nat_mult)
  have early: "filter (overlaps t (unat start) (unat e)) (cycles_from t 0 (unat e)) =
      filter (overlaps t (unat start) (unat e)) (cycles_from t (min k (Suc (unat e div ?L))) (unat e))"
  proof -
    let ?m = "min k (Suc (unat e div ?L))"
    have "[0..<Suc (unat e div ?L)] = [0..<?m] @ [?m..<Suc (unat e div ?L)]"
      using upt_add_eq_append [of 0 ?m "Suc (unat e div ?L) - ?m"] by simp
    then have "cycles_from t 0 (unat e) = map (\<lambda>j. j * ?L) [0..<?m] @ cycles_from t ?m (unat e)"
      by (simp only: cycles_from_def map_append)
    moreover have "\<not> overlaps t (unat start) (unat e) (j * ?L)" if "j < k" for j
    proof -
      have "Suc j * ?L \<le> k * ?L" using that by (intro mult_le_mono1) simp
      with \<open>k * ?L \<le> unat below\<close> have "Suc j * ?L \<le> unat below" by (rule order_trans [rotated])
      then have "j * ?L + window_last t < unat start" using below window_in_cycle [of t] by auto
      then show ?thesis by (simp add: overlaps_def)
    qed
    ultimately show ?thesis by (auto simp: filter_empty_conv)
  qed
  show ?thesis
  proof (cases "k \<le> Suc (unat e div ?L)")
    case True
    then show ?thesis unfolding run early using dkg_windows_loop_value [OF assms True] by (simp del: of_nat_mult)
  next
    case False
    then have "Suc (unat e div ?L) * ?L \<le> k * ?L" by (intro mult_le_mono1) simp
    moreover have "unat e < Suc (unat e div ?L) * ?L"
      using dividend_less_times_div [OF pos, of "unat e"] by (simp add: algebra_simps)
    ultimately have "unat e < k * ?L" by linarith
    then have "\<not> as_u32 (k * ?L) \<le> e" using \<open>k * ?L < 2 ^ 32\<close> by (simp add: word_le_nat_alt unat_as_u32 del: of_nat_mult)
    then have "get_dkg_windows_in_range t start e = Some []"
      unfolding run by (subst dkg_windows_loop.simps) (simp del: of_nat_mult)
    then show ?thesis unfolding early using False by (simp add: cycles_from_def min_def)
  qed
qed

text \<open>
  The loop does not return for a range that ends at the largest height: no cycle start exceeds it.
\<close>

lemma dkg_windows_loop_diverges: "dkg_windows_loop t start (- 1) cycle ws = None"
proof -
  have "e \<noteq> - 1" if "dkg_windows_loop t start e cycle ws = Some r" for e r
  proof (rule dkg_windows_loop.raw_induct [where P = "\<lambda>t start e cycle ws r. e \<noteq> - 1", OF _ that])
    fix rec :: "llmq_type \<Rightarrow> u32 \<Rightarrow> u32 \<Rightarrow> u32 \<Rightarrow> dkg_window list \<Rightarrow> dkg_window list option" and t start e cycle ws r
    assume IH: "\<And>t start e cycle ws r. rec t start e cycle ws = Some r \<Longrightarrow> e \<noteq> - 1"
      and step: "(if cycle \<le> e then
        let window = get_dkg_window_for_height t cycle;
            windows' = (if mining_end window \<ge> start \<and> mining_start window \<le> e then ws @ [window] else ws) in
        rec t start e (cycle + interval (lp_dkg_params (params t))) windows'
      else Some ws) = Some r"
    show "e \<noteq> - 1"
    proof (cases "cycle \<le> e")
      case True
      with step IH show ?thesis unfolding Let_def by (simp only: if_True) blast
    next
      case False
      then show ?thesis by auto
    qed
  qed
  then show ?thesis by (cases "dkg_windows_loop t start (- 1) cycle ws") auto
qed

text \<open>
  C33: a search for the mining windows of a range that ends at least one interval below the largest
  height returns the windows, in order, of exactly the cycles up to the end of the range whose
  mining window meets the range.
\<close>

theorem dkg_windows_exact:
  assumes "unat e + cycle_length t < 2 ^ 32"
  shows "\<exists>ws. get_dkg_windows_in_range t start e = Some ws \<and>
    sorted_wrt (\<lambda>v w. cycle_start v < cycle_start w) ws \<and>
    (\<forall>w. w \<in> set ws \<longleftrightarrow> (\<exists>j. w = get_dkg_window_for_height t (as_u32 (j * cycle_length t)) \<and>
      j * cycle_length t \<le> unat e \<and> start \<le> mining_end w \<and> mining_start w \<le> e))"
proof -
  let ?L = "cycle_length t" and ?O = "overlaps t (unat start) (unat e)"
  let ?cs = "filter ?O (cycles_from t 0 (unat e))"
  have pos: "0 < ?L" using window_in_cycle [of t] by simp
  have mult: "j < Suc (unat e div ?L) \<longleftrightarrow> j * ?L \<le> unat e" for j
    using pos by (simp add: less_Suc_eq_le less_eq_div_iff_mult_less_eq)
  have win: "unat (cycle_start (window_at t (j * ?L))) = j * ?L"
    "start \<le> mining_end (window_at t (j * ?L)) \<and> mining_start (window_at t (j * ?L)) \<le> e \<longleftrightarrow> ?O (j * ?L)"
    if "j * ?L \<le> unat e" for j
    using window_of_cycle [OF refl, of j t] that assms by (auto simp: word_le_nat_alt overlaps_def)
  have "sorted_wrt (\<lambda>v w. cycle_start v < cycle_start w) (map (window_at t) (cycles_from t 0 (unat e)))"
    unfolding cycles_from_def sorted_wrt_map
  proof (rule sorted_wrt_mono_rel [OF _ sorted_wrt_upt])
    fix x y
    assume xy: "x \<in> set [0..<Suc (unat e div ?L)]" "y \<in> set [0..<Suc (unat e div ?L)]" "x < y"
    then have "x * ?L \<le> unat e" "y * ?L \<le> unat e" 
      using mult [of x] mult [of y] by (simp_all only: set_upt atLeastLessThan_iff)
    then show "cycle_start (window_at t (x * ?L)) < cycle_start (window_at t (y * ?L))"
      using win(1) [of x] win(1) [of y] xy(3) pos by (simp add: word_less_nat_alt del: of_nat_mult)
  qed
  then have "sorted_wrt (\<lambda>v w. cycle_start v < cycle_start w) (map (window_at t) ?cs)"
    unfolding sorted_wrt_map by (rule sorted_wrt_filter)
  moreover have "w \<in> set (map (window_at t) ?cs) \<longleftrightarrow>
      (\<exists>j. w = window_at t (j * ?L) \<and> j * ?L \<le> unat e \<and> start \<le> mining_end w \<and> mining_start w \<le> e)" for w
  proof -
    have "w \<in> set (map (window_at t) ?cs) \<longleftrightarrow> (\<exists>j<Suc (unat e div ?L). w = window_at t (j * ?L) \<and> ?O (j * ?L))"
      unfolding cycles_from_def set_map set_filter set_upt image_iff mem_Collect_eq
      by (simp only: Bex_def atLeastLessThan_iff image_iff mem_Collect_eq) blast
    also have "\<dots> \<longleftrightarrow> (\<exists>j. w = window_at t (j * ?L) \<and> j * ?L \<le> unat e \<and> start \<le> mining_end w \<and> mining_start w \<le> e)"
      unfolding mult using win(2) by metis
    finally show ?thesis .
  qed
  ultimately show ?thesis using dkg_windows_value [OF assms] by blast
qed

theorem dkg_windows_exact_witness:
  "\<exists>ws. get_dkg_windows_in_range Llmqtype60_75 300 1000 = Some ws \<and>
    sorted_wrt (\<lambda>v w. cycle_start v < cycle_start w) ws \<and>
    (\<forall>w. w \<in> set ws \<longleftrightarrow> (\<exists>j. w = get_dkg_window_for_height Llmqtype60_75 (as_u32 (j * 288)) \<and>
      j * 288 \<le> 1000 \<and> 300 \<le> mining_end w \<and> mining_start w \<le> 1000))"
proof -
  have "cycle_length Llmqtype60_75 = 288" by (simp add: cycle_length_def param_tables)
  then show ?thesis using dkg_windows_exact [of 1000 Llmqtype60_75 300] by simp
qed

text \<open>
  C34: the search returns for every range that ends at least one interval below the largest height,
  and runs forever for a range that ends at the largest height.
\<close>

theorem dkg_windows_termination:
  "(unat e + cycle_length t < 2 ^ 32 \<longrightarrow> get_dkg_windows_in_range t start e \<noteq> None) \<and>
   get_dkg_windows_in_range t start (- 1) = None"
  using dkg_windows_value [of e t start] by (simp add: get_dkg_windows_in_range_def dkg_windows_loop_diverges Let_def)

theorem dkg_windows_termination_witness:
  "get_dkg_windows_in_range LlmqtypeTest 0 100 \<noteq> None \<and> get_dkg_windows_in_range LlmqtypeTest 0 (- 1) = None"
  using dkg_windows_termination [of 100 LlmqtypeTest 0] by (simp add: cycle_length_def param_tables)

section \<open>The mining windows of a network\<close>

lemma push_window_group:
  "(\<exists>ws. bt_get (push_window v m) h = Some ws \<and> w \<in> set ws) \<longleftrightarrow>
   (w = v \<and> mining_start v = h) \<or> (\<exists>ws. bt_get m h = Some ws \<and> w \<in> set ws)"
  by (auto simp: bt_insert_get Let_def split: option.splits)

lemma push_windows_group:
  "(\<exists>ws. bt_get (fold push_window vs m) h = Some ws \<and> w \<in> set ws) \<longleftrightarrow>
   (w \<in> set vs \<and> mining_start w = h) \<or> (\<exists>ws. bt_get m h = Some ws \<and> w \<in> set ws)"
proof (induction vs arbitrary: m)
  case (Cons v vs)
  then show ?case using push_window_group [of v m h w] by (auto simp del: push_window.simps)
qed simp

lemma all_dkg_windows_loop_group:
  assumes "\<forall>t\<in>set ts. get_dkg_windows_in_range t start e = Some (found t)"
  shows "\<exists>m'. all_dkg_windows_loop n start e ts m = Some m' \<and> (\<forall>h w.
    (\<exists>ws. bt_get m' h = Some ws \<and> w \<in> set ws) \<longleftrightarrow>
      (mining_start w = h \<and> (\<exists>t\<in>set ts. w \<in> set (found t) \<and> \<not> should_skip_quorum_type n t h)) \<or>
      (\<exists>ws. bt_get m h = Some ws \<and> w \<in> set ws))"
  using assms
proof (induction ts arbitrary: m)
  case (Cons t ts)
  let ?vs = "filter (\<lambda>w. \<not> should_skip_quorum_type n t (mining_start w)) (found t)"
  have "\<forall>t\<in>set ts. get_dkg_windows_in_range t start e = Some (found t)" using Cons.prems by simp
  from Cons.IH [OF this, of "fold push_window ?vs m"] obtain m' where
    m': "all_dkg_windows_loop n start e ts (fold push_window ?vs m) = Some m'"
    "\<And>h w. (\<exists>ws. bt_get m' h = Some ws \<and> w \<in> set ws) \<longleftrightarrow>
      (mining_start w = h \<and> (\<exists>t\<in>set ts. w \<in> set (found t) \<and> \<not> should_skip_quorum_type n t h)) \<or>
      (\<exists>ws. bt_get (fold push_window ?vs m) h = Some ws \<and> w \<in> set ws)" by blast
  have "all_dkg_windows_loop n start e (t # ts) m = Some m'" using m'(1) Cons.prems by simp
  moreover have "(\<exists>ws. bt_get m' h = Some ws \<and> w \<in> set ws) \<longleftrightarrow>
      (mining_start w = h \<and> (\<exists>t'\<in>set (t # ts). w \<in> set (found t') \<and> \<not> should_skip_quorum_type n t' h)) \<or>
      (\<exists>ws. bt_get m h = Some ws \<and> w \<in> set ws)" for h w
    unfolding m'(2) push_windows_group by auto
  ultimately show ?case by blast
qed simp

text \<open>
  The windows of a network over a range that ends below height \<open>2^32 - 577\<close> are grouped by the
  first height of the window, and are exactly the windows the enabled quorum types have in the
  range, without those whose type is not yet active at that height.
\<close>

theorem all_dkg_windows_exact:
  assumes "unat e + 576 < 2 ^ 32"
  shows "\<exists>m. get_all_dkg_windows n start e = Some m \<and> (\<forall>h w.
    (\<exists>ws. bt_get m h = Some ws \<and> w \<in> set ws) \<longleftrightarrow>
      mining_start w = h \<and> (\<exists>t\<in>set (enabled_llmq_types n). \<not> should_skip_quorum_type n t h \<and>
        w \<in> set (the (get_dkg_windows_in_range t start e))))"
proof -
  have "\<forall>t\<in>set (enabled_llmq_types n).
      get_dkg_windows_in_range t start e = Some (the (get_dkg_windows_in_range t start e))"
  proof
    fix t
    have "cycle_length t \<le> 576" using window_in_cycle [of t] by simp
    then show "get_dkg_windows_in_range t start e = Some (the (get_dkg_windows_in_range t start e))"
      using dkg_windows_value [of e t start] assms by simp
  qed
  from all_dkg_windows_loop_group [OF this, of n "[]"] show ?thesis
    by (auto simp: get_all_dkg_windows_def)
qed

theorem all_dkg_windows_exact_witness:
  "\<exists>m. get_all_dkg_windows Mainnet 1888000 1889000 = Some m \<and> (\<forall>h w.
    (\<exists>ws. bt_get m h = Some ws \<and> w \<in> set ws) \<longleftrightarrow>
      mining_start w = h \<and> (\<exists>t\<in>set (enabled_llmq_types Mainnet). \<not> should_skip_quorum_type Mainnet t h \<and>
        w \<in> set (the (get_dkg_windows_in_range t 1888000 1889000))))"
  using all_dkg_windows_exact [of 1889000 Mainnet 1888000] by simp

end
