(* ===== verification/Special_Tx.thy ===== *)
theory Special_Tx
  imports Tx_Parts Llmq
begin

text \<open>
  The payloads of special transactions, from
  \<open>src/dash/src/blockdata/transaction/special_transaction/\<close>: their records, encodings and announced
  sizes. An encoder that can fail gives \<open>Err\<close>; what it wrote before failing is left out. The
  \<open>i16\<close> quorum index is a 16-bit word. The hash function of the hash crate is the parameter \<open>H\<close>.
\<close>

type_synonym i16 = "16 word"

section \<open>Asset locks\<close>

record asset_lock_payload =
  al_version :: u8
  credit_outputs :: "txout list"

definition asset_lock_size :: "asset_lock_payload \<Rightarrow> nat" where
  "asset_lock_size p =
     (let sz = 1 + varint_len (word_of_nat (length (credit_outputs p))) in
      sz + sum_list (map txout_size (credit_outputs p)))"

definition asset_lock_encode :: "asset_lock_payload \<Rightarrow> u8 list" where
  "asset_lock_encode p = emit_u8 (al_version p) @ vec_encode txout_encode (credit_outputs p)"

definition asset_lock_decode :: "asset_lock_payload decoder" where
  "asset_lock_decode =
     dbind read_u8 (\<lambda>v. dbind (consensus_decode (vec_decode txout_decode)) (\<lambda>os.
       dret \<lparr>al_version = v, credit_outputs = os\<rparr>))"

section \<open>Asset unlocks\<close>

record asset_unlock_base_payload =
  ub_version :: u8
  ub_index :: u64
  ub_fee :: u32

definition asset_unlock_base_size :: "asset_unlock_base_payload \<Rightarrow> nat" where
  "asset_unlock_base_size p = 1 + 8 + 4"

definition asset_unlock_base_encode :: "asset_unlock_base_payload \<Rightarrow> u8 list" where
  "asset_unlock_base_encode p = emit_u8 (ub_version p) @ emit_int (ub_index p) @ emit_int (ub_fee p)"

definition asset_unlock_base_decode :: "asset_unlock_base_payload decoder" where
  "asset_unlock_base_decode =
     dbind read_u8 (\<lambda>v. dbind read_int (\<lambda>i. dbind read_int (\<lambda>f.
       dret \<lparr>ub_version = v, ub_index = i, ub_fee = f\<rparr>)))"

record asset_unlock_request_info =
  request_height :: u32
  ri_quorum_hash :: "u8 list"

definition REQUEST_INFO_SIZE :: nat where
  "REQUEST_INFO_SIZE = 4 + 32"

definition request_info_encode :: "asset_unlock_request_info \<Rightarrow> u8 list" where
  "request_info_encode p = emit_int (request_height p) @ array_encode (ri_quorum_hash p)"

definition request_info_decode :: "asset_unlock_request_info decoder" where
  "request_info_decode =
     dbind read_int (\<lambda>h. dbind (read_slice 32) (\<lambda>q. dret \<lparr>request_height = h, ri_quorum_hash = q\<rparr>))"

record asset_unlock_payload =
  au_base :: asset_unlock_base_payload
  au_request_info :: asset_unlock_request_info
  quorum_sig :: "u8 list"

definition asset_unlock_size :: "asset_unlock_payload \<Rightarrow> nat" where
  "asset_unlock_size p = asset_unlock_base_size (au_base p) + REQUEST_INFO_SIZE + 96"

definition asset_unlock_encode :: "asset_unlock_payload \<Rightarrow> u8 list" where
  "asset_unlock_encode p =
     asset_unlock_base_encode (au_base p) @ request_info_encode (au_request_info p) @ array_encode (quorum_sig p)"

definition asset_unlock_decode :: "asset_unlock_payload decoder" where
  "asset_unlock_decode =
     dbind asset_unlock_base_decode (\<lambda>b. dbind request_info_decode (\<lambda>i. dbind (read_slice 96) (\<lambda>s.
       dret \<lparr>au_base = b, au_request_info = i, quorum_sig = s\<rparr>)))"

section \<open>Hard-fork signals\<close>

record mnhf_signal_payload =
  mh_version :: u8
  version_bit :: u8
  mh_quorum_hash :: "u8 list"
  mh_sig :: "u8 list"

definition mnhf_signal_size :: "mnhf_signal_payload \<Rightarrow> nat" where
  "mnhf_signal_size p = 130"

definition mnhf_signal_encode :: "mnhf_signal_payload \<Rightarrow> u8 list" where
  "mnhf_signal_encode p =
     emit_u8 (mh_version p) @ emit_u8 (version_bit p) @ array_encode (mh_quorum_hash p) @ array_encode (mh_sig p)"

definition mnhf_signal_decode :: "mnhf_signal_payload decoder" where
  "mnhf_signal_decode =
     dbind read_u8 (\<lambda>v. dbind read_u8 (\<lambda>b. dbind (read_slice 32) (\<lambda>q. dbind (read_slice 96) (\<lambda>s.
       dret \<lparr>mh_version = v, version_bit = b, mh_quorum_hash = q, mh_sig = s\<rparr>))))"

section \<open>Coinbases\<close>

record coinbase_payload =
  cb_version :: u16
  cb_height :: u32
  merkle_root_masternode_list :: "u8 list"
  merkle_root_quorums :: "u8 list"
  best_cl_height :: "u32 option"
  best_cl_signature :: "u8 list option"
  asset_locked_amount :: "u64 option"

definition coinbase_size :: "coinbase_payload \<Rightarrow> nat" where
  "coinbase_size p =
     2 + 4 + 32 + (if cb_version p \<ge> 2 then 32 else 0) +
     (if cb_version p \<ge> 3
      then 96 + (case best_cl_height p of Some h \<Rightarrow> compact_size_len h | None \<Rightarrow> 0) + 8 else 0)"

definition coinbase_encode :: "coinbase_payload \<Rightarrow> (u8 list, enc_error) result" where
  "coinbase_encode p =
     (let start =
        emit_int (cb_version p) @ emit_int (cb_height p) @ array_encode (merkle_root_masternode_list p) @
        (if cb_version p \<ge> 2 then array_encode (merkle_root_quorums p) else []) in
      if cb_version p \<ge> 3 then
        (case best_cl_height p of
           None \<Rightarrow> Err Io_InvalidInput
         | Some h \<Rightarrow>
             case best_cl_signature p of
               None \<Rightarrow> Err Io_InvalidInput
             | Some sig \<Rightarrow>
                 case asset_locked_amount p of
                   None \<Rightarrow> Err Io_InvalidInput
                 | Some amount \<Rightarrow> Ok (start @ write_compact_size h @ array_encode sig @ emit_int amount))
      else Ok start)"

definition coinbase_decode :: "coinbase_payload decoder" where
  "coinbase_decode =
     dbind read_int (\<lambda>v :: u16. dbind read_int (\<lambda>h. dbind (read_slice 32) (\<lambda>m.
     dbind (if v \<ge> 2 then read_slice 32 else dret (replicate 32 0)) (\<lambda>q.
     dbind (if v \<ge> 3 then dbind read_compact_size (\<lambda>x. dret (Some x)) else dret None) (\<lambda>ch.
     dbind (if v \<ge> 3 then dbind (read_slice 96) (\<lambda>x. dret (Some x)) else dret None) (\<lambda>cs.
     dbind (if v \<ge> 3 then dbind read_int (\<lambda>x. dret (Some x)) else dret None) (\<lambda>am.
       dret \<lparr>cb_version = v, cb_height = h, merkle_root_masternode_list = m, merkle_root_quorums = q,
         best_cl_height = ch, best_cl_signature = cs, asset_locked_amount = am\<rparr>)))))))"

section \<open>Provider revocations\<close>

record provider_update_revocation_payload =
  rv_version :: u16
  rv_pro_tx_hash :: "u8 list"
  rv_reason :: u16
  rv_inputs_hash :: "u8 list"
  rv_payload_sig :: "u8 list"

definition revocation_size :: "provider_update_revocation_payload \<Rightarrow> nat" where
  "revocation_size p = 2 + 32 + 2 + 32 + 96"

definition revocation_base :: "provider_update_revocation_payload \<Rightarrow> u8 list" where
  "revocation_base p =
     emit_int (rv_version p) @ array_encode (rv_pro_tx_hash p) @ emit_int (rv_reason p) @ array_encode (rv_inputs_hash p)"

definition revocation_base_hash :: "(u8 list \<Rightarrow> u8 list) \<Rightarrow> provider_update_revocation_payload \<Rightarrow> u8 list" where
  "revocation_base_hash H p = H (revocation_base p)"

definition revocation_encode :: "provider_update_revocation_payload \<Rightarrow> u8 list" where
  "revocation_encode p = revocation_base p @ array_encode (rv_payload_sig p)"

definition revocation_decode :: "provider_update_revocation_payload decoder" where
  "revocation_decode =
     dbind read_int (\<lambda>v. dbind (read_slice 32) (\<lambda>t. dbind read_int (\<lambda>r. dbind (read_slice 32) (\<lambda>i.
     dbind (read_slice 96) (\<lambda>s.
       dret \<lparr>rv_version = v, rv_pro_tx_hash = t, rv_reason = r, rv_inputs_hash = i, rv_payload_sig = s\<rparr>)))))"

section \<open>Provider registrar updates\<close>

record provider_update_registrar_payload =
  rg_version :: u16
  rg_pro_tx_hash :: "u8 list"
  provider_mode :: u16
  rg_operator_public_key :: "u8 list"
  rg_voting_key_hash :: "u8 list"
  rg_script_payout :: "u8 list"
  rg_inputs_hash :: "u8 list"
  rg_payload_sig :: "u8 list"

definition registrar_size :: "provider_update_registrar_payload \<Rightarrow> nat" where
  "registrar_size p =
     2 + 32 + 2 + 48 + 20 + 32 +
     (varint_len (word_of_nat (length (rg_script_payout p))) + length (rg_script_payout p)) +
     (varint_len (word_of_nat (length (rg_payload_sig p))) + length (rg_payload_sig p))"

definition registrar_base :: "provider_update_registrar_payload \<Rightarrow> u8 list" where
  "registrar_base p =
     emit_int (rg_version p) @ array_encode (rg_pro_tx_hash p) @ emit_int (provider_mode p) @
     array_encode (rg_operator_public_key p) @ array_encode (rg_voting_key_hash p) @
     script_encode (rg_script_payout p) @ array_encode (rg_inputs_hash p)"

definition registrar_base_hash :: "(u8 list \<Rightarrow> u8 list) \<Rightarrow> provider_update_registrar_payload \<Rightarrow> u8 list" where
  "registrar_base_hash H p = H (registrar_base p)"

definition registrar_encode :: "provider_update_registrar_payload \<Rightarrow> u8 list" where
  "registrar_encode p = registrar_base p @ consensus_encode_with_size (rg_payload_sig p)"

definition registrar_decode :: "provider_update_registrar_payload decoder" where
  "registrar_decode =
     dbind read_int (\<lambda>v. dbind (read_slice 32) (\<lambda>t. dbind read_int (\<lambda>m. dbind (read_slice 48) (\<lambda>k.
     dbind (read_slice 20) (\<lambda>vk. dbind (consensus_decode script_decode) (\<lambda>sp. dbind (read_slice 32) (\<lambda>i.
     dbind (consensus_decode bytes_decode) (\<lambda>s.
       dret \<lparr>rg_version = v, rg_pro_tx_hash = t, provider_mode = m, rg_operator_public_key = k,
         rg_voting_key_hash = vk, rg_script_payout = sp, rg_inputs_hash = i, rg_payload_sig = s\<rparr>))))))))"

section \<open>Quorum commitments\<close>

record quorum_entry =
  qe_version :: u16
  qe_llmq_type :: llmq_type
  qe_quorum_hash :: "u8 list"
  quorum_index :: "i16 option"
  signers :: "bool list"
  valid_members :: "bool list"
  quorum_public_key :: "u8 list"
  quorum_vvec_hash :: "u8 list"
  threshold_sig :: "u8 list"
  all_commitment_aggregated_signature :: "u8 list"

definition quorum_entry_size :: "quorum_entry \<Rightarrow> nat" where
  "quorum_entry_size q =
     2 + 1 + 32 + 48 + 32 + 96 + 96 +
     compact_size_len (word_of_nat (length (signers q))) + fixed_bitset_len (signers q) (length (signers q)) +
     compact_size_len (word_of_nat (length (valid_members q))) +
     fixed_bitset_len (valid_members q) (length (valid_members q)) +
     (if qe_version q = 2 \<or> qe_version q = 4 then 2 else 0)"

text \<open>The variants of \<open>QuorumValidationError\<close> of the structural check.\<close>

datatype quorum_validation_error =
    InsufficientSigners u64 u64
  | InsufficientValidMembers u64 u64
  | MismatchedBitsetLengths nat nat
  | InvalidQuorumPublicKey
  | InvalidQuorumSignature
  | InvalidFinalSignature

definition public_key_is_zeroed :: "u8 list \<Rightarrow> bool" where
  "public_key_is_zeroed k = (k = replicate 48 0)"

definition signature_is_zeroed :: "u8 list \<Rightarrow> bool" where
  "signature_is_zeroed s = (s = replicate 96 0)"

definition llmq_threshold :: "llmq_type \<Rightarrow> u32" where
  "llmq_threshold t = lp_threshold (params t)"

definition validate_structure :: "quorum_entry \<Rightarrow> (unit, quorum_validation_error) result" where
  "validate_structure q =
     (let quorum_threshold = ucast (llmq_threshold (qe_llmq_type q)) :: u64;
          signers_count = word_of_nat (length (filter (\<lambda>b. b) (signers q))) :: u64;
          valid_members_count = word_of_nat (length (filter (\<lambda>b. b) (valid_members q))) :: u64 in
      if signers_count < quorum_threshold then Err (InsufficientSigners quorum_threshold signers_count)
      else if valid_members_count < quorum_threshold
      then Err (InsufficientValidMembers quorum_threshold valid_members_count)
      else if length (signers q) \<noteq> length (valid_members q)
      then Err (MismatchedBitsetLengths (length (signers q)) (length (valid_members q)))
      else if public_key_is_zeroed (quorum_public_key q) then Err InvalidQuorumPublicKey
      else if signature_is_zeroed (threshold_sig q) then Err InvalidQuorumSignature
      else if signature_is_zeroed (all_commitment_aggregated_signature q) then Err InvalidFinalSignature
      else Ok ())"

definition llmq_encode :: "llmq_type \<Rightarrow> u8 list" where
  "llmq_encode t = emit_u8 (llmq_index t)"

definition llmq_decode :: "llmq_type decoder" where
  "llmq_decode = dbind read_u8 (\<lambda>b. dret (llmq_from_u8 b))"

definition quorum_entry_encode :: "quorum_entry \<Rightarrow> (u8 list, enc_error) result" where
  "quorum_entry_encode q =
     (let start =
        emit_int (qe_version q) @ llmq_encode (qe_llmq_type q) @ array_encode (qe_quorum_hash q) @
        (case quorum_index q of
           Some q_index \<Rightarrow> if qe_version q = 2 \<or> qe_version q = 4 then emit_int q_index else []
         | None \<Rightarrow> []) in
      case write_fixed_bitset (signers q) (length (signers q)) of
        Err e \<Rightarrow> Err e
      | Ok sb \<Rightarrow>
          case write_fixed_bitset (valid_members q) (length (valid_members q)) of
            Err e \<Rightarrow> Err e
          | Ok vb \<Rightarrow>
              Ok (start @ write_compact_size (word_of_nat (length (signers q))) @ sb @
                  write_compact_size (word_of_nat (length (valid_members q))) @ vb @
                  array_encode (quorum_public_key q) @ array_encode (quorum_vvec_hash q) @
                  array_encode (threshold_sig q) @ array_encode (all_commitment_aggregated_signature q)))"

definition quorum_entry_decode :: "quorum_entry decoder" where
  "quorum_entry_decode =
     dbind read_int (\<lambda>v :: u16. dbind llmq_decode (\<lambda>t. dbind (read_slice 32) (\<lambda>h.
     dbind (if v = 2 \<or> v = 4 then dbind read_int (\<lambda>i. dret (Some i)) else dret None) (\<lambda>qi.
     dbind read_compact_size (\<lambda>sc. dbind (read_fixed_bitset (unat sc)) (\<lambda>ss.
     dbind read_compact_size (\<lambda>vc. dbind (read_fixed_bitset (unat vc)) (\<lambda>vs.
     dbind (read_slice 48) (\<lambda>pk. dbind (read_slice 32) (\<lambda>vv. dbind (read_slice 96) (\<lambda>qs.
     dbind (read_slice 96) (\<lambda>sg.
       dret \<lparr>qe_version = v, qe_llmq_type = t, qe_quorum_hash = h, quorum_index = qi, signers = ss,
         valid_members = vs, quorum_public_key = pk, quorum_vvec_hash = vv, threshold_sig = qs,
         all_commitment_aggregated_signature = sg\<rparr>))))))))))))"

record quorum_commitment_payload =
  qc_version :: u16
  qc_height :: u32
  finalization_commitment :: quorum_entry

definition quorum_commitment_size :: "quorum_commitment_payload \<Rightarrow> nat" where
  "quorum_commitment_size p = 2 + 4 + quorum_entry_size (finalization_commitment p)"

definition quorum_commitment_encode :: "quorum_commitment_payload \<Rightarrow> (u8 list, enc_error) result" where
  "quorum_commitment_encode p =
     (case quorum_entry_encode (finalization_commitment p) of
        Err e \<Rightarrow> Err e
      | Ok bs \<Rightarrow> Ok (emit_int (qc_version p) @ emit_int (qc_height p) @ bs))"

definition quorum_commitment_decode :: "quorum_commitment_payload decoder" where
  "quorum_commitment_decode =
     dbind read_int (\<lambda>v. dbind read_int (\<lambda>h. dbind quorum_entry_decode (\<lambda>c.
       dret \<lparr>qc_version = v, qc_height = h, finalization_commitment = c\<rparr>)))"

section \<open>Provider registrations\<close>

datatype provider_masternode_type = Regular | HighPerformance

fun masternode_type_u16 :: "provider_masternode_type \<Rightarrow> u16" where
  "masternode_type_u16 Regular = 0"
| "masternode_type_u16 HighPerformance = 1"

definition masternode_type_encode :: "provider_masternode_type \<Rightarrow> u8 list" where
  "masternode_type_encode t = emit_int (masternode_type_u16 t)"

definition masternode_type_decode :: "provider_masternode_type decoder" where
  "masternode_type_decode =
     dbind read_int (\<lambda>variant.
       if variant = 0 then dret Regular
       else if variant = 1 then dret HighPerformance
       else dfail (InvalidEnumValue 1 variant))"

record provider_registration_payload =
  pr_version :: u16
  masternode_type :: provider_masternode_type
  masternode_mode :: u16
  collateral_outpoint :: outpoint
  service_address :: socket_addr
  owner_key_hash :: "u8 list"
  pr_operator_public_key :: "u8 list"
  pr_voting_key_hash :: "u8 list"
  operator_reward :: u16
  pr_script_payout :: "u8 list"
  pr_inputs_hash :: "u8 list"
  pr_signature :: "u8 list"
  pr_platform_node_id :: "u8 list option"
  pr_platform_p2p_port :: "u16 option"
  pr_platform_http_port :: "u16 option"

definition registration_size :: "provider_registration_payload \<Rightarrow> nat" where
  "registration_size p =
     2 + 2 + 2 + 32 + 4 + 16 + 2 + 20 + 48 + 20 + 2 + 32 +
     (varint_len (word_of_nat (length (pr_script_payout p))) + length (pr_script_payout p)) +
     (varint_len (word_of_nat (length (pr_signature p))) + length (pr_signature p))"

fun unwrap_or :: "'a option \<Rightarrow> 'a \<Rightarrow> 'a" where
  "unwrap_or (Some x) d = x"
| "unwrap_or None d = d"

definition registration_base :: "provider_registration_payload \<Rightarrow> u8 list" where
  "registration_base p =
     emit_int (pr_version p) @ masternode_type_encode (masternode_type p) @ emit_int (masternode_mode p) @
     outpoint_encode (collateral_outpoint p) @ socket_addr_encode (service_address p) @
     array_encode (owner_key_hash p) @ array_encode (pr_operator_public_key p) @
     array_encode (pr_voting_key_hash p) @ emit_int (operator_reward p) @
     script_encode (pr_script_payout p) @ array_encode (pr_inputs_hash p) @
     (if pr_version p \<ge> 2 \<and> masternode_type p = HighPerformance
      then array_encode (unwrap_or (pr_platform_node_id p) (replicate 20 0)) @
           emit_int (unwrap_or (pr_platform_p2p_port p) 0) @ emit_int (unwrap_or (pr_platform_http_port p) 0)
      else [])"

definition registration_base_hash :: "(u8 list \<Rightarrow> u8 list) \<Rightarrow> provider_registration_payload \<Rightarrow> u8 list" where
  "registration_base_hash H p = H (registration_base p)"

definition registration_encode :: "provider_registration_payload \<Rightarrow> u8 list" where
  "registration_encode p = registration_base p @ consensus_encode_with_size (pr_signature p)"

definition platform_decode :: "(u8 list option \<times> u16 option \<times> u16 option) decoder" where
  "platform_decode =
     dbind (read_slice 20) (\<lambda>n. dbind read_int (\<lambda>p. dbind read_int (\<lambda>h. dret (Some n, Some p, Some h))))"

definition registration_decode :: "provider_registration_payload decoder" where
  "registration_decode =
     dbind read_int (\<lambda>v. dbind masternode_type_decode (\<lambda>t. dbind read_int (\<lambda>m. dbind outpoint_decode (\<lambda>c.
     dbind socket_addr_decode (\<lambda>a. dbind (read_slice 20) (\<lambda>ok. dbind (read_slice 48) (\<lambda>pk.
     dbind (read_slice 20) (\<lambda>vk. dbind read_int (\<lambda>r. dbind (consensus_decode script_decode) (\<lambda>sp.
     dbind (read_slice 32) (\<lambda>i.
     dbind (if v \<ge> 2 \<and> t = HighPerformance then platform_decode else dret (None, None, None)) (\<lambda>(nid, pp, hp).
     dbind (consensus_decode bytes_decode) (\<lambda>s.
       dret \<lparr>pr_version = v, masternode_type = t, masternode_mode = m, collateral_outpoint = c,
         service_address = a, owner_key_hash = ok, pr_operator_public_key = pk, pr_voting_key_hash = vk,
         operator_reward = r, pr_script_payout = sp, pr_inputs_hash = i, pr_signature = s,
         pr_platform_node_id = nid, pr_platform_p2p_port = pp, pr_platform_http_port = hp\<rparr>)))))))))))))"

section \<open>Provider service updates\<close>

record provider_update_service_payload =
  us_version :: u16
  mn_type :: "u16 option"
  us_pro_tx_hash :: "u8 list"
  ip_address :: u128
  us_port :: u16
  us_script_payout :: "u8 list"
  us_inputs_hash :: "u8 list"
  us_platform_node_id :: "u8 list option"
  us_platform_p2p_port :: "u16 option"
  us_platform_http_port :: "u16 option"
  us_payload_sig :: "u8 list"

definition BasicBLS :: u16 where
  "BasicBLS = 2"

definition update_service_size :: "provider_update_service_payload \<Rightarrow> nat" where
  "update_service_size p =
     2 + 32 + 16 + 2 + 32 + 96 +
     (varint_len (word_of_nat (length (us_script_payout p))) + length (us_script_payout p)) +
     (if us_version p \<ge> BasicBLS
      then 2 + (if mn_type p = Some (masternode_type_u16 HighPerformance) then 20 + 2 + 2 else 0) else 0)"

definition update_service_base :: "provider_update_service_payload \<Rightarrow> u8 list" where
  "update_service_base p =
     emit_int (us_version p) @
     (if us_version p \<ge> BasicBLS then emit_int (unwrap_or (mn_type p) 0) else []) @
     array_encode (us_pro_tx_hash p) @ emit_int (ip_address p) @ emit_int (swap_bytes (us_port p)) @
     script_encode (us_script_payout p) @ array_encode (us_inputs_hash p) @
     (if us_version p \<ge> BasicBLS \<and> mn_type p = Some (masternode_type_u16 HighPerformance)
      then unwrap_or (us_platform_node_id p) (replicate 20 0) @
           emit_int (unwrap_or (us_platform_p2p_port p) 0) @ emit_int (unwrap_or (us_platform_http_port p) 0)
      else [])"

definition update_service_base_hash :: "(u8 list \<Rightarrow> u8 list) \<Rightarrow> provider_update_service_payload \<Rightarrow> u8 list" where
  "update_service_base_hash H p = H (update_service_base p)"

definition update_service_encode :: "provider_update_service_payload \<Rightarrow> u8 list" where
  "update_service_encode p = update_service_base p @ array_encode (us_payload_sig p)"

definition update_service_decode :: "provider_update_service_payload decoder" where
  "update_service_decode =
     dbind read_int (\<lambda>v.
       if v = 0 \<or> v > BasicBLS then dfail (ParseFailed ''unsupported ProUpServTx version'')
       else
         dbind (if v = BasicBLS then dbind read_int (\<lambda>t. dret (Some t)) else dret None) (\<lambda>t.
         dbind (read_slice 32) (\<lambda>h. dbind read_int (\<lambda>ip. dbind read_int (\<lambda>port.
         dbind (consensus_decode script_decode) (\<lambda>sp. dbind (read_slice 32) (\<lambda>i.
         dbind (if v = BasicBLS \<and> t = Some (masternode_type_u16 HighPerformance) then platform_decode
                else dret (None, None, None)) (\<lambda>(nid, pp, hp).
         dbind (read_slice 96) (\<lambda>s.
           dret \<lparr>us_version = v, mn_type = t, us_pro_tx_hash = h, ip_address = ip, us_port = swap_bytes port,
             us_script_payout = sp, us_inputs_hash = i, us_platform_node_id = nid,
             us_platform_p2p_port = pp, us_platform_http_port = hp, us_payload_sig = s\<rparr>)))))))))"

section \<open>Payloads\<close>

datatype transaction_payload =
    ProviderRegistrationPayloadType provider_registration_payload
  | ProviderUpdateServicePayloadType provider_update_service_payload
  | ProviderUpdateRegistrarPayloadType provider_update_registrar_payload
  | ProviderUpdateRevocationPayloadType provider_update_revocation_payload
  | CoinbasePayloadType coinbase_payload
  | QuorumCommitmentPayloadType quorum_commitment_payload
  | MnhfSignalPayloadType mnhf_signal_payload
  | AssetLockPayloadType asset_lock_payload
  | AssetUnlockPayloadType asset_unlock_payload
  | ClassicalWithNonStandardVersionTypeBytesPayloadType u16

fun payload_encode :: "transaction_payload \<Rightarrow> (u8 list, enc_error) result" where
  "payload_encode (ProviderRegistrationPayloadType p) = Ok (registration_encode p)"
| "payload_encode (ProviderUpdateServicePayloadType p) = Ok (update_service_encode p)"
| "payload_encode (ProviderUpdateRegistrarPayloadType p) = Ok (registrar_encode p)"
| "payload_encode (ProviderUpdateRevocationPayloadType p) = Ok (revocation_encode p)"
| "payload_encode (CoinbasePayloadType p) = coinbase_encode p"
| "payload_encode (QuorumCommitmentPayloadType p) = quorum_commitment_encode p"
| "payload_encode (MnhfSignalPayloadType p) = Ok (mnhf_signal_encode p)"
| "payload_encode (AssetLockPayloadType p) = Ok (asset_lock_encode p)"
| "payload_encode (AssetUnlockPayloadType p) = Ok (asset_unlock_encode p)"
| "payload_encode (ClassicalWithNonStandardVersionTypeBytesPayloadType _) = Ok []"

fun get_type :: "transaction_payload \<Rightarrow> transaction_type" where
  "get_type (ProviderRegistrationPayloadType _) = ProviderRegistration"
| "get_type (ProviderUpdateServicePayloadType _) = ProviderUpdateService"
| "get_type (ProviderUpdateRegistrarPayloadType _) = ProviderUpdateRegistrar"
| "get_type (ProviderUpdateRevocationPayloadType _) = ProviderUpdateRevocation"
| "get_type (CoinbasePayloadType _) = Coinbase"
| "get_type (QuorumCommitmentPayloadType _) = QuorumCommitment"
| "get_type (MnhfSignalPayloadType _) = MnhfSignal"
| "get_type (AssetLockPayloadType _) = AssetLock"
| "get_type (AssetUnlockPayloadType _) = AssetUnlock"
| "get_type (ClassicalWithNonStandardVersionTypeBytesPayloadType raw) = ClassicalWithNonStandardVersionTypeBytes raw"

fun payload_len :: "transaction_payload \<Rightarrow> nat" where
  "payload_len (ProviderRegistrationPayloadType p) = 1 + registration_size p"
| "payload_len (ProviderUpdateServicePayloadType p) = 1 + update_service_size p"
| "payload_len (ProviderUpdateRegistrarPayloadType p) = 1 + registrar_size p"
| "payload_len (ProviderUpdateRevocationPayloadType p) = 1 + revocation_size p"
| "payload_len (CoinbasePayloadType p) = 1 + coinbase_size p"
| "payload_len (QuorumCommitmentPayloadType p) = 1 + quorum_commitment_size p"
| "payload_len (MnhfSignalPayloadType p) = 1 + mnhf_signal_size p"
| "payload_len (AssetLockPayloadType p) = 1 + asset_lock_size p"
| "payload_len (AssetUnlockPayloadType p) = 1 + asset_unlock_size p"
| "payload_len (ClassicalWithNonStandardVersionTypeBytesPayloadType _) = 0"

definition to_provider_registration_payload :: "transaction_payload \<Rightarrow> (provider_registration_payload, enc_error) result" where
  "to_provider_registration_payload p =
     (case p of ProviderRegistrationPayloadType payload \<Rightarrow> Ok payload
      | _ \<Rightarrow> Err (WrongSpecialTransactionPayloadConversion ProviderRegistration (get_type p)))"

definition to_update_service_payload :: "transaction_payload \<Rightarrow> (provider_update_service_payload, enc_error) result" where
  "to_update_service_payload p =
     (case p of ProviderUpdateServicePayloadType payload \<Rightarrow> Ok payload
      | _ \<Rightarrow> Err (WrongSpecialTransactionPayloadConversion ProviderUpdateService (get_type p)))"

definition to_update_registrar_payload :: "transaction_payload \<Rightarrow> (provider_update_registrar_payload, enc_error) result" where
  "to_update_registrar_payload p =
     (case p of ProviderUpdateRegistrarPayloadType payload \<Rightarrow> Ok payload
      | _ \<Rightarrow> Err (WrongSpecialTransactionPayloadConversion ProviderUpdateRegistrar (get_type p)))"

definition to_update_revocation_payload :: "transaction_payload \<Rightarrow> (provider_update_revocation_payload, enc_error) result" where
  "to_update_revocation_payload p =
     (case p of ProviderUpdateRevocationPayloadType payload \<Rightarrow> Ok payload
      | _ \<Rightarrow> Err (WrongSpecialTransactionPayloadConversion ProviderUpdateRevocation (get_type p)))"

definition to_coinbase_payload :: "transaction_payload \<Rightarrow> (coinbase_payload, enc_error) result" where
  "to_coinbase_payload p =
     (case p of CoinbasePayloadType payload \<Rightarrow> Ok payload
      | _ \<Rightarrow> Err (WrongSpecialTransactionPayloadConversion Coinbase (get_type p)))"

definition to_quorum_commitment_payload :: "transaction_payload \<Rightarrow> (quorum_commitment_payload, enc_error) result" where
  "to_quorum_commitment_payload p =
     (case p of QuorumCommitmentPayloadType payload \<Rightarrow> Ok payload
      | _ \<Rightarrow> Err (WrongSpecialTransactionPayloadConversion QuorumCommitment (get_type p)))"

definition to_mnhf_signal_payload :: "transaction_payload \<Rightarrow> (mnhf_signal_payload, enc_error) result" where
  "to_mnhf_signal_payload p =
     (case p of MnhfSignalPayloadType payload \<Rightarrow> Ok payload
      | _ \<Rightarrow> Err (WrongSpecialTransactionPayloadConversion MnhfSignal (get_type p)))"

definition to_asset_lock_payload :: "transaction_payload \<Rightarrow> (asset_lock_payload, enc_error) result" where
  "to_asset_lock_payload p =
     (case p of AssetLockPayloadType payload \<Rightarrow> Ok payload
      | _ \<Rightarrow> Err (WrongSpecialTransactionPayloadConversion AssetLock (get_type p)))"

definition to_asset_unlock_payload :: "transaction_payload \<Rightarrow> (asset_unlock_payload, enc_error) result" where
  "to_asset_unlock_payload p =
     (case p of AssetUnlockPayloadType payload \<Rightarrow> Ok payload
      | _ \<Rightarrow> Err (WrongSpecialTransactionPayloadConversion AssetLock (get_type p)))"

section \<open>Transaction types\<close>

fun to_u16 :: "transaction_type \<Rightarrow> u16" where
  "to_u16 Classic = 0"
| "to_u16 ProviderRegistration = 1"
| "to_u16 ProviderUpdateService = 2"
| "to_u16 ProviderUpdateRegistrar = 3"
| "to_u16 ProviderUpdateRevocation = 4"
| "to_u16 Coinbase = 5"
| "to_u16 QuorumCommitment = 6"
| "to_u16 MnhfSignal = 7"
| "to_u16 AssetLock = 8"
| "to_u16 AssetUnlock = 9"
| "to_u16 (ClassicalWithNonStandardVersionTypeBytes raw) = raw"

definition transaction_type_try_from :: "u16 \<Rightarrow> (transaction_type, enc_error) result" where
  "transaction_type_try_from v =
     (if v = 0 then Ok Classic
      else if v = 1 then Ok ProviderRegistration
      else if v = 2 then Ok ProviderUpdateService
      else if v = 3 then Ok ProviderUpdateRegistrar
      else if v = 4 then Ok ProviderUpdateRevocation
      else if v = 5 then Ok Coinbase
      else if v = 6 then Ok QuorumCommitment
      else if v = 7 then Ok MnhfSignal
      else if v = 8 then Ok AssetLock
      else if v = 9 then Ok AssetUnlock
      else Err (UnknownSpecialTransactionType v))"

definition transaction_type_decode :: "transaction_type decoder" where
  "transaction_type_decode =
     dbind read_int (\<lambda>n bs. case transaction_type_try_from n of Err e \<Rightarrow> Err e | Ok t \<Rightarrow> Ok (t, bs))"

definition from_optional_payload :: "transaction_payload option \<Rightarrow> transaction_type" where
  "from_optional_payload p = (case p of None \<Rightarrow> Classic | Some payload \<Rightarrow> get_type payload)"

text \<open>The length before the payload is read and not looked at.\<close>

definition payload_decode :: "transaction_type \<Rightarrow> transaction_payload option decoder" where
  "payload_decode t =
     dbind (case t of Classic \<Rightarrow> dret 0
            | ClassicalWithNonStandardVersionTypeBytes _ \<Rightarrow> dret 0
            | _ \<Rightarrow> varint_decode) (\<lambda>_.
     case t of
       Classic \<Rightarrow> dret None
     | ClassicalWithNonStandardVersionTypeBytes raw \<Rightarrow>
         dret (Some (ClassicalWithNonStandardVersionTypeBytesPayloadType raw))
     | ProviderRegistration \<Rightarrow> dbind registration_decode (\<lambda>p. dret (Some (ProviderRegistrationPayloadType p)))
     | ProviderUpdateService \<Rightarrow> dbind update_service_decode (\<lambda>p. dret (Some (ProviderUpdateServicePayloadType p)))
     | ProviderUpdateRegistrar \<Rightarrow> dbind registrar_decode (\<lambda>p. dret (Some (ProviderUpdateRegistrarPayloadType p)))
     | ProviderUpdateRevocation \<Rightarrow> dbind revocation_decode (\<lambda>p. dret (Some (ProviderUpdateRevocationPayloadType p)))
     | Coinbase \<Rightarrow> dbind coinbase_decode (\<lambda>p. dret (Some (CoinbasePayloadType p)))
     | QuorumCommitment \<Rightarrow> dbind quorum_commitment_decode (\<lambda>p. dret (Some (QuorumCommitmentPayloadType p)))
     | MnhfSignal \<Rightarrow> dbind mnhf_signal_decode (\<lambda>p. dret (Some (MnhfSignalPayloadType p)))
     | AssetLock \<Rightarrow> dbind asset_lock_decode (\<lambda>p. dret (Some (AssetLockPayloadType p)))
     | AssetUnlock \<Rightarrow> dbind asset_unlock_decode (\<lambda>p. dret (Some (AssetUnlockPayloadType p))))"

section \<open>Asset unlocks without a signature\<close>

record asset_unlock_base_info =
  bi_version :: u16
  bi_lock_time :: u32
  bi_output :: "txout list"
  base_payload :: asset_unlock_base_payload

definition base_info_size :: "asset_unlock_base_info \<Rightarrow> nat" where
  "base_info_size i =
     2 + 2 + 1 + 4 + sum_list (map txout_size (bi_output i)) +
     varint_len (word_of_nat (length (bi_output i))) + asset_unlock_base_size (base_payload i)"

definition base_info_encode :: "asset_unlock_base_info \<Rightarrow> u8 list" where
  "base_info_encode i =
     emit_int (bi_version i) @ emit_int (to_u16 AssetUnlock) @ vec_encode txin_encode [] @
     vec_encode txout_encode (bi_output i) @ emit_int (bi_lock_time i) @
     asset_unlock_base_encode (base_payload i)"

definition base_info_decode :: "asset_unlock_base_info decoder" where
  "base_info_decode =
     dbind read_int (\<lambda>v. dbind read_int (\<lambda>n.
       case transaction_type_try_from n of
         Err _ \<Rightarrow> dfail (UnknownSpecialTransactionType n)
       | Ok t \<Rightarrow>
           if t \<noteq> AssetUnlock then dfail (WrongSpecialTransactionPayloadConversion AssetUnlock t)
           else
             dbind (consensus_decode (vec_decode txin_decode)) (\<lambda>_.
             dbind (consensus_decode (vec_decode txout_decode)) (\<lambda>os. dbind read_int (\<lambda>l.
             dbind asset_unlock_base_decode (\<lambda>b.
               dret \<lparr>bi_version = v, bi_lock_time = l, bi_output = os, base_payload = b\<rparr>))))))"

end
