(* ===== verification/Special_Tx_Codec.thy ===== *)
theory Special_Tx_Codec
  imports Special_Tx
begin

text \<open>
  The payloads of special transactions keep the contract of \<open>codec\<close>, most of them that of
  \<open>canonical_codec\<close>, and the sizes they announce are the lengths of their encodings, with the
  exceptions stated below. The predicates \<open>..._ok\<close> say when a record is a value of its Rust type
  whose optional fields are present exactly where they are written.
\<close>

section \<open>Payloads round trip\<close>

lemma dbind_assoc: "dbind (dbind d f) g = dbind d (\<lambda>x. dbind (f x) g)"
  by (rule ext) (auto simp: dbind_def split: sum.splits)

lemma dret_Ok: "dret x bs = Ok (x, bs)"
  by (simp add: dret_def)

lemma dbind_OkE:
  assumes "dbind d f bs = Ok (y, r)"
  obtains x bs' where "d bs = Ok (x, bs')" "f x bs' = Ok (y, r)"
  using assms by (auto simp: dbind_Ok_iff)

lemma dbind_dret: "dbind (dret x) f = f x"
  by (rule ext) (simp add: dbind_def dret_def)

interpretation c_u128: canonical_codec "emit_int :: u128 \<Rightarrow> u8 list" read_int "\<lambda>_. True"
  by (rule int_canonical_codec) simp

interpretation c_arr20: canonical_codec array_encode "read_slice 20" "\<lambda>bs. length bs = 20"
  by (rule array_canonical_codec)

interpretation c_arr48: canonical_codec array_encode "read_slice 48" "\<lambda>bs. length bs = 48"
  by (rule array_canonical_codec)

interpretation c_arr96: canonical_codec array_encode "read_slice 96" "\<lambda>bs. length bs = 96"
  by (rule array_canonical_codec)

text \<open>A byte string that the limited readers of a payload see as a whole.\<close>

definition field_ok :: "u8 list \<Rightarrow> bool" where
  "field_ok bs \<longleftrightarrow> length (consensus_encode_with_size bs) \<le> MAX_VEC_SIZE"

lemma field_ok_iff:
  "(\<lambda>bs. length bs < 2 ^ 64 \<and> length (consensus_encode_with_size bs) \<le> MAX_VEC_SIZE) = field_ok"
  by (auto simp: field_ok_def consensus_encode_with_size_def MAX_VEC_SIZE_def)

interpretation c_bytes_field: canonical_codec consensus_encode_with_size "consensus_decode bytes_decode" field_ok
  using c_bytes.limited_canonical_codec unfolding field_ok_iff .

interpretation c_script_field: canonical_codec script_encode "consensus_decode script_decode" field_ok
  using c_script.limited_canonical_codec unfolding script_encode_def field_ok_iff .

lemmas field_read = c_u128.bind_enc [OF TrueI] c_hash.bind_enc c_arr20.bind_enc c_arr48.bind_enc c_arr96.bind_enc
  c_txouts_limited.bind_enc c_outpoint.bind_enc c_bytes_field.bind_enc c_script_field.bind_enc
  c_socket.bind_enc c_compact_size.bind_enc [OF TrueI] dbind_assoc dbind_dret dret_Ok

lemmas field_iff = dbind_Ok_iff dret_Ok_iff c_u8.decode_iff c_u16.decode_iff c_u32.decode_iff c_u64.decode_iff
  c_u128.decode_iff c_hash.decode_iff c_arr20.decode_iff c_arr48.decode_iff c_arr96.decode_iff
  c_txouts_limited.decode_iff c_outpoint.decode_iff c_bytes_field.decode_iff c_script_field.decode_iff
  c_compact_size.decode_iff

definition asset_lock_ok :: "asset_lock_payload \<Rightarrow> bool" where
  "asset_lock_ok p \<longleftrightarrow>
     vec_wf txout_ok (credit_outputs p) \<and> length (vec_encode txout_encode (credit_outputs p)) \<le> MAX_VEC_SIZE"

interpretation c_asset_lock: canonical_codec asset_lock_encode asset_lock_decode asset_lock_ok
  by unfold_locales
    (auto simp: asset_lock_encode_def asset_lock_decode_def asset_lock_ok_def field_read field_iff)

interpretation c_asset_unlock_base: canonical_codec asset_unlock_base_encode asset_unlock_base_decode "\<lambda>_. True"
  by unfold_locales (auto simp: asset_unlock_base_encode_def asset_unlock_base_decode_def field_read field_iff)

definition asset_unlock_ok :: "asset_unlock_payload \<Rightarrow> bool" where
  "asset_unlock_ok p \<longleftrightarrow> length (ri_quorum_hash (au_request_info p)) = 32 \<and> length (quorum_sig p) = 96"

interpretation c_request_info: canonical_codec request_info_encode request_info_decode "\<lambda>i. length (ri_quorum_hash i) = 32"
  by unfold_locales (auto simp: request_info_encode_def request_info_decode_def field_read field_iff)

interpretation c_asset_unlock: canonical_codec asset_unlock_encode asset_unlock_decode asset_unlock_ok
  by unfold_locales
    (auto simp: asset_unlock_encode_def asset_unlock_decode_def asset_unlock_ok_def field_read
      c_asset_unlock_base.bind_enc c_request_info.bind_enc c_asset_unlock_base.decode_iff c_request_info.decode_iff
      field_iff)

definition mnhf_signal_ok :: "mnhf_signal_payload \<Rightarrow> bool" where
  "mnhf_signal_ok p \<longleftrightarrow> length (mh_quorum_hash p) = 32 \<and> length (mh_sig p) = 96"

interpretation c_mnhf_signal: canonical_codec mnhf_signal_encode mnhf_signal_decode mnhf_signal_ok
  by unfold_locales
    (auto simp: mnhf_signal_encode_def mnhf_signal_decode_def mnhf_signal_ok_def field_read field_iff)

definition revocation_ok :: "provider_update_revocation_payload \<Rightarrow> bool" where
  "revocation_ok p \<longleftrightarrow>
     length (rv_pro_tx_hash p) = 32 \<and> length (rv_inputs_hash p) = 32 \<and> length (rv_payload_sig p) = 96"

interpretation c_revocation: canonical_codec revocation_encode revocation_decode revocation_ok
  by unfold_locales
    (auto simp: revocation_encode_def revocation_base_def revocation_decode_def revocation_ok_def field_read field_iff)

definition registrar_ok :: "provider_update_registrar_payload \<Rightarrow> bool" where
  "registrar_ok p \<longleftrightarrow>
     length (rg_pro_tx_hash p) = 32 \<and> length (rg_operator_public_key p) = 48 \<and>
     length (rg_voting_key_hash p) = 20 \<and> field_ok (rg_script_payout p) \<and>
     length (rg_inputs_hash p) = 32 \<and> field_ok (rg_payload_sig p)"

interpretation c_registrar: canonical_codec registrar_encode registrar_decode registrar_ok
  by unfold_locales
    (auto simp: registrar_encode_def registrar_base_def registrar_decode_def registrar_ok_def field_read field_iff)

interpretation c_masternode_type: canonical_codec masternode_type_encode masternode_type_decode "\<lambda>_. True"
proof
  show "masternode_type_decode (masternode_type_encode t @ rest) = Ok (t, rest)" for t rest
    by (cases t) (simp_all add: masternode_type_encode_def masternode_type_decode_def field_read)
  show "True \<and> bs = masternode_type_encode t @ rest" if "masternode_type_decode bs = Ok (t, rest)" for bs t rest
    using that
    by (auto simp: masternode_type_encode_def masternode_type_decode_def dbind_Ok_iff c_u16.decode_iff
      dret_Ok_iff dfail_Ok_iff split: if_splits)
qed

text \<open>Platform fields are present exactly where they are written.\<close>

definition platform_ok :: "bool \<Rightarrow> u8 list option \<Rightarrow> u16 option \<Rightarrow> u16 option \<Rightarrow> bool" where
  "platform_ok present n p h \<longleftrightarrow>
     (if present then (\<exists>n' p' h'. n = Some n' \<and> length n' = 20 \<and> p = Some p' \<and> h = Some h')
      else n = None \<and> p = None \<and> h = None)"

definition registration_ok :: "provider_registration_payload \<Rightarrow> bool" where
  "registration_ok p \<longleftrightarrow>
     outpoint_ok (collateral_outpoint p) \<and> socket_addr_ok (service_address p) \<and>
     length (owner_key_hash p) = 20 \<and> length (pr_operator_public_key p) = 48 \<and>
     length (pr_voting_key_hash p) = 20 \<and> field_ok (pr_script_payout p) \<and>
     length (pr_inputs_hash p) = 32 \<and> field_ok (pr_signature p) \<and>
     platform_ok (pr_version p \<ge> 2 \<and> masternode_type p = HighPerformance)
       (pr_platform_node_id p) (pr_platform_p2p_port p) (pr_platform_http_port p)"

lemma platform_decode:
  assumes "length n = 20"
  shows "dbind platform_decode f (n @ emit_int p @ emit_int h @ rest) = f (Some n, Some p, Some h) rest"
  using assms by (simp add: platform_decode_def dbind_assoc dbind_dret)

interpretation c_registration: codec registration_encode registration_decode registration_ok
proof
  fix p rest
  assume "registration_ok p"
  then show "registration_decode (registration_encode p @ rest) = Ok (p, rest)"
    by (cases "pr_version p \<ge> 2 \<and> masternode_type p = HighPerformance")
      (auto simp: registration_encode_def registration_base_def registration_decode_def registration_ok_def
        platform_ok_def field_read c_masternode_type.bind_enc platform_decode array_encode_def)
qed

definition update_service_ok :: "provider_update_service_payload \<Rightarrow> bool" where
  "update_service_ok p \<longleftrightarrow>
     (us_version p = 1 \<and> mn_type p = None \<or> us_version p = 2 \<and> mn_type p \<noteq> None) \<and>
     length (us_pro_tx_hash p) = 32 \<and> field_ok (us_script_payout p) \<and>
     length (us_inputs_hash p) = 32 \<and> length (us_payload_sig p) = 96 \<and>
     platform_ok (us_version p = 2 \<and> mn_type p = Some 1)
       (us_platform_node_id p) (us_platform_p2p_port p) (us_platform_http_port p)"

lemma platform_decode_iff:
  "platform_decode bs = Ok (x, rest) \<longleftrightarrow>
     (\<exists>n p h. x = (Some n, Some p, Some h) \<and> length n = 20 \<and> bs = n @ emit_int p @ emit_int h @ rest)"
  by (auto simp: platform_decode_def field_iff array_encode_def)

interpretation c_update_service: canonical_codec update_service_encode update_service_decode update_service_ok
proof
  fix p rest
  assume "update_service_ok p"
  then show "update_service_decode (update_service_encode p @ rest) = Ok (p, rest)"
    by (cases "us_version p = 2 \<and> mn_type p = Some 1")
      (auto simp: update_service_encode_def update_service_base_def update_service_decode_def update_service_ok_def
        platform_ok_def field_read platform_decode array_encode_def BasicBLS_def)
next
  fix bs p rest
  assume d: "update_service_decode bs = Ok (p, rest)"
  then show "update_service_ok p \<and> bs = update_service_encode p @ rest"
    unfolding update_service_decode_def
  proof (rule dbind_OkE, goal_cases)
    case (1 v bs')
    then have v: "v \<noteq> 0" "\<not> BasicBLS < v" by (rule_tac [!] ccontr) (simp_all add: dfail_def)
    then have "v = 1 \<or> v = 2" by (simp add: word_less_nat_alt word_unat_eq_iff BasicBLS_def) arith
    then consider "v = 1" | "v = 2" by blast
    then show ?case
    proof cases
      assume [simp]: "v = 1"
      show ?thesis
        using 1 unfolding update_service_encode_def update_service_base_def update_service_ok_def platform_ok_def
        by (auto simp: BasicBLS_def field_iff dbind_dret array_encode_def word_le_nat_alt)
    next
      assume [simp]: "v = 2"
      show ?thesis
        using 1 unfolding update_service_encode_def update_service_base_def update_service_ok_def platform_ok_def
        by (auto simp: BasicBLS_def field_iff dbind_dret platform_decode_iff array_encode_def split: if_splits)
    qed
  qed
qed

text \<open>The bytes of an encoder that can fail.\<close>

definition ok_bytes :: "('a \<Rightarrow> (u8 list, enc_error) result) \<Rightarrow> 'a \<Rightarrow> u8 list" where
  "ok_bytes enc x = (case enc x of Ok bs \<Rightarrow> bs | Err _ \<Rightarrow> [])"

lemma ok_bytesI: "\<nexists>e. enc x = Err e \<Longrightarrow> enc x = Ok (ok_bytes enc x)"
  by (cases "enc x") (auto simp: ok_bytes_def)

definition coinbase_ok :: "coinbase_payload \<Rightarrow> bool" where
  "coinbase_ok p \<longleftrightarrow>
     length (merkle_root_masternode_list p) = 32 \<and>
     (if cb_version p \<ge> 2 then length (merkle_root_quorums p) = 32 else merkle_root_quorums p = replicate 32 0) \<and>
     (if cb_version p \<ge> 3
      then best_cl_height p \<noteq> None \<and> asset_locked_amount p \<noteq> None \<and>
           (\<exists>s. best_cl_signature p = Some s \<and> length s = 96)
      else best_cl_height p = None \<and> best_cl_signature p = None \<and> asset_locked_amount p = None)"

lemma coinbase_encode_Err_iff:
  "coinbase_encode p = Err e \<longleftrightarrow>
     e = Io_InvalidInput \<and> cb_version p \<ge> 3 \<and>
     (best_cl_height p = None \<or> best_cl_signature p = None \<or> asset_locked_amount p = None)"
  by (auto simp: coinbase_encode_def Let_def split: option.splits)

interpretation c_coinbase: canonical_codec "ok_bytes coinbase_encode" coinbase_decode coinbase_ok
proof
  have v: "3 \<le> v \<Longrightarrow> 2 \<le> v" for v :: u16 by (simp add: word_le_nat_alt)
  fix p rest
  assume ok: "coinbase_ok p"
  with v [of "cb_version p"] show "coinbase_decode (ok_bytes coinbase_encode p @ rest) = Ok (p, rest)"
    by (auto simp: ok_bytes_def coinbase_encode_def coinbase_decode_def coinbase_ok_def Let_def field_read)
next
  fix bs p rest
  assume d: "coinbase_decode bs = Ok (p, rest)"
  have v: "3 \<le> v \<Longrightarrow> 2 \<le> v" for v :: u16 by (simp add: word_le_nat_alt)
  show "coinbase_ok p \<and> bs = ok_bytes coinbase_encode p @ rest"
    using d
    by (auto simp: ok_bytes_def coinbase_encode_def coinbase_decode_def coinbase_ok_def Let_def field_iff
      split: if_splits dest: v)
qed

definition quorum_entry_ok :: "quorum_entry \<Rightarrow> bool" where
  "quorum_entry_ok q \<longleftrightarrow>
     llmq_from_u8 (llmq_index (qe_llmq_type q)) = qe_llmq_type q \<and>
     (quorum_index q = None \<longleftrightarrow> \<not> (qe_version q = 2 \<or> qe_version q = 4)) \<and>
     length (signers q) \<le> MAX_BITSET_SIZE \<and> length (valid_members q) \<le> MAX_BITSET_SIZE \<and>
     length (qe_quorum_hash q) = 32 \<and> length (quorum_public_key q) = 48 \<and>
     length (quorum_vvec_hash q) = 32 \<and> length (threshold_sig q) = 96 \<and>
     length (all_commitment_aggregated_signature q) = 96"

lemma read_bitset:
  assumes "length bs \<le> MAX_BITSET_SIZE"
  shows "dbind (read_fixed_bitset (unat (word_of_nat (length bs) :: u32))) f (pack_bits bs @ rest) = f bs rest"
proof -
  have "unat (word_of_nat (length bs) :: u32) = length bs"
    using assms by (simp add: MAX_BITSET_SIZE_def unsigned_of_nat take_bit_eq_mod)
  then show ?thesis
    using assms by (simp add: dbind_def read_write_bitset)
qed

interpretation c_llmq: codec llmq_encode llmq_decode "\<lambda>t. llmq_from_u8 (llmq_index t) = t"
  by unfold_locales (simp add: llmq_encode_def llmq_decode_def field_read)

interpretation c_quorum_entry: codec "ok_bytes quorum_entry_encode" quorum_entry_decode quorum_entry_ok
  by unfold_locales
    (auto simp: ok_bytes_def quorum_entry_encode_def quorum_entry_decode_def quorum_entry_ok_def Let_def
      write_fixed_bitset_eq c_llmq.bind_enc field_read read_bitset  split: option.splits)

definition quorum_commitment_ok :: "quorum_commitment_payload \<Rightarrow> bool" where
  "quorum_commitment_ok p \<longleftrightarrow> quorum_entry_ok (finalization_commitment p)"

lemma quorum_entry_encode_Err_iff:
  "quorum_entry_encode q = Err e \<longleftrightarrow>
     e = Io_InvalidInput \<and> (length (signers q) > MAX_BITSET_SIZE \<or> length (valid_members q) > MAX_BITSET_SIZE)"
  by (auto simp: quorum_entry_encode_def write_fixed_bitset_def Let_def split: sum.splits if_splits)

lemma quorum_entry_encode_ok: "quorum_entry_ok q \<Longrightarrow> quorum_entry_encode q = Ok (ok_bytes quorum_entry_encode q)"
  by (rule ok_bytesI, unfold quorum_entry_encode_Err_iff) (auto simp: quorum_entry_ok_def)

interpretation c_quorum_commitment: codec "ok_bytes quorum_commitment_encode" quorum_commitment_decode quorum_commitment_ok
proof
  fix p rest
  assume ok: "quorum_commitment_ok p"
  then have "quorum_entry_encode (finalization_commitment p) = Ok (ok_bytes quorum_entry_encode (finalization_commitment p))"
    unfolding quorum_commitment_ok_def by (rule quorum_entry_encode_ok)
  then show "quorum_commitment_decode (ok_bytes quorum_commitment_encode p @ rest) = Ok (p, rest)"
    using ok by (simp add: ok_bytes_def [of quorum_commitment_encode] quorum_commitment_encode_def
      quorum_commitment_decode_def quorum_commitment_ok_def c_quorum_entry.bind_enc dret_Ok)
qed

fun payload_ok :: "transaction_payload \<Rightarrow> bool" where
  "payload_ok (ProviderRegistrationPayloadType p) = registration_ok p"
| "payload_ok (ProviderUpdateServicePayloadType p) = update_service_ok p"
| "payload_ok (ProviderUpdateRegistrarPayloadType p) = registrar_ok p"
| "payload_ok (ProviderUpdateRevocationPayloadType p) = revocation_ok p"
| "payload_ok (CoinbasePayloadType p) = coinbase_ok p"
| "payload_ok (QuorumCommitmentPayloadType p) = quorum_commitment_ok p"
| "payload_ok (MnhfSignalPayloadType p) = mnhf_signal_ok p"
| "payload_ok (AssetLockPayloadType p) = asset_lock_ok p"
| "payload_ok (AssetUnlockPayloadType p) = asset_unlock_ok p"
| "payload_ok (ClassicalWithNonStandardVersionTypeBytesPayloadType _) = True"

fun is_raw :: "transaction_payload \<Rightarrow> bool" where
  "is_raw (ClassicalWithNonStandardVersionTypeBytesPayloadType _) = True"
| "is_raw _ = False"

lemma coinbase_encode_ok: "coinbase_ok p \<Longrightarrow> coinbase_encode p = Ok (ok_bytes coinbase_encode p)"
  by (rule ok_bytesI, unfold coinbase_encode_Err_iff) (auto simp: coinbase_ok_def)

lemma quorum_commitment_encode_ok:
  "quorum_commitment_ok p \<Longrightarrow> quorum_commitment_encode p = Ok (ok_bytes quorum_commitment_encode p)"
  by (simp add: ok_bytes_def [of quorum_commitment_encode] quorum_commitment_encode_def quorum_commitment_ok_def
    quorum_entry_encode_ok)

lemma payload_round_trip:
  assumes "payload_ok p"
  obtains bs where "payload_encode p = Ok bs"
    and "\<And>n rest. payload_decode (get_type p) ((if is_raw p then [] else varint_encode n) @ bs @ rest) = Ok (Some p, rest)"
  using assms
  by (cases p)
    (simp_all add: payload_decode_def c_varint.bind_enc dbind_dret dret_Ok
      c_registration.bind_enc c_update_service.bind_enc c_registrar.bind_enc c_revocation.bind_enc
      c_coinbase.bind_enc c_quorum_commitment.bind_enc c_mnhf_signal.bind_enc c_asset_lock.bind_enc
      c_asset_unlock.bind_enc coinbase_encode_ok quorum_commitment_encode_ok)

lemma bitset_decoded: "read_fixed_bitset n bs = Ok (x, rest) \<Longrightarrow> length x \<le> MAX_BITSET_SIZE"
  by (auto simp: read_fixed_bitset_def dfail_Ok_iff field_iff split: if_splits)

lemma quorum_commitment_reencodes:
  assumes "quorum_commitment_decode bs = Ok (p, rest)"
  shows "\<exists>bs'. quorum_commitment_encode p = Ok bs'"
proof -
  have "length (signers (finalization_commitment p)) \<le> MAX_BITSET_SIZE \<and>
    length (valid_members (finalization_commitment p)) \<le> MAX_BITSET_SIZE"
    using assms by (auto simp: quorum_commitment_decode_def quorum_entry_decode_def dbind_Ok_iff dret_Ok_iff
      dest!: bitset_decoded)
  then have "\<nexists>e. quorum_entry_encode (finalization_commitment p) = Err e"
    unfolding quorum_entry_encode_Err_iff by auto
  from ok_bytesI [of quorum_entry_encode, OF this] show ?thesis by (simp add: quorum_commitment_encode_def)
qed

text \<open>
  The types whose payloads are accepted in exactly one encoding; registrations hold a socket address
  and quorum commitments a quorum type number, which may be read in several.
\<close>

definition canonical_type :: "transaction_type \<Rightarrow> bool" where
  "canonical_type t \<longleftrightarrow> t \<noteq> ProviderRegistration \<and> t \<noteq> QuorumCommitment"

lemma payload_decoded:
  assumes "payload_decode t bs = Ok (r, rest)"
  shows "from_optional_payload r = t"
    and "r = Some p \<Longrightarrow> \<exists>enc. payload_encode p = Ok enc"
    and "r = Some p \<Longrightarrow> canonical_type t \<Longrightarrow>
      payload_ok p \<and> (\<exists>n enc. payload_encode p = Ok enc \<and> bs = (if is_raw p then [] else varint_encode n) @ enc @ rest)"
  using assms
  by (cases t; auto simp: payload_decode_def from_optional_payload_def canonical_type_def dbind_dret
      dbind_Ok_iff dret_Ok_iff c_varint.decode_iff c_update_service.decode_iff c_registrar.decode_iff
      c_revocation.decode_iff c_coinbase.decode_iff c_mnhf_signal.decode_iff c_asset_lock.decode_iff
      c_asset_unlock.decode_iff coinbase_encode_ok dest: quorum_commitment_reencodes)+

section \<open>Announced sizes\<close>

lemma length_emit [simp]:
  "length (emit_u8 a) = 1" "length (emit_int (b :: u16)) = 2" "length (emit_int (c :: u32)) = 4"
  "length (emit_int (d :: u64)) = 8" "length (emit_int (e :: u128)) = 16"
  by (simp_all add: emit_u8_def emit_int_def length_to_le_bytes)

lemma length_with_size [simp]:
  "length (consensus_encode_with_size bs) = varint_len (word_of_nat (length bs)) + length bs"
  "length (script_encode bs) = varint_len (word_of_nat (length bs)) + length bs"
  by (simp_all add: script_encode_def consensus_encode_with_size_def varint_len_encode)

lemma length_vec_txout: "length (vec_encode txout_encode ts) = varint_len (word_of_nat (length ts)) + sum_list (map txout_size ts)"
  by (simp add: vec_encode_def varint_len_encode length_concat comp_def length_txout_encode)

lemma length_socket [simp]: "length (socket_addr_encode a) = 18"
  by (cases a) (simp_all add: socket_addr_encode_def be_bytes)

fun registration_platform_bytes :: "transaction_payload \<Rightarrow> nat" where
  "registration_platform_bytes (ProviderRegistrationPayloadType p) =
     (if pr_version p \<ge> 2 \<and> masternode_type p = HighPerformance then 24 else 0)"
| "registration_platform_bytes _ = 0"

lemma registration_size:
  "registration_ok p \<Longrightarrow>
     registration_size p + registration_platform_bytes (ProviderRegistrationPayloadType p) = length (registration_encode p)"
  by (auto simp: registration_ok_def registration_size_def registration_encode_def registration_base_def
    masternode_type_encode_def outpoint_encode_def outpoint_ok_def platform_ok_def array_encode_def)

lemma update_service_size: "update_service_ok p \<Longrightarrow> update_service_size p = length (update_service_encode p)"
  by (auto simp: update_service_ok_def update_service_size_def update_service_encode_def update_service_base_def
    platform_ok_def array_encode_def BasicBLS_def word_le_nat_alt)

lemma registrar_size: "registrar_ok p \<Longrightarrow> registrar_size p = length (registrar_encode p)"
  by (simp add: registrar_ok_def registrar_size_def registrar_encode_def registrar_base_def array_encode_def)

lemma coinbase_size:
  assumes "coinbase_ok p" and "coinbase_encode p = Ok bs"
  shows "coinbase_size p = length bs"
proof -
  have "3 \<le> cb_version p \<Longrightarrow> 2 \<le> cb_version p" by (simp add: word_le_nat_alt)
  with assms show ?thesis
    by (auto simp: coinbase_ok_def coinbase_size_def coinbase_encode_def array_encode_def compact_size_len_encode
      Let_def split: if_splits)
qed

lemma quorum_commitment_size:
  assumes "quorum_commitment_ok p" and "quorum_commitment_encode p = Ok bs"
  shows "quorum_commitment_size p = length bs"
proof -
  have "quorum_entry_size q = length b" if "quorum_entry_ok q" "quorum_entry_encode q = Ok b" for q b
    using that
    by (auto simp: quorum_entry_ok_def quorum_entry_size_def quorum_entry_encode_def llmq_encode_def array_encode_def
      write_fixed_bitset_eq compact_size_len_encode length_pack_bits fixed_bitset_len_def Let_def split: option.splits)
  with assms show ?thesis
    by (auto simp: quorum_commitment_ok_def quorum_commitment_size_def quorum_commitment_encode_def split: sum.splits)
qed

lemma payload_size:
  assumes "payload_ok p" and "payload_encode p = Ok bs" and "\<not> is_raw p"
  shows "payload_len p + registration_platform_bytes p = 1 + length bs"
  using assms registration_size
  by (cases p)
    (auto simp: update_service_size registrar_size coinbase_size quorum_commitment_size revocation_ok_def
      revocation_size_def revocation_encode_def revocation_base_def mnhf_signal_ok_def mnhf_signal_size_def
      mnhf_signal_encode_def asset_lock_size_def asset_lock_encode_def length_vec_txout asset_unlock_ok_def
      asset_unlock_size_def asset_unlock_encode_def asset_unlock_base_size_def asset_unlock_base_encode_def
      request_info_encode_def REQUEST_INFO_SIZE_def array_encode_def Let_def simp del: registration_platform_bytes.simps(1))

section \<open>Properties\<close>

text \<open>
  C28: the payload of a special transaction is written without error and read back whatever length is
  announced before it; nothing of what follows is consumed.
\<close>

theorem payload_round_trip_exact:
  assumes "payload_ok p"
  shows "\<exists>bs. payload_encode p = Ok bs \<and>
    (\<forall>n rest. payload_decode (get_type p) ((if is_raw p then [] else varint_encode n) @ bs @ rest) = Ok (Some p, rest))"
  using payload_round_trip [OF assms] by metis

definition sample_signal :: mnhf_signal_payload where
  "sample_signal = \<lparr>mh_version = 1, version_bit = 9, mh_quorum_hash = replicate 32 7, mh_sig = replicate 96 3\<rparr>"

theorem payload_round_trip_exact_witness:
  "\<exists>bs. payload_encode (MnhfSignalPayloadType sample_signal) = Ok bs \<and>
     payload_decode MnhfSignal (varint_encode 5 @ bs @ [1]) = Ok (Some (MnhfSignalPayloadType sample_signal), [1])"
proof -
  have "payload_ok (MnhfSignalPayloadType sample_signal)" by (simp add: sample_signal_def mnhf_signal_ok_def)
  from payload_round_trip_exact [OF this] show ?thesis by auto
qed

text \<open>
  C27: a payload that was read is of the type it was read for and can be written again; unless the
  type is a registration or a quorum commitment it is written as the bytes it was read from.
\<close>

theorem payload_decode_typed:
  assumes "payload_decode t bs = Ok (r, rest)"
  shows "from_optional_payload r = t \<and>
    (\<forall>p. r = Some p \<longrightarrow> (\<exists>enc. payload_encode p = Ok enc \<and>
      (canonical_type t \<longrightarrow> payload_ok p \<and>
        (\<exists>n. bs = (if is_raw p then [] else varint_encode n) @ enc @ rest))))"
proof (intro conjI allI impI)
  show "from_optional_payload r = t" by (rule payload_decoded(1) [OF assms])
  fix p
  assume r: "r = Some p"
  show "\<exists>enc. payload_encode p = Ok enc \<and> (canonical_type t \<longrightarrow> payload_ok p \<and>
        (\<exists>n. bs = (if is_raw p then [] else varint_encode n) @ enc @ rest))"
    using payload_decoded(2) [OF assms r] payload_decoded(3) [OF assms r] by (cases "canonical_type t") blast+
qed

theorem payload_decode_typed_witness:
  "\<exists>bs. payload_decode MnhfSignal bs = Ok (Some (MnhfSignalPayloadType sample_signal), []) \<and>
     (\<exists>enc n. payload_encode (MnhfSignalPayloadType sample_signal) = Ok enc \<and> bs = varint_encode n @ enc)"
proof -
  have "payload_ok (MnhfSignalPayloadType sample_signal)" by (simp add: sample_signal_def mnhf_signal_ok_def)
  then obtain bs where d: "payload_decode MnhfSignal (varint_encode 130 @ bs @ []) = Ok (Some (MnhfSignalPayloadType sample_signal), [])"
    by (rule payload_round_trip) auto
  from payload_decode_typed [OF d] d show ?thesis by (auto simp: canonical_type_def)
qed

text \<open>
  C29: the announced size of a payload section is one more than the length of the payload, except for
  registrations of high-performance nodes, whose platform fields are left out, so that it is 24 less
  than that. It is the length of the section, the length prefix included, exactly if the payload is
  shorter than 253 bytes and is not a registration with platform fields.
\<close>

theorem payload_len_exact:
  assumes "payload_ok p" and "payload_encode p = Ok bs" and "\<not> is_raw p" and "length bs < 2 ^ 64"
  shows "payload_len p + registration_platform_bytes p = 1 + length bs \<and>
    (payload_len p = length (consensus_encode_with_size bs) \<longleftrightarrow> length bs < 253 \<and> registration_platform_bytes p = 0)"
proof -
  have l: "varint_len (word_of_nat (length bs)) = 1 \<longleftrightarrow> length bs < 253" "varint_len (word_of_nat (length bs)) \<ge> 1"
    using assms(4) by (auto simp: varint_len_def word_le_nat_alt unat_length_u64)
  have "payload_len p + registration_platform_bytes p = 1 + length bs" by (rule payload_size [OF assms(1-3)])
  with l show ?thesis by auto
qed

definition sample_commitment :: quorum_commitment_payload where
  "sample_commitment =
     \<lparr>qc_version = 1, qc_height = 5,
      finalization_commitment =
        \<lparr>qe_version = 1, qe_llmq_type = Llmqtype50_60, qe_quorum_hash = replicate 32 0, quorum_index = None,
         signers = [True], valid_members = [True], quorum_public_key = replicate 48 1,
         quorum_vvec_hash = replicate 32 2, threshold_sig = replicate 96 3,
         all_commitment_aggregated_signature = replicate 96 4\<rparr>\<rparr>"

theorem payload_len_exact_witness:
  "\<exists>bs. payload_encode (QuorumCommitmentPayloadType sample_commitment) = Ok bs \<and> length bs = 317 \<and>
     payload_len (QuorumCommitmentPayloadType sample_commitment) \<noteq> length (consensus_encode_with_size bs)"
proof -
  have ok: "payload_ok (QuorumCommitmentPayloadType sample_commitment)"
    by (simp add: sample_commitment_def quorum_commitment_ok_def quorum_entry_ok_def MAX_BITSET_SIZE_def llmq_from_u8_def)
  obtain bs where e: "payload_encode (QuorumCommitmentPayloadType sample_commitment) = Ok bs"
    using payload_round_trip [OF ok] by metis
  have "quorum_commitment_size sample_commitment = length bs"
    using quorum_commitment_size ok e by simp
  then have n: "length bs = 317"
    by (simp add: sample_commitment_def quorum_commitment_size_def quorum_entry_size_def compact_size_len_def
      fixed_bitset_len_def word_le_nat_alt word_less_nat_alt)
  from payload_len_exact [OF ok e] n e show ?thesis by simp
qed

end
