(* ===== verification/Transaction.thy ===== *)
theory Transaction
  imports Special_Tx_Codec
begin

text \<open>
  Transactions, from \<open>src/dash/src/blockdata/transaction/mod.rs\<close>, and the building of asset unlock
  transactions (\<open>special_transaction/asset_unlock/qualified_asset_unlock.rs\<close>): encoding with and
  without the BIP 144 witness section, ids, sizes and weights. The double SHA-256 of the hash crate
  is the parameter \<open>H\<close>. An id is \<open>None\<close> where the code panics because the payload cannot be
  written; a size is \<open>None\<close> where reading a witness panics.
\<close>

section \<open>Transactions and their encoding\<close>

record transaction =
  tx_version :: u16
  lock_time :: u32
  tx_input :: "txin list"
  tx_output :: "txout list"
  special_transaction_payload :: "transaction_payload option"

definition tx_type :: "transaction \<Rightarrow> transaction_type" where
  "tx_type tx = from_optional_payload (special_transaction_payload tx)"

text \<open>
  The types that \<open>consensus_encode\<close> and \<open>consensus_decode_from_finite_reader\<close> never treat as segwit.
\<close>

definition never_segwit :: "transaction_type \<Rightarrow> bool" where
  "never_segwit t \<longleftrightarrow> t = AssetUnlock \<or> t = QuorumCommitment \<or> t = MnhfSignal \<or> t = Coinbase"

definition have_witness :: "transaction \<Rightarrow> bool" where
  "have_witness tx \<longleftrightarrow>
     (if never_segwit (tx_type tx) then False
      else tx_input tx = [] \<or> list_ex (\<lambda>i. \<not> wit_is_empty (in_witness i)) (tx_input tx))"

definition payload_section :: "transaction \<Rightarrow> (u8 list, enc_error) result" where
  "payload_section tx =
     (case special_transaction_payload tx of
        None \<Rightarrow> Ok []
      | Some (ClassicalWithNonStandardVersionTypeBytesPayloadType _) \<Rightarrow> Ok []
      | Some payload \<Rightarrow>
          (case payload_encode payload of Err e \<Rightarrow> Err e | Ok buf \<Rightarrow> Ok (consensus_encode_with_size buf)))"

definition tx_encode :: "transaction \<Rightarrow> (u8 list, enc_error) result" where
  "tx_encode tx =
     (let start = emit_int (tx_version tx) @ emit_int (to_u16 (tx_type tx));
          body =
            (if \<not> have_witness tx then vec_encode txin_encode (tx_input tx) @ vec_encode txout_encode (tx_output tx)
             else emit_u8 0 @ emit_u8 1 @ vec_encode txin_encode (tx_input tx) @
               vec_encode txout_encode (tx_output tx) @ concat (map (\<lambda>i. witness_encode (in_witness i)) (tx_input tx)))
      in case payload_section tx of
           Err e \<Rightarrow> Err e
         | Ok section \<Rightarrow> Ok (start @ body @ emit_int (lock_time tx) @ section))"

fun decode_witnesses :: "txin list \<Rightarrow> txin list decoder" where
  "decode_witnesses [] = dret []"
| "decode_witnesses (i # is) =
     dbind witness_decode (\<lambda>w. dbind (decode_witnesses is) (\<lambda>is'. dret (i\<lparr>in_witness := w\<rparr> # is')))"

definition read_tx_type :: "u16 \<Rightarrow> transaction_type decoder" where
  "read_tx_type version =
     dbind read_int (\<lambda>n.
       if version \<noteq> 0 then
         (case transaction_type_try_from n of Err _ \<Rightarrow> dfail (UnknownSpecialTransactionType n) | Ok t \<Rightarrow> dret t)
       else if n = 0 then dret Classic
       else dret (ClassicalWithNonStandardVersionTypeBytes n))"

definition tail_decode :: "u16 \<Rightarrow> transaction_type \<Rightarrow> txin list \<Rightarrow> txout list \<Rightarrow> transaction decoder" where
  "tail_decode version t input output =
     dbind read_int (\<lambda>lt. dbind (payload_decode t) (\<lambda>p.
       dret \<lparr>tx_version = version, lock_time = lt, tx_input = input, tx_output = output,
         special_transaction_payload = p\<rparr>))"

definition segwit_decode :: "u16 \<Rightarrow> transaction_type \<Rightarrow> transaction decoder" where
  "segwit_decode version t =
     dbind read_u8 (\<lambda>segwit_flag.
       if segwit_flag = 1 then
         dbind (vec_decode txin_decode) (\<lambda>input. dbind (vec_decode txout_decode) (\<lambda>output.
         dbind (decode_witnesses input) (\<lambda>input.
           if input \<noteq> [] \<and> list_all (\<lambda>i. wit_is_empty (in_witness i)) input
           then dfail (ParseFailed ''witness flag set but no witnesses present'')
           else tail_decode version t input output)))
       else dfail (UnsupportedSegwitFlag segwit_flag))"

definition plain_decode :: "u16 \<Rightarrow> transaction_type \<Rightarrow> txin list \<Rightarrow> transaction decoder" where
  "plain_decode version t input =
     dbind (vec_decode txout_decode) (\<lambda>output. tail_decode version t input output)"

definition tx_decode :: "transaction decoder" where
  "tx_decode =
     dbind read_int (\<lambda>version. dbind (read_tx_type version) (\<lambda>t. dbind (vec_decode txin_decode) (\<lambda>input.
       if input = [] \<and> \<not> never_segwit t then segwit_decode version t else plain_decode version t input)))"

section \<open>Ids\<close>

definition txid_bytes :: "transaction \<Rightarrow> u8 list option" where
  "txid_bytes tx =
     (case payload_section tx of
        Err _ \<Rightarrow> None
      | Ok section \<Rightarrow>
          Some (emit_int (tx_version tx) @ emit_int (to_u16 (tx_type tx)) @ vec_encode txin_encode (tx_input tx) @
            vec_encode txout_encode (tx_output tx) @ emit_int (lock_time tx) @ section))"

definition txid :: "(u8 list \<Rightarrow> u8 list) \<Rightarrow> transaction \<Rightarrow> u8 list option" where
  "txid H tx = map_option H (txid_bytes tx)"

definition ntxid :: "(u8 list \<Rightarrow> u8 list) \<Rightarrow> transaction \<Rightarrow> u8 list option" where
  "ntxid H tx =
     txid H (tx\<lparr>tx_input := map (\<lambda>i. i\<lparr>script_sig := [], in_witness := witness_default\<rparr>) (tx_input tx)\<rparr>)"

definition wtxid :: "(u8 list \<Rightarrow> u8 list) \<Rightarrow> transaction \<Rightarrow> u8 list option" where
  "wtxid H tx = (case tx_encode tx of Err _ \<Rightarrow> None | Ok bs \<Rightarrow> Some (H bs))"

definition hash_inputs :: "(u8 list \<Rightarrow> u8 list) \<Rightarrow> transaction \<Rightarrow> u8 list" where
  "hash_inputs H tx = H (concat (map (\<lambda>i. outpoint_encode (previous_output i)) (tx_input tx)))"

definition is_coin_base :: "transaction \<Rightarrow> bool" where
  "is_coin_base tx \<longleftrightarrow> length (tx_input tx) = 1 \<and> outpoint_is_null (previous_output (tx_input tx ! 0))"

definition is_explicitly_rbf :: "transaction \<Rightarrow> bool" where
  "is_explicitly_rbf tx \<longleftrightarrow> list_ex (\<lambda>i. in_sequence i < 0xFFFFFFFF - 1) (tx_input tx)"

text \<open>Outside a panic the result is the source's \<open>Option\<close>.\<close>

definition out_point_buffer :: "(u8 list \<Rightarrow> u8 list) \<Rightarrow> transaction \<Rightarrow> nat \<Rightarrow> u8 list option option" where
  "out_point_buffer H tx output_index =
     (if output_index < length (tx_output tx)
      then (case txid H tx of None \<Rightarrow> None
            | Some hash \<Rightarrow> Some (Some (hash @ to_le_bytes (word_of_nat output_index :: u32))))
      else Some None)"

section \<open>Sizes and weights\<close>

definition special_transaction_len :: "transaction \<Rightarrow> nat" where
  "special_transaction_len tx =
     (case special_transaction_payload tx of Some payload \<Rightarrow> payload_len payload | None \<Rightarrow> 0)"

definition bare_input_size :: "txin \<Rightarrow> nat" where
  "bare_input_size i = 32 + 4 + 4 + varint_len (word_of_nat (length (script_sig i))) + length (script_sig i)"

definition non_input_size :: "transaction \<Rightarrow> nat" where
  "non_input_size tx =
     4 + varint_len (word_of_nat (length (tx_input tx))) + varint_len (word_of_nat (length (tx_output tx))) +
     sum_list (map (\<lambda>t. 8 + varint_len (word_of_nat (length (script_pubkey t))) + length (script_pubkey t)) (tx_output tx)) +
     4 + special_transaction_len tx"

definition strippedsize :: "transaction \<Rightarrow> nat" where
  "strippedsize tx = non_input_size tx + sum_list (map bare_input_size (tx_input tx))"

text \<open>The loop over the inputs: the weight so far and the number of inputs with witnesses.\<close>

fun input_weights :: "nat \<Rightarrow> txin list \<Rightarrow> nat \<times> nat \<Rightarrow> (nat \<times> nat) option" where
  "input_weights scale_factor [] acc = Some acc"
| "input_weights scale_factor (i # is) (input_weight, inputs_with_witnesses) =
     (let input_weight = input_weight + scale_factor * bare_input_size i in
      if \<not> wit_is_empty (in_witness i) then
        (case serialized_len (in_witness i) of
           None \<Rightarrow> None
         | Some n \<Rightarrow> input_weights scale_factor is (input_weight + n, inputs_with_witnesses + 1))
      else input_weights scale_factor is (input_weight, inputs_with_witnesses))"

definition scaled_size :: "nat \<Rightarrow> transaction \<Rightarrow> nat option" where
  "scaled_size scale_factor tx =
     (case input_weights scale_factor (tx_input tx) (0, 0) of
        None \<Rightarrow> None
      | Some (input_weight, inputs_with_witnesses) \<Rightarrow>
          if inputs_with_witnesses = 0 then Some (non_input_size tx * scale_factor + input_weight)
          else Some (non_input_size tx * scale_factor + input_weight + length (tx_input tx) - inputs_with_witnesses + 2))"

definition WITNESS_SCALE_FACTOR :: nat where
  "WITNESS_SCALE_FACTOR = 4"

type_synonym weight = u64

definition from_wu :: "u64 \<Rightarrow> weight" where
  "from_wu wu = wu"

definition to_vbytes_ceil :: "weight \<Rightarrow> u64" where
  "to_vbytes_ceil w = (let d = w div 4 in if w mod 4 > 0 then d + 1 else d)"

definition tx_weight :: "transaction \<Rightarrow> weight option" where
  "tx_weight tx = map_option (\<lambda>n. from_wu (word_of_nat n)) (scaled_size WITNESS_SCALE_FACTOR tx)"

definition tx_size :: "transaction \<Rightarrow> nat option" where
  "tx_size tx = scaled_size 1 tx"

definition vsize :: "transaction \<Rightarrow> nat option" where
  "vsize tx = map_option (\<lambda>w. unat (to_vbytes_ceil w)) (tx_weight tx)"

section \<open>Predicted weights\<close>

record input_weight_prediction =
  script_size :: nat
  witness_size :: nat

definition prediction_new :: "nat \<Rightarrow> nat list \<Rightarrow> input_weight_prediction" where
  "prediction_new input_script_len witness_element_lengths =
     (let (count, total_size) =
        fold (\<lambda>elem_len (count, total_size).
          let elem_size = elem_len + varint_len (word_of_nat elem_len) in (count + 1, total_size + elem_size))
          witness_element_lengths (0 :: nat, 0);
        witness_size' = (if count > 0 then total_size + varint_len (word_of_nat count) else 0) in
      \<lparr>script_size = input_script_len + varint_len (word_of_nat input_script_len), witness_size = witness_size'\<rparr>)"

definition predict_weight_internal :: "nat \<Rightarrow> nat \<Rightarrow> nat \<Rightarrow> nat \<Rightarrow> nat \<Rightarrow> weight" where
  "predict_weight_internal input_count partial_input_weight inputs_with_witnesses output_count output_scripts_size =
     (let input_weight = partial_input_weight + input_count * 4 * (32 + 4 + 4);
          output_size = 8 * output_count + output_scripts_size;
          non_input_size =
            4 + varint_len (word_of_nat input_count) + varint_len (word_of_nat output_count) + output_size + 4;
          weight =
            (if inputs_with_witnesses = 0 then non_input_size * 4 + input_weight
             else non_input_size * 4 + input_weight + input_count - inputs_with_witnesses + 2) in
      from_wu (word_of_nat weight))"

definition predict_weight :: "input_weight_prediction list \<Rightarrow> nat list \<Rightarrow> weight" where
  "predict_weight inputs output_script_lens =
     (let (input_count, partial_input_weight, inputs_with_witnesses) =
        fold (\<lambda>prediction (count, partial_input_weight, inputs_with_witnesses).
          (count + 1, partial_input_weight + script_size prediction * 4 + witness_size prediction,
           inputs_with_witnesses + (if witness_size prediction > 0 then 1 else 0))) inputs (0, 0, 0);
        (output_count, output_scripts_size) =
        fold (\<lambda>script_len (output_count, total_scripts_size).
          let script_size = script_len + varint_len (word_of_nat script_len) in
          (output_count + 1, total_scripts_size + script_size)) output_script_lens (0, 0) in
      predict_weight_internal input_count partial_input_weight inputs_with_witnesses output_count output_scripts_size)"

section \<open>Building asset unlock transactions\<close>

text \<open>\<open>None\<close> is the panic of a slice whose end lies before its start.\<close>

definition build_asset_unlock_tx :: "u8 list \<Rightarrow> (transaction, enc_error) result option" where
  "build_asset_unlock_tx withdrawal_info_bytes =
     (if length withdrawal_info_bytes < REQUEST_INFO_SIZE then None
      else
        let size_asset_unlock_info = length withdrawal_info_bytes - REQUEST_INFO_SIZE in
        Some (case deserialize base_info_decode (take size_asset_unlock_info withdrawal_info_bytes) of
                Err e \<Rightarrow> Err e
              | Ok withdrawal_info \<Rightarrow>
                  case deserialize request_info_decode (drop size_asset_unlock_info withdrawal_info_bytes) of
                    Err e \<Rightarrow> Err e
                  | Ok withdrawal_request_info \<Rightarrow>
                      Ok \<lparr>tx_version = 3, lock_time = bi_lock_time withdrawal_info, tx_input = [],
                        tx_output = bi_output withdrawal_info,
                        special_transaction_payload = Some (AssetUnlockPayloadType
                          \<lparr>au_base = base_payload withdrawal_info, au_request_info = withdrawal_request_info,
                           quorum_sig = replicate 96 0\<rparr>)\<rparr>))"

end
