(* ===== verification/Transaction_Codec.thy ===== *)
theory Transaction_Codec
  imports Transaction
begin

text \<open>
  Transactions keep the contract of \<open>codec\<close>; what is accepted; ids identify transactions up to their
  witnesses; announced sizes and predicted weights. \<open>tx_ok\<close> says that a transaction is a value of
  its Rust type that its encoding can carry: payload and version fit each other, and witnesses are
  present only where they are written.
\<close>

section \<open>Transactions round trip\<close>

text \<open>The types a version can be read with.\<close>

definition type_ok :: "u16 \<Rightarrow> transaction_type \<Rightarrow> bool" where
  "type_ok version t \<longleftrightarrow>
     (if version = 0 then t = Classic \<or> (\<exists>n. n \<noteq> 0 \<and> t = ClassicalWithNonStandardVersionTypeBytes n)
      else \<forall>n. t \<noteq> ClassicalWithNonStandardVersionTypeBytes n)"

lemma try_from_to_u16: "\<forall>n. t \<noteq> ClassicalWithNonStandardVersionTypeBytes n \<Longrightarrow> transaction_type_try_from (to_u16 t) = Ok t"
  by (cases t) (simp_all add: transaction_type_try_from_def)

lemma try_from_Ok: "transaction_type_try_from n = Ok t \<Longrightarrow> to_u16 t = n \<and> (\<forall>m. t \<noteq> ClassicalWithNonStandardVersionTypeBytes m)"
  by (auto simp: transaction_type_try_from_def split: if_splits)

interpretation c_tx_type: canonical_codec "\<lambda>t. emit_int (to_u16 t)" "read_tx_type version" "type_ok version" for version
proof
  show "read_tx_type version (emit_int (to_u16 t) @ rest) = Ok (t, rest)" if "type_ok version t" for t rest
    using that by (auto simp: read_tx_type_def type_ok_def try_from_to_u16 dret_Ok split: if_splits)
  show "type_ok version t \<and> bs = emit_int (to_u16 t) @ rest" if "read_tx_type version bs = Ok (t, rest)" for bs t rest
    using that try_from_Ok
    by (auto simp: read_tx_type_def type_ok_def field_iff dfail_Ok_iff split: if_splits sum.splits)
qed

definition bare_input :: "txin \<Rightarrow> txin" where
  "bare_input i = i\<lparr>in_witness := witness_default\<rparr>"

lemma txin_encode_bare [simp]: "txin_encode (bare_input i) = txin_encode i"
  by (simp add: txin_encode_def bare_input_def)

lemma txin_bare_input [simp]: "txin_bare (bare_input i) = txin_ok i"
  by (simp add: txin_bare_def txin_ok_def bare_input_def)

lemma bare_input_id: "in_witness i = witness_default \<Longrightarrow> bare_input i = i"
  by (simp add: bare_input_def)

lemma read_inputs:
  assumes "vec_wf txin_ok is"
  shows "dbind (vec_decode txin_decode) f (vec_encode txin_encode is @ rest) = f (map bare_input is) rest"
proof -
  have "vec_encode txin_encode (map bare_input is) = vec_encode txin_encode is"
    by (simp add: vec_encode_def comp_def)
  with c_txins.bind_enc [of "map bare_input is" f rest] assms show ?thesis
    by (simp add: list_all_iff)
qed

lemma decode_witnesses_append:
  "list_all (\<lambda>i. witness_ok (in_witness i)) is \<Longrightarrow>
     decode_witnesses (map bare_input is) (concat (map (\<lambda>i. witness_encode (in_witness i)) is) @ rest) = Ok (is, rest)"
proof (induction "is")
  case (Cons i "is")
  then show ?case
    by (simp add: c_witness.bind_enc dbind_def [of "decode_witnesses _"] dret_Ok bare_input_def)
qed (simp add: dret_Ok)

lemma witness_default_of: "witness_default = witness_of []"
  by (simp add: witness_default_def witness_of_def table_def)

lemma witness_default_empty [simp]: "wit_is_empty witness_default"
  by (simp add: wit_is_empty_def witness_default_def)

lemma witness_empty: "witness_ok w \<Longrightarrow> wit_is_empty w \<Longrightarrow> w = witness_default"
  by (auto simp: witness_ok_def wit_is_empty_def witness_of_def witness_default_of)

definition tx_ok :: "transaction \<Rightarrow> bool" where
  "tx_ok tx \<longleftrightarrow>
     vec_wf txin_ok (tx_input tx) \<and> vec_wf txout_ok (tx_output tx) \<and> type_ok (tx_version tx) (tx_type tx) \<and>
     (\<forall>p. special_transaction_payload tx = Some p \<longrightarrow> payload_ok p) \<and>
     list_all (\<lambda>i. if have_witness tx then witness_ok (in_witness i) else in_witness i = witness_default) (tx_input tx)"

lemma payload_section_Some:
  "special_transaction_payload tx = Some p \<Longrightarrow> payload_section tx =
     (if is_raw p then Ok [] else case payload_encode p of Err e \<Rightarrow> Err e | Ok buf \<Rightarrow> Ok (consensus_encode_with_size buf))"
  by (cases p) (simp_all add: payload_section_def)

lemma read_payload_section:
  assumes "\<forall>p. special_transaction_payload tx = Some p \<longrightarrow> payload_ok p"
  obtains sec where "payload_section tx = Ok sec"
    and "\<And>rest. payload_decode (tx_type tx) (sec @ rest) = Ok (special_transaction_payload tx, rest)"
proof (cases "special_transaction_payload tx")
  case None
  then show ?thesis
    by (intro that [of "[]"]) (simp_all add: payload_section_def tx_type_def from_optional_payload_def
      payload_decode_def dbind_dret dret_Ok)
next
  case (Some p)
  with assms have "payload_ok p" by simp
  then obtain bs where bs: "payload_encode p = Ok bs"
    and d: "\<And>n rest. payload_decode (get_type p) ((if is_raw p then [] else varint_encode n) @ bs @ rest) = Ok (Some p, rest)"
    by (rule payload_round_trip) blast
  have t: "tx_type tx = get_type p" by (simp add: tx_type_def from_optional_payload_def Some)
  show ?thesis
  proof (cases "is_raw p")
    case True
    then have "bs = []" using bs by (cases p) simp_all
    with True d [of 0] show ?thesis
      by (intro that [of "[]"]) (simp_all add: payload_section_Some [OF Some] t Some)
  next
    case False
    with d [of "word_of_nat (length bs)"] bs show ?thesis
      by (intro that [of "consensus_encode_with_size bs"])
        (simp_all add: payload_section_Some [OF Some] t Some consensus_encode_with_size_def)
  qed
qed

lemma emit_zero: "emit_u8 0 = vec_encode txin_encode []"
  by (simp add: vec_encode_def varint_encode_def)

lemma tx_round_trip:
  assumes ok: "tx_ok tx"
  obtains bs where "tx_encode tx = Ok bs" and "\<And>rest. tx_decode (bs @ rest) = Ok (tx, rest)"
proof -
  from ok have ins: "vec_wf txin_ok (tx_input tx)" and outs: "vec_wf txout_ok (tx_output tx)"
    and ty: "type_ok (tx_version tx) (tx_type tx)"
    and pl: "\<forall>p. special_transaction_payload tx = Some p \<longrightarrow> payload_ok p"
    and wit: "list_all (\<lambda>i. if have_witness tx then witness_ok (in_witness i) else in_witness i = witness_default) (tx_input tx)"
    by (simp_all add: tx_ok_def)
  from read_payload_section [OF pl] obtain sec where s: "payload_section tx = Ok sec"
    and ds: "\<And>rest. payload_decode (tx_type tx) (sec @ rest) = Ok (special_transaction_payload tx, rest)" by blast
  have dsb: "dbind (payload_decode (tx_type tx)) f (sec @ rest) = f (special_transaction_payload tx) rest" for f rest
    by (simp add: dbind_def ds)
  have out: "dbind (vec_decode txout_decode) f (vec_encode txout_encode (tx_output tx) @ rest) = f (tx_output tx) rest" for f rest
    using outs by (simp add: c_txouts.bind_enc)
  show ?thesis
  proof (cases "have_witness tx")
    case False
    with wit have bare: "map bare_input (tx_input tx) = tx_input tx"
      by (simp add: list_all_iff bare_input_id map_idI)
    from False have "tx_input tx = [] \<Longrightarrow> never_segwit (tx_type tx)" by (auto simp: have_witness_def split: if_splits)
    with False s show ?thesis
      by (intro that) (auto simp: tx_encode_def tx_decode_def segwit_decode_def plain_decode_def tail_decode_def c_tx_type.bind_enc [OF ty] read_inputs [OF ins] bare out dsb dret_Ok)
  next
    case True
    then have ns: "\<not> never_segwit (tx_type tx)" by (auto simp: have_witness_def split: if_splits)
    from True wit have w: "list_all (\<lambda>i. witness_ok (in_witness i)) (tx_input tx)" by simp
    have dw: "dbind (decode_witnesses (map bare_input (tx_input tx))) f
        (concat (map (\<lambda>i. witness_encode (in_witness i)) (tx_input tx)) @ rest) = f (tx_input tx) rest" for f rest
      by (simp add: dbind_def decode_witnesses_append [OF w])
    have e: "dbind (vec_decode txin_decode) f (emit_u8 0 @ rest) = f [] rest" for f rest
      using read_inputs [of "[]" f rest] by (simp add: emit_zero)
    have ne: "\<not> (tx_input tx \<noteq> [] \<and> list_all (\<lambda>i. wit_is_empty (in_witness i)) (tx_input tx))"
      using True ns by (auto simp: have_witness_def list_ex_iff list_all_iff)
    from True s show ?thesis
      by (intro that) (auto simp: tx_encode_def tx_decode_def segwit_decode_def plain_decode_def tail_decode_def c_tx_type.bind_enc [OF ty] e ns read_inputs [OF ins] out dw ne dsb dret_Ok)
  qed
qed

section \<open>What is accepted\<close>

lemma decode_witnesses_Ok:
  "decode_witnesses ins bs = Ok (outs, rest) \<Longrightarrow>
     map bare_input outs = map bare_input ins \<and> list_all (\<lambda>i. witness_ok (in_witness i)) outs \<and>
     bs = concat (map (\<lambda>i. witness_encode (in_witness i)) outs) @ rest"
proof (induction ins arbitrary: bs outs)
  case (Cons i ins)
  then show ?case by (auto simp: field_iff c_witness.decode_iff bare_input_def)
qed (simp add: dret_Ok_iff)

lemma map_bare_input:
  assumes "map bare_input xs = map bare_input ys" and "list_all txin_bare ys"
  shows "list_all txin_ok xs" and "vec_encode txin_encode xs = vec_encode txin_encode ys" and "length xs = length ys"
proof -
  show "length xs = length ys" using assms(1) by (rule map_eq_imp_length_eq)
  have "list_all txin_ok ys" using assms(2) by (simp add: list_all_iff txin_bare_def)
  then have "list_all txin_bare (map bare_input ys)" by (simp add: list_all_iff)
  then show "list_all txin_ok xs" unfolding assms(1) [symmetric] by (simp add: list_all_iff)
  have "map txin_encode (map bare_input xs) = map txin_encode (map bare_input ys)" using assms(1) by simp
  then show "vec_encode txin_encode xs = vec_encode txin_encode ys"
    using \<open>length xs = length ys\<close> by (simp add: vec_encode_def comp_def)
qed

text \<open>The parts of an accepted transaction: what precedes the payload section, and that section.\<close>

definition decoded_as :: "u8 list \<Rightarrow> transaction \<Rightarrow> u8 list \<Rightarrow> bool" where
  "decoded_as pre tx bs \<longleftrightarrow>
     tx_encode tx = (case payload_section tx of Err e \<Rightarrow> Err e | Ok sec \<Rightarrow> Ok (pre @ sec)) \<and>
     (\<exists>rest. payload_decode (tx_type tx) bs = Ok (special_transaction_payload tx, rest)) \<and>
     vec_wf txin_ok (tx_input tx) \<and> vec_wf txout_ok (tx_output tx) \<and> type_ok (tx_version tx) (tx_type tx) \<and>
     list_all (\<lambda>i. if have_witness tx then witness_ok (in_witness i) else in_witness i = witness_default) (tx_input tx)"

lemma plain_decode_Ok:
  assumes "plain_decode v t inp bs = Ok (tx, rest)" and t: "type_ok v t" and inp: "vec_wf txin_bare inp"
    and s: "inp = [] \<Longrightarrow> never_segwit t"
  obtains pre bs' where "bs = pre @ bs'"
    and "payload_decode (tx_type tx) bs' = Ok (special_transaction_payload tx, rest)"
    and "decoded_as (emit_int v @ emit_int (to_u16 t) @ vec_encode txin_encode inp @ pre) tx bs'"
proof -
  from assms(1) obtain outp lt bs' p where bs: "bs = vec_encode txout_encode outp @ emit_int lt @ bs'"
    and o: "vec_wf txout_ok outp" and p: "payload_decode t bs' = Ok (p, rest)"
    and tx: "tx = \<lparr>tx_version = v, lock_time = lt, tx_input = inp, tx_output = outp, special_transaction_payload = p\<rparr>"
    unfolding plain_decode_def tail_decode_def
    by (elim dbind_OkE) (auto simp: c_u32.decode_iff c_txouts.decode_iff dret_Ok_iff)
  have ty: "tx_type tx = t" using payload_decoded(1) [OF p] by (simp add: tx_type_def tx)
  have d: "list_all (\<lambda>i. in_witness i = witness_default) inp" "list_all txin_ok inp"
    using inp by (auto simp: list_all_iff txin_bare_def)
  then have w: "\<not> have_witness tx"
    using s ty by (auto simp: have_witness_def tx list_ex_iff list_all_iff)
  show ?thesis
  proof (rule that)
    show "bs = (vec_encode txout_encode outp @ emit_int lt) @ bs'" by (simp add: bs)
    show "payload_decode (tx_type tx) bs' = Ok (special_transaction_payload tx, rest)" by (simp add: ty p) (simp add: tx)
    with w ty t o d inp show "decoded_as (emit_int v @ emit_int (to_u16 t) @ vec_encode txin_encode inp @
        vec_encode txout_encode outp @ emit_int lt) tx bs'"
      unfolding decoded_as_def by (auto simp: tx_encode_def tx split: sum.splits)
  qed
qed

lemma segwit_decode_Ok:
  assumes "segwit_decode v t bs = Ok (tx, rest)" and t: "type_ok v t" and s: "\<not> never_segwit t"
  obtains pre bs' where "bs = pre @ bs'"
    and "payload_decode (tx_type tx) bs' = Ok (special_transaction_payload tx, rest)"
    and "decoded_as (emit_int v @ emit_int (to_u16 t) @ emit_u8 0 @ pre) tx bs'"
proof -
  from assms(1) obtain ins0 ins outp bs0 where
    bs0: "bs = emit_u8 1 @ vec_encode txin_encode ins0 @ vec_encode txout_encode outp @
      concat (map (\<lambda>i. witness_encode (in_witness i)) ins) @ bs0"
    and i0: "vec_wf txin_bare ins0" and o: "vec_wf txout_ok outp"
    and i: "map bare_input ins = map bare_input ins0" "list_all (\<lambda>i. witness_ok (in_witness i)) ins"
    and ne: "ins = [] \<or> \<not> list_all (\<lambda>i. wit_is_empty (in_witness i)) ins"
    and tail: "tail_decode v t ins outp bs0 = Ok (tx, rest)"
    unfolding segwit_decode_def
    by (auto simp: dbind_Ok_iff c_u8.decode_iff c_txouts.decode_iff c_txins.decode_iff dfail_Ok_iff
      split: if_splits dest!: decode_witnesses_Ok)
  from tail obtain lt bs' p where lt: "bs0 = emit_int lt @ bs'" and p: "payload_decode t bs' = Ok (p, rest)"
    and tx: "tx = \<lparr>tx_version = v, lock_time = lt, tx_input = ins, tx_output = outp, special_transaction_payload = p\<rparr>"
    unfolding tail_decode_def by (elim dbind_OkE) (auto simp: c_u32.decode_iff dret_Ok_iff)
  have ty: "tx_type tx = t" using payload_decoded(1) [OF p] by (simp add: tx_type_def tx)
  have w: "have_witness tx" using s ty ne by (auto simp: have_witness_def tx list_ex_iff list_all_iff)
  note m = map_bare_input [OF i(1) i0 [THEN conjunct1]]
  show ?thesis
  proof (rule that)
    show "bs = (emit_u8 1 @ vec_encode txin_encode ins0 @ vec_encode txout_encode outp @
      concat (map (\<lambda>i. witness_encode (in_witness i)) ins) @ emit_int lt) @ bs'" by (simp add: bs0 lt)
    show "payload_decode (tx_type tx) bs' = Ok (special_transaction_payload tx, rest)" by (simp add: ty p) (simp add: tx)
    with w ty t o m i(2) i0 show "decoded_as (emit_int v @ emit_int (to_u16 t) @ emit_u8 0 @
        emit_u8 1 @ vec_encode txin_encode ins0 @ vec_encode txout_encode outp @
        concat (map (\<lambda>i. witness_encode (in_witness i)) ins) @ emit_int lt) tx bs'"
      unfolding decoded_as_def by (auto simp: tx_encode_def tx split: sum.splits)
  qed
qed

lemma tx_decode_Ok:
  assumes "tx_decode bs = Ok (tx, rest)"
  obtains pre bs' where "bs = pre @ bs'"
    and "payload_decode (tx_type tx) bs' = Ok (special_transaction_payload tx, rest)" and "decoded_as pre tx bs'"
proof -
  from assms obtain v t inp bs1 where bs: "bs = emit_int v @ emit_int (to_u16 t) @ vec_encode txin_encode inp @ bs1"
    and t: "type_ok v t" and inp: "vec_wf txin_bare inp"
    and r: "(if inp = [] \<and> \<not> never_segwit t then segwit_decode v t else plain_decode v t inp) bs1 = Ok (tx, rest)"
    unfolding tx_decode_def
    by (elim dbind_OkE) (auto simp only: c_u16.decode_iff c_tx_type.decode_iff c_txins.decode_iff append_assoc)
  show ?thesis
  proof (cases "inp = [] \<and> \<not> never_segwit t")
    case True
    with r have "segwit_decode v t bs1 = Ok (tx, rest)" by simp
    from segwit_decode_Ok [OF this t] True obtain pre bs' where "bs1 = pre @ bs'"
      "payload_decode (tx_type tx) bs' = Ok (special_transaction_payload tx, rest)"
      "decoded_as (emit_int v @ emit_int (to_u16 t) @ emit_u8 0 @ pre) tx bs'" by blast
    with True bs show ?thesis by (intro that) (simp_all add: emit_zero)
  next
    case False
    with r have "plain_decode v t inp bs1 = Ok (tx, rest)" by (simp only: if_False)
    from plain_decode_Ok [OF this t inp] False obtain pre bs' where "bs1 = pre @ bs'"
      "payload_decode (tx_type tx) bs' = Ok (special_transaction_payload tx, rest)"
      "decoded_as (emit_int v @ emit_int (to_u16 t) @ vec_encode txin_encode inp @ pre) tx bs'" by blast
    with bs show ?thesis by (intro that) simp_all
  qed
qed

lemma payload_section_Ok:
  assumes "\<forall>p. special_transaction_payload tx = Some p \<longrightarrow> (\<exists>enc. payload_encode p = Ok enc)"
  shows "\<exists>sec. payload_section tx = Ok sec"
proof (cases "special_transaction_payload tx")
  case None
  then show ?thesis by (simp add: payload_section_def)
next
  case (Some p)
  with assms show ?thesis by (auto simp: payload_section_Some)
qed

lemma no_payload_section:
  assumes "payload_decode (tx_type tx) bs = Ok (special_transaction_payload tx, rest)" and "payload_section tx = Ok sec"
    and "\<forall>p. special_transaction_payload tx = Some p \<longrightarrow> is_raw p"
  shows "bs = sec @ rest"
proof (cases "special_transaction_payload tx")
  case None
  with assms show ?thesis
    by (simp add: payload_section_def tx_type_def from_optional_payload_def payload_decode_def dbind_dret dret_Ok_iff)
next
  case (Some p)
  with assms(3) obtain raw where "p = ClassicalWithNonStandardVersionTypeBytesPayloadType raw" by (cases p) auto
  with Some assms(1,2) show ?thesis
    by (simp add: payload_section_Some tx_type_def from_optional_payload_def payload_decode_def dbind_dret dret_Ok_iff)
qed

section \<open>Ids identify transactions\<close>

definition bare_tx :: "transaction \<Rightarrow> transaction" where
  "bare_tx tx = tx\<lparr>tx_input := map bare_input (tx_input tx)\<rparr>"

lemma payload_section_cong:
  "special_transaction_payload a = special_transaction_payload b \<Longrightarrow> payload_section a = payload_section b"
  by (simp only: payload_section_def)

lemma txid_bytes_bare [simp]: "txid_bytes (bare_tx tx) = txid_bytes tx"
proof -
  have "payload_section (bare_tx tx) = payload_section tx" by (rule payload_section_cong) (simp add: bare_tx_def)
  moreover have "tx_type (bare_tx tx) = tx_type tx" "tx_version (bare_tx tx) = tx_version tx"
    "tx_output (bare_tx tx) = tx_output tx" "lock_time (bare_tx tx) = lock_time tx"
    "vec_encode txin_encode (tx_input (bare_tx tx)) = vec_encode txin_encode (tx_input tx)"
    by (simp_all add: bare_tx_def tx_type_def vec_encode_def comp_def)
  ultimately show ?thesis unfolding txid_bytes_def by (simp only:)
qed

lemma txid_bytes_encode: "\<not> have_witness tx \<Longrightarrow> tx_encode tx = Ok bs \<Longrightarrow> txid_bytes tx = Some bs"
  by (auto simp: txid_bytes_def tx_encode_def Let_def split: sum.splits)

lemma txid_bytes_Some: "tx_ok tx \<Longrightarrow> \<exists>bs. txid_bytes tx = Some bs"
  by (rule read_payload_section [of tx]) (simp_all add: tx_ok_def txid_bytes_def)

lemma txid_bytes_inject:
  assumes a: "tx_ok a" and b: "tx_ok b" and e: "txid_bytes a = txid_bytes b"
  shows "bare_tx a = bare_tx b"
proof -
  obtain sa where sa: "payload_section a = Ok sa"
    and da: "\<And>rest. payload_decode (tx_type a) (sa @ rest) = Ok (special_transaction_payload a, rest)"
    using a read_payload_section [of a] by (auto simp: tx_ok_def)
  obtain sb where sb: "payload_section b = Ok sb"
    and db: "\<And>rest. payload_decode (tx_type b) (sb @ rest) = Ok (special_transaction_payload b, rest)"
    using b read_payload_section [of b] by (auto simp: tx_ok_def)
  have ins: "vec_encode txin_encode (tx_input x) = vec_encode txin_encode (map bare_input (tx_input x))" for x
    by (simp add: vec_encode_def comp_def)
  have bytes: "emit_int (tx_version a) @ emit_int (to_u16 (tx_type a)) @ vec_encode txin_encode (map bare_input (tx_input a)) @
      vec_encode txout_encode (tx_output a) @ emit_int (lock_time a) @ sa =
    emit_int (tx_version b) @ emit_int (to_u16 (tx_type b)) @ vec_encode txin_encode (map bare_input (tx_input b)) @
      vec_encode txout_encode (tx_output b) @ emit_int (lock_time b) @ sb"
    using e by (simp add: txid_bytes_def sa sb ins)
  from c_u16.prefix_free [OF TrueI TrueI this] have v: "tx_version a = tx_version b" and
    r1: "emit_int (to_u16 (tx_type a)) @ vec_encode txin_encode (map bare_input (tx_input a)) @
      vec_encode txout_encode (tx_output a) @ emit_int (lock_time a) @ sa =
    emit_int (to_u16 (tx_type b)) @ vec_encode txin_encode (map bare_input (tx_input b)) @
      vec_encode txout_encode (tx_output b) @ emit_int (lock_time b) @ sb" by simp_all
  have "type_ok (tx_version a) (tx_type a)" "type_ok (tx_version a) (tx_type b)" using a b v by (simp_all add: tx_ok_def)
  from c_tx_type.prefix_free [OF this r1] have t: "tx_type a = tx_type b" and
    r2: "vec_encode txin_encode (map bare_input (tx_input a)) @ vec_encode txout_encode (tx_output a) @ emit_int (lock_time a) @ sa =
    vec_encode txin_encode (map bare_input (tx_input b)) @ vec_encode txout_encode (tx_output b) @ emit_int (lock_time b) @ sb"
    by simp_all
  have "vec_wf txin_bare (map bare_input (tx_input a))" "vec_wf txin_bare (map bare_input (tx_input b))"
    using a b by (simp_all add: tx_ok_def list_all_iff)
  from c_txins.prefix_free [OF this r2] have i: "map bare_input (tx_input a) = map bare_input (tx_input b)" and
    r3: "vec_encode txout_encode (tx_output a) @ emit_int (lock_time a) @ sa = vec_encode txout_encode (tx_output b) @ emit_int (lock_time b) @ sb"
    by simp_all
  have "vec_wf txout_ok (tx_output a)" "vec_wf txout_ok (tx_output b)" using a b by (simp_all add: tx_ok_def)
  from c_txouts.prefix_free [OF this r3] have o: "tx_output a = tx_output b" and
    r4: "emit_int (lock_time a) @ sa = emit_int (lock_time b) @ sb" by simp_all
  from c_u32.prefix_free [OF TrueI TrueI r4] have l: "lock_time a = lock_time b" and s: "sa = sb" by simp_all
  have "special_transaction_payload a = special_transaction_payload b" using da [of "[]"] db [of "[]"] t s by simp
  with v i o l show ?thesis by (simp add: bare_tx_def)
qed

section \<open>Sizes\<close>

lemma serialized_len_ok: "witness_ok w \<Longrightarrow> serialized_len w = Some (length (witness_encode w))"
  unfolding witness_ok_def
  by (elim exE conjE, rule_tac s = "witness_of ws" in ssubst, assumption)
    (simp add: serialized_len_def to_vec_list fits_def MAX_VEC_SIZE_def witness_encode_list length_body varint_len_encode
      add.commute, simp add: witness_of_def)

lemma input_weights_eq:
  assumes "list_all (\<lambda>i. witness_ok (in_witness i)) ins"
  shows "input_weights k ins (w, n) =
    Some (w + k * sum_list (map bare_input_size ins) +
      sum_list (map (\<lambda>i. length (witness_encode (in_witness i))) (filter (\<lambda>i. \<not> wit_is_empty (in_witness i)) ins)),
      n + length (filter (\<lambda>i. \<not> wit_is_empty (in_witness i)) ins))"
  using assms
  by (induction ins arbitrary: w n) (simp_all add: serialized_len_ok Let_def algebra_simps)

lemma length_txin_encode: "txin_ok i \<Longrightarrow> length (txin_encode i) = bare_input_size i"
  by (simp add: txin_encode_def bare_input_size_def txin_ok_def outpoint_ok_def outpoint_encode_def array_encode_def)

lemma length_vec_txin:
  "list_all txin_ok ins \<Longrightarrow>
     length (vec_encode txin_encode ins) = varint_len (word_of_nat (length ins)) + sum_list (map bare_input_size ins)"
  by (simp add: vec_encode_def varint_len_encode length_concat comp_def length_txin_encode list_all_iff cong: map_cong)

lemma length_empty_witness: "witness_ok w \<Longrightarrow> wit_is_empty w \<Longrightarrow> length (witness_encode w) = 1"
  by (drule (1) witness_empty) (simp add: witness_default_of witness_encode_list varint_encode_def)

lemma length_witnesses:
  assumes "list_all (\<lambda>i. witness_ok (in_witness i)) ins"
  shows "length (concat (map (\<lambda>i. witness_encode (in_witness i)) ins)) + length (filter (\<lambda>i. \<not> wit_is_empty (in_witness i)) ins) =
    sum_list (map (\<lambda>i. length (witness_encode (in_witness i))) (filter (\<lambda>i. \<not> wit_is_empty (in_witness i)) ins)) + length ins"
  using assms by (induction ins) (auto simp: length_empty_witness)

lemma non_input_size_eq:
  "non_input_size tx = 4 + varint_len (word_of_nat (length (tx_input tx))) + length (vec_encode txout_encode (tx_output tx)) + 4 +
     special_transaction_len tx"
proof -
  have "txout_size = (\<lambda>t. 8 + varint_len (word_of_nat (length (script_pubkey t))) + length (script_pubkey t))"
    by (rule ext) (simp add: txout_size_def)
  then show ?thesis by (simp add: non_input_size_def length_vec_txout)
qed

text \<open>What the announced size leaves out.\<close>

definition missing_bytes :: "transaction \<Rightarrow> nat" where
  "missing_bytes tx =
     (if have_witness tx \<and> tx_input tx = [] then 2 else 0) +
     (case special_transaction_payload tx of
        None \<Rightarrow> 0
      | Some p \<Rightarrow>
          if is_raw p then 0
          else registration_platform_bytes p + varint_len (word_of_nat (payload_len p + registration_platform_bytes p - 1)) - 1)"

lemma payload_section_size:
  assumes "\<forall>p. special_transaction_payload tx = Some p \<longrightarrow> payload_ok p" and "payload_section tx = Ok sec"
  shows "special_transaction_len tx + missing_bytes tx = length sec + (if have_witness tx \<and> tx_input tx = [] then 2 else 0)"
proof (cases "special_transaction_payload tx")
  case None
  with assms(2) show ?thesis by (simp add: special_transaction_len_def missing_bytes_def payload_section_def)
next
  case (Some p)
  show ?thesis
  proof (cases "is_raw p")
    case True
    with Some assms(2) have "payload_len p = 0" "sec = []" by (cases p; simp add: payload_section_Some)+
    with Some True show ?thesis by (simp add: special_transaction_len_def missing_bytes_def)
  next
    case False
    from assms(1) Some have ok: "payload_ok p" by simp
    obtain enc where enc: "payload_encode p = Ok enc" using payload_round_trip [OF ok] by metis
    have l: "payload_len p + registration_platform_bytes p = 1 + length enc" by (rule payload_size [OF ok enc False])
    moreover have "sec = consensus_encode_with_size enc" using assms(2) by (simp add: payload_section_Some [OF Some] False enc)
    moreover have "varint_len (word_of_nat (length enc)) \<ge> 1" by (simp add: varint_len_def)
    ultimately show ?thesis
      using Some False by (simp add: special_transaction_len_def missing_bytes_def)
  qed
qed

lemma witness_ok_default [simp]: "witness_ok witness_default"
  unfolding witness_ok_def witness_default_of by (rule exI [of _ "[]"]) simp

lemma size_round_trip:
  assumes ok: "tx_ok tx" and enc: "tx_encode tx = Ok bs"
  obtains n where "tx_size tx = Some n" and "n + missing_bytes tx = length bs"
proof -
  let ?ins = "tx_input tx" and ?ne = "filter (\<lambda>i. \<not> wit_is_empty (in_witness i)) (tx_input tx)"
  from enc obtain sec where sec: "payload_section tx = Ok sec" by (auto simp: tx_encode_def split: sum.splits)
  have special: "special_transaction_len tx + missing_bytes tx = length sec + (if have_witness tx \<and> ?ins = [] then 2 else 0)"
    using ok sec by (intro payload_section_size) (simp_all add: tx_ok_def)
  have w: "list_all (\<lambda>i. witness_ok (in_witness i)) ?ins"
    using ok by (auto simp: tx_ok_def list_all_iff split: if_splits)
  have ins: "length (vec_encode txin_encode ?ins) = varint_len (word_of_nat (length ?ins)) + sum_list (map bare_input_size ?ins)"
    using ok by (intro length_vec_txin) (simp add: tx_ok_def)
  note iw = input_weights_eq [OF w, of 1 0 0] and lw = length_witnesses [OF w]
  show ?thesis
  proof (cases "have_witness tx")
    case False
    then have "?ne = []" using ok by (auto simp: tx_ok_def list_all_iff filter_empty_conv)
    with False special ins iw enc sec show ?thesis
      by (intro that) (auto simp: tx_size_def scaled_size_def tx_encode_def non_input_size_eq)
  next
    case True
    let ?w = "sum_list (map (\<lambda>i. length (witness_encode (in_witness i))) ?ne)"
    let ?n = "non_input_size tx + (sum_list (map bare_input_size ?ins) + ?w)"
    from True have ne: "?ne = [] \<longleftrightarrow> ?ins = []"
      by (auto simp: have_witness_def list_ex_iff filter_empty_conv split: if_splits)
    have le: "length ?ne \<le> length ?ins" by (rule length_filter_le)
    have len: "length bs = 10 + length (vec_encode txin_encode ?ins) + length (vec_encode txout_encode (tx_output tx)) +
        length (concat (map (\<lambda>i. witness_encode (in_witness i)) ?ins)) + length sec"
      using enc True sec by (auto simp: tx_encode_def)
    have "tx_size tx = Some (if ?ins = [] then ?n else ?n + length ?ins - length ?ne + 2)"
      using iw ne by (simp add: tx_size_def scaled_size_def)
    then show ?thesis
      by (rule that) (use special len lw le ins True in \<open>simp add: non_input_size_eq split: if_splits\<close>)
  qed
qed

section \<open>Predicted weights\<close>

definition elem_size :: "nat \<Rightarrow> nat" where
  "elem_size n = n + varint_len (word_of_nat n)"

lemma prediction_new_eq:
  "prediction_new n ls =
     \<lparr>script_size = elem_size n,
      witness_size = (if ls = [] then 0 else sum_list (map elem_size ls) + varint_len (word_of_nat (length ls)))\<rparr>"
proof -
  have "fold (\<lambda>elem_len (count, total_size). let elem_size = elem_len + varint_len (word_of_nat elem_len) in (count + 1, total_size + elem_size))
      ls (c, t) = (c + length ls, t + sum_list (map elem_size ls))" for c t
    by (induction ls arbitrary: c t) (simp_all add: elem_size_def)
  then show ?thesis by (simp add: prediction_new_def elem_size_def [of n])
qed

lemma predict_weight_eq:
  "predict_weight ps outs =
     predict_weight_internal (length ps) (sum_list (map (\<lambda>p. script_size p * 4 + witness_size p) ps))
       (length (filter (\<lambda>p. witness_size p > 0) ps)) (length outs) (sum_list (map elem_size outs))"
proof -
  have "fold (\<lambda>prediction (count, partial_input_weight, inputs_with_witnesses).
          (count + 1, partial_input_weight + script_size prediction * 4 + witness_size prediction,
           inputs_with_witnesses + (if witness_size prediction > 0 then 1 else 0))) ps (c, w, n) =
      (c + length ps, w + sum_list (map (\<lambda>p. script_size p * 4 + witness_size p) ps),
       n + length (filter (\<lambda>p. witness_size p > 0) ps))" for c w n
    by (induction ps arbitrary: c w n) simp_all
  moreover have "fold (\<lambda>script_len (output_count, total_scripts_size).
          let script_size = script_len + varint_len (word_of_nat script_len) in
          (output_count + 1, total_scripts_size + script_size)) outs (c, t) =
      (c + length outs, t + sum_list (map elem_size outs))" for c t
    by (induction outs arbitrary: c t) (simp_all add: elem_size_def)
  ultimately show ?thesis by (simp add: predict_weight_def)
qed

text \<open>The prediction for an input, from the lengths of its script and of its witness elements.\<close>

definition prediction_of :: "txin \<Rightarrow> input_weight_prediction" where
  "prediction_of i = prediction_new (length (script_sig i)) (map length (the (to_vec (in_witness i))))"

lemma prediction_of_eq:
  assumes "witness_ok (in_witness i)"
  shows "script_size (prediction_of i) = bare_input_size i - 40"
    and "witness_size (prediction_of i) =
      (if wit_is_empty (in_witness i) then 0 else length (witness_encode (in_witness i)))"
proof -
  from assms obtain ws where ws: "in_witness i = witness_of ws" "fits ws"
    by (auto simp: witness_ok_def fits_def MAX_VEC_SIZE_def)
  then have v: "to_vec (witness_of ws) = Some ws" by (simp add: to_vec_list)
  have e: "wit_is_empty (in_witness i) \<longleftrightarrow> ws = []" by (simp add: ws wit_is_empty_def witness_of_def)
  show "script_size (prediction_of i) = bare_input_size i - 40"
    by (simp add: prediction_of_def prediction_new_eq elem_size_def bare_input_size_def)
  show "witness_size (prediction_of i) = (if wit_is_empty (in_witness i) then 0 else length (witness_encode (in_witness i)))"
    unfolding prediction_of_def prediction_new_eq ws(1) v
    by (simp add: e [unfolded ws(1)] elem_size_def [abs_def] witness_encode_list length_body varint_len_encode comp_def)
qed

lemma predicted:
  assumes ok: "tx_ok tx" and none: "special_transaction_len tx = 0"
  shows "tx_weight tx = Some (predict_weight (map prediction_of (tx_input tx)) (map (\<lambda>t. length (script_pubkey t)) (tx_output tx)))"
proof -
  let ?ins = "tx_input tx" and ?ne = "filter (\<lambda>i. \<not> wit_is_empty (in_witness i)) (tx_input tx)"
  have w: "list_all (\<lambda>i. witness_ok (in_witness i)) ?ins"
    using ok by (auto simp: tx_ok_def list_all_iff split: if_splits)
  have b: "bare_input_size i = 40 + elem_size (length (script_sig i))" for i
    by (simp add: bare_input_size_def elem_size_def)
  have pos: "witness_encode x \<noteq> []" for x
    by (simp add: witness_encode_def varint_encode_def emit_u8_def)
  have sums: "sum_list (map (\<lambda>p. script_size p * 4 + witness_size p) (map prediction_of ins)) + length ins * 4 * 40 =
      4 * sum_list (map bare_input_size ins) +
      sum_list (map (\<lambda>i. length (witness_encode (in_witness i))) (filter (\<lambda>i. \<not> wit_is_empty (in_witness i)) ins)) \<and>
      length (filter (\<lambda>p. witness_size p > 0) (map prediction_of ins)) = length (filter (\<lambda>i. \<not> wit_is_empty (in_witness i)) ins)"
    if "list_all (\<lambda>i. witness_ok (in_witness i)) ins" for ins
    using that by (induction ins) (auto simp: prediction_of_eq pos b)
  have outs: "length (vec_encode txout_encode (tx_output tx)) = varint_len (word_of_nat (length (tx_output tx))) +
      (8 * length (tx_output tx) + sum_list (map elem_size (map (\<lambda>t. length (script_pubkey t)) (tx_output tx))))"
  proof -
    have "sum_list (map txout_size ts) = 8 * length ts + sum_list (map elem_size (map (\<lambda>t. length (script_pubkey t)) ts))" for ts
      by (induction ts) (simp_all add: txout_size_def elem_size_def)
    then show ?thesis by (simp only: length_vec_txout)
  qed
  show ?thesis
    unfolding predict_weight_eq predict_weight_internal_def tx_weight_def scaled_size_def WITNESS_SCALE_FACTOR_def
      input_weights_eq [OF w] non_input_size_eq none outs
    using sums [OF w] by (simp add: algebra_simps)
qed

section \<open>Properties\<close>

text \<open>
  C23: a transaction is encoded without error and decodes to itself, consuming nothing of what
  follows.
\<close>

theorem tx_round_trip_exact:
  assumes "tx_ok tx"
  shows "\<exists>bs. tx_encode tx = Ok bs \<and> (\<forall>rest. tx_decode (bs @ rest) = Ok (tx, rest))"
  using tx_round_trip [OF assms] by metis

definition sample_tx :: transaction where
  "sample_tx =
     \<lparr>tx_version = 2, lock_time = 7,
      tx_input = [txin_default\<lparr>in_witness := witness_of [[1, 2], []]\<rparr>, txin_default],
      tx_output = [\<lparr>txo_value = 5, script_pubkey = [0x6A]\<rparr>], special_transaction_payload = None\<rparr>"

lemma sample_tx_ok: "tx_ok sample_tx" "have_witness sample_tx"
proof -
  show w: "have_witness sample_tx"
    by (simp add: sample_tx_def have_witness_def tx_type_def from_optional_payload_def never_segwit_def
      wit_is_empty_def witness_of_def)
  have "witness_ok (witness_of [[1, 2], []])"
    unfolding witness_ok_def
    by (rule exI [of _ "[[1, 2], []]"]) (simp add: MAX_VEC_SIZE_def elem_bytes_def varint_encode_def emit_u8_def)
  with w show "tx_ok sample_tx"
    unfolding tx_ok_def by (simp add: sample_tx_def tx_type_def from_optional_payload_def type_ok_def txin_ok_def
      outpoint_ok_def txin_default_def outpoint_null_def txout_ok_def)
qed

theorem tx_round_trip_exact_witness:
  "\<exists>bs. tx_encode sample_tx = Ok bs \<and> tx_decode (bs @ [9]) = Ok (sample_tx, [9])"
  using tx_round_trip_exact [OF sample_tx_ok(1)] by metis

text \<open>
  C24: a transaction that was decoded can be encoded again and has an id, so that computing the id of a
  received transaction never panics; its type fits its version; and without a payload section it is
  encoded as the bytes it was decoded from.
\<close>

theorem tx_decode_exact:
  assumes "tx_decode bs = Ok (tx, rest)"
  shows "type_ok (tx_version tx) (tx_type tx) \<and> (\<exists>i. txid H tx = Some i) \<and>
    (\<exists>enc. tx_encode tx = Ok enc \<and>
      ((\<forall>p. special_transaction_payload tx = Some p \<longrightarrow> is_raw p) \<longrightarrow> bs = enc @ rest))"
proof -
  obtain pre bs' where bs: "bs = pre @ bs'"
    and p: "payload_decode (tx_type tx) bs' = Ok (special_transaction_payload tx, rest)" and d: "decoded_as pre tx bs'"
    using tx_decode_Ok [OF assms] by blast
  obtain sec where sec: "payload_section tx = Ok sec"
    using payload_section_Ok [of tx] payload_decoded(2) [OF p] by blast
  have "txid_bytes tx \<noteq> None" by (simp add: txid_bytes_def sec)
  then have "\<exists>i. txid H tx = Some i" by (auto simp: txid_def)
  moreover have "tx_encode tx = Ok (pre @ sec)" using d sec by (simp add: decoded_as_def)
  moreover have "bs = (pre @ sec) @ rest" if "\<forall>p. special_transaction_payload tx = Some p \<longrightarrow> is_raw p"
    using no_payload_section [OF p sec that] bs by simp
  moreover have "type_ok (tx_version tx) (tx_type tx)" using d by (simp add: decoded_as_def)
  ultimately show ?thesis by auto
qed

theorem tx_decode_exact_witness:
  "\<exists>bs. tx_decode bs = Ok (sample_tx, []) \<and> tx_encode sample_tx = Ok bs \<and>
     (\<exists>i. txid (\<lambda>b. take 32 b) sample_tx = Some i)"
proof -
  obtain bs where "tx_encode sample_tx = Ok bs" and d: "tx_decode (bs @ []) = Ok (sample_tx, [])"
    using tx_round_trip [OF sample_tx_ok(1)] by blast
  with tx_decode_exact [OF d, of "\<lambda>b. take 32 b"] show ?thesis by auto
qed

text \<open>
  C25: the id of a transaction does not depend on its witnesses, it is the witness id if no witness
  section is written, and two transactions with one id agree in everything but their witnesses,
  unless their encodings collide under the hash function.
\<close>

theorem txid_unique:
  assumes "tx_ok a" and "tx_ok b"
  shows "txid H (bare_tx a) = txid H a \<and> (\<not> have_witness a \<longrightarrow> txid H a = wtxid H a) \<and>
    (txid H a = txid H b \<longrightarrow>
       bare_tx a = bare_tx b \<or> (\<exists>x y. txid_bytes a = Some x \<and> txid_bytes b = Some y \<and> x \<noteq> y \<and> H x = H y))"
proof (intro conjI impI)
  show "txid H (bare_tx a) = txid H a" by (simp add: txid_def)
  obtain bs where enc: "tx_encode a = Ok bs" using tx_round_trip [OF assms(1)] by blast
  show "txid H a = wtxid H a" if "\<not> have_witness a"
    using txid_bytes_encode [OF that enc] enc by (simp add: txid_def wtxid_def)
  assume e: "txid H a = txid H b"
  show "bare_tx a = bare_tx b \<or> (\<exists>x y. txid_bytes a = Some x \<and> txid_bytes b = Some y \<and> x \<noteq> y \<and> H x = H y)"
  proof (cases "txid_bytes a = txid_bytes b")
    case True
    then show ?thesis using txid_bytes_inject [OF assms] by blast
  next
    case False
    moreover obtain x y where "txid_bytes a = Some x" "txid_bytes b = Some y"
      using txid_bytes_Some assms by metis
    ultimately show ?thesis using e by (auto simp: txid_def)
  qed
qed

theorem txid_unique_witness:
  "txid (\<lambda>b. b) sample_tx \<noteq> txid (\<lambda>b. b) (sample_tx\<lparr>lock_time := 8\<rparr>) \<and>
   txid (\<lambda>b. b) (bare_tx sample_tx) = txid (\<lambda>b. b) sample_tx"
proof -
  have ok: "tx_ok (sample_tx\<lparr>lock_time := 8\<rparr>)"
  proof -
    have "have_witness (sample_tx\<lparr>lock_time := 8\<rparr>) = have_witness sample_tx"
      "tx_type (sample_tx\<lparr>lock_time := 8\<rparr>) = tx_type sample_tx" by (simp_all add: have_witness_def tx_type_def)
    then show ?thesis using sample_tx_ok(1) by (simp add: tx_ok_def)
  qed
  have "bare_tx sample_tx \<noteq> bare_tx (sample_tx\<lparr>lock_time := 8\<rparr>)" by (simp add: bare_tx_def sample_tx_def)
  with txid_unique [OF sample_tx_ok(1) ok, of "\<lambda>b. b"] show ?thesis by blast
qed

text \<open>
  C30: computing the size of a transaction never panics, and the size is the length of the encoding
  less what the size leaves out: the witness marker where it is written without inputs, the platform
  fields of a registration, and all but one byte of the length prefix of the payload.
\<close>

theorem tx_size_exact:
  assumes "tx_ok tx"
  shows "\<exists>n bs. tx_size tx = Some n \<and> tx_encode tx = Ok bs \<and> n + missing_bytes tx = length bs"
proof -
  obtain bs where enc: "tx_encode tx = Ok bs" using tx_round_trip [OF assms] by blast
  from size_round_trip [OF assms enc] enc show ?thesis by metis
qed

theorem tx_size_exact_witness:
  "\<exists>n bs. tx_size sample_tx = Some n \<and> tx_encode sample_tx = Ok bs \<and> n = length bs"
  using tx_size_exact [OF sample_tx_ok(1)] by (simp add: missing_bytes_def) (simp add: sample_tx_def)

text \<open>
  C31: the weight predicted from the lengths of scripts and witness elements is the weight of the
  transaction, for transactions without a payload.
\<close>

theorem predict_weight_exact:
  assumes "tx_ok tx" and "special_transaction_len tx = 0"
  shows "tx_weight tx =
    Some (predict_weight (map prediction_of (tx_input tx)) (map (\<lambda>t. length (script_pubkey t)) (tx_output tx)))"
  by (rule predicted [OF assms])

theorem predict_weight_exact_witness:
  "tx_weight sample_tx =
    Some (predict_weight (map prediction_of (tx_input sample_tx)) (map (\<lambda>t. length (script_pubkey t)) (tx_output sample_tx)))"
  by (rule predict_weight_exact [OF sample_tx_ok(1)]) (simp add: sample_tx_def special_transaction_len_def)

end
