(* ===== verification/Block.thy ===== *)
theory Block
  imports Transaction_Codec
begin

text \<open>
  Blocks, from \<open>src/dash/src/blockdata/block.rs\<close>: a header with transactions, the encoding, the
  Merkle root and the witness commitment, sizes and weight. The parameter \<open>HB\<close> is the hash
  function of block headers, \<open>H\<close> the double SHA-256 of everything else. \<open>None\<close> is a panic: an id
  of a transaction whose payload cannot be written, or a slice out of range.
\<close>

section \<open>Blocks\<close>

record block =
  b_header :: header
  txdata :: "transaction list"

fun encode_all :: "transaction list \<Rightarrow> (u8 list, enc_error) result" where
  "encode_all [] = Ok []"
| "encode_all (tx # txs) =
     (case tx_encode tx of
        Err e \<Rightarrow> Err e
      | Ok bs \<Rightarrow> (case encode_all txs of Err e \<Rightarrow> Err e | Ok bs' \<Rightarrow> Ok (bs @ bs')))"

definition block_encode :: "block \<Rightarrow> (u8 list, enc_error) result" where
  "block_encode b =
     (case encode_all (txdata b) of
        Err e \<Rightarrow> Err e
      | Ok bs \<Rightarrow> Ok (header_encode (b_header b) @ varint_encode (word_of_nat (length (txdata b))) @ bs))"

definition block_decode :: "block decoder" where
  "block_decode =
     dbind header_decode (\<lambda>h. dbind (vec_decode tx_decode) (\<lambda>txs. dret \<lparr>b_header = h, txdata = txs\<rparr>))"

definition block_hash_of :: "(u8 list \<Rightarrow> block_hash) \<Rightarrow> block \<Rightarrow> block_hash" where
  "block_hash_of HB b = block_hash HB (b_header b)"

text \<open>A block with its cached hash, from \<open>src/dash-spv/src/types.rs\<close>.\<close>

record hashed_block =
  hb_hash :: block_hash
  hb_block :: block

definition hashed_block_from :: "(u8 list \<Rightarrow> block_hash) \<Rightarrow> block \<Rightarrow> hashed_block" where
  "hashed_block_from HB b = \<lparr>hb_hash = block_hash_of HB b, hb_block = b\<rparr>"

section \<open>Merkle roots\<close>

definition compute_merkle_root :: "(u8 list \<Rightarrow> u8 list) \<Rightarrow> block \<Rightarrow> u8 list option option" where
  "compute_merkle_root H b = map_option (calculate_root (parent_hash H)) (those (map (txid H) (txdata b)))"

definition check_merkle_root :: "(u8 list \<Rightarrow> u8 list) \<Rightarrow> block \<Rightarrow> bool option" where
  "check_merkle_root H b =
     (case compute_merkle_root H b of
        None \<Rightarrow> None
      | Some (Some root) \<Rightarrow> Some (merkle_root (b_header b) = root)
      | Some None \<Rightarrow> Some False)"

definition witness_root :: "(u8 list \<Rightarrow> u8 list) \<Rightarrow> block \<Rightarrow> u8 list option option" where
  "witness_root H b =
     map_option (calculate_root (parent_hash H))
       (those (map (\<lambda>(i, t). if i = 0 then Some (replicate 32 0) else wtxid H t) (enumerate 0 (txdata b))))"

definition compute_witness_commitment :: "(u8 list \<Rightarrow> u8 list) \<Rightarrow> u8 list \<Rightarrow> u8 list \<Rightarrow> u8 list" where
  "compute_witness_commitment H root witness_reserved_value =
     H (array_encode root @ witness_reserved_value)"

definition COMMITMENT_MAGIC :: "u8 list" where
  "COMMITMENT_MAGIC = [0x6A, 0x24, 0xAA, 0x21, 0xA9, 0xED]"

definition is_commitment :: "txout \<Rightarrow> bool" where
  "is_commitment o' \<longleftrightarrow> length (script_pubkey o') \<ge> 38 \<and> take 6 (script_pubkey o') = COMMITMENT_MAGIC"

text \<open>\<open>rposition\<close>: the last output that satisfies the condition.\<close>

definition check_witness_commitment :: "(u8 list \<Rightarrow> u8 list) \<Rightarrow> block \<Rightarrow> bool option" where
  "check_witness_commitment H b =
     (if list_all (\<lambda>t. list_all (\<lambda>i. wit_is_empty (in_witness i)) (tx_input t)) (txdata b) then Some True
      else if txdata b = [] then Some False
      else
        let coinbase = txdata b ! 0 in
        if \<not> is_coin_base coinbase then Some False
        else
          case find is_commitment (rev (tx_output coinbase)) of
            None \<Rightarrow> Some False
          | Some o' \<Rightarrow>
              let commitment = take 32 (drop 6 (script_pubkey o')) in
              case to_vec (in_witness (tx_input coinbase ! 0)) of
                None \<Rightarrow> None
              | Some witness_vec \<Rightarrow>
                  if length witness_vec = 1 \<and> length (witness_vec ! 0) = 32 then
                    (case witness_root H b of
                       None \<Rightarrow> None
                     | Some None \<Rightarrow> Some False
                     | Some (Some root) \<Rightarrow> Some (commitment = compute_witness_commitment H root (witness_vec ! 0)))
                  else Some False)"

section \<open>Sizes\<close>

definition base_size :: "block \<Rightarrow> nat" where
  "base_size b = 80 + varint_len (word_of_nat (length (txdata b)))"

definition block_size :: "block \<Rightarrow> nat option" where
  "block_size b = map_option (\<lambda>sizes. base_size b + sum_list sizes) (those (map tx_size (txdata b)))"

definition block_strippedsize :: "block \<Rightarrow> nat" where
  "block_strippedsize b = base_size b + sum_list (map strippedsize (txdata b))"

definition from_non_witness_data_size :: "u64 \<Rightarrow> weight" where
  "from_non_witness_data_size n = n * 4"

definition block_weight :: "block \<Rightarrow> weight option" where
  "block_weight b =
     map_option (\<lambda>ws. from_non_witness_data_size (word_of_nat (base_size b)) + sum_list ws)
       (those (map tx_weight (txdata b)))"

section \<open>Blocks round trip\<close>

interpretation c_tx: codec "ok_bytes tx_encode" tx_decode tx_ok
proof
  fix tx rest
  assume "tx_ok tx"
  then obtain bs where "tx_encode tx = Ok bs" "tx_decode (bs @ rest) = Ok (tx, rest)"
    by (rule tx_round_trip) blast
  then show "tx_decode (ok_bytes tx_encode tx @ rest) = Ok (tx, rest)" by (simp add: ok_bytes_def)
qed

interpretation c_txs: codec "vec_encode (ok_bytes tx_encode)" "vec_decode tx_decode" "vec_wf tx_ok"
  by (rule c_tx.vec_codec)

lemma tx_encode_ok: "tx_ok tx \<Longrightarrow> tx_encode tx = Ok (ok_bytes tx_encode tx)"
  by (erule tx_round_trip) (simp add: ok_bytes_def)

lemma encode_all_ok: "list_all tx_ok txs \<Longrightarrow> encode_all txs = Ok (concat (map (ok_bytes tx_encode) txs))"
  by (induction txs) (simp_all add: tx_encode_ok)

definition block_ok :: "block \<Rightarrow> bool" where
  "block_ok b \<longleftrightarrow> header_valid (b_header b) \<and> vec_wf tx_ok (txdata b)"

lemma block_encode_ok:
  "block_ok b \<Longrightarrow> block_encode b = Ok (header_encode (b_header b) @ vec_encode (ok_bytes tx_encode) (txdata b))"
  by (simp add: block_encode_def block_ok_def encode_all_ok vec_encode_def)

interpretation c_block: codec "ok_bytes block_encode" block_decode block_ok
proof
  fix b rest
  assume "block_ok b"
  then show "block_decode (ok_bytes block_encode b @ rest) = Ok (b, rest)"
    by (simp add: ok_bytes_def [of block_encode] block_encode_ok)
      (simp add: block_ok_def block_decode_def c_header.bind_enc c_txs.bind_enc dret_Ok)
qed

section \<open>The header commits to the transactions\<close>

fun hash_pairs :: "'h list \<Rightarrow> ('h \<times> 'h) list" where
  "hash_pairs [] = []"
| "hash_pairs [h] = [(h, h)]"
| "hash_pairs (h1 # h2 # hs) = (h1, h2) # hash_pairs hs"

lemma pair_hashes_map: "pair_hashes ph hs = map (\<lambda>(a, b). ph a b) (hash_pairs hs)"
  by (induction hs rule: hash_pairs.induct) simp_all

lemma hash_pairs_inject: "length xs = length ys \<Longrightarrow> hash_pairs xs = hash_pairs ys \<Longrightarrow> xs = ys"
proof (induction xs arbitrary: ys rule: hash_pairs.induct)
  case (2 h)
  then show ?case by (cases ys) auto
next
  case (3 h1 h2 hs)
  then obtain a b zs where "ys = a # b # zs" by (cases ys; cases "tl ys") auto
  with 3 show ?case by auto
qed simp

text \<open>
  The pairs that are hashed on the way to the root, level by level below the top.
\<close>

definition level_pairs :: "('h \<Rightarrow> 'h \<Rightarrow> 'h) \<Rightarrow> 'h list \<Rightarrow> ('h \<times> 'h) set" where
  "level_pairs ph hs = (\<Union>k<tree_height (length hs) 0. set (hash_pairs (tree_level ph k hs)))"

lemma map_eq_cases:
  assumes "map f xs = map g ys"
  shows "xs = ys \<or> (\<exists>x\<in>set xs. \<exists>y\<in>set ys. x \<noteq> y \<and> f x = g y)"
  using assms
proof (induction xs arbitrary: ys)
  case (Cons x xs)
  then obtain y zs where "ys = y # zs" "f x = g y" "map f xs = map g zs" by (cases ys) auto
  with Cons.IH [of zs] show ?case by auto
qed simp

lemma levels_binding:
  assumes len: "length xs = length ys" and "tree_level ph k xs = tree_level ph k ys" and "k \<le> tree_height (length xs) 0"
  shows "xs = ys \<or> (\<exists>p\<in>level_pairs ph xs. \<exists>q\<in>level_pairs ph ys. p \<noteq> q \<and> case_prod ph p = case_prod ph q)"
  using assms(2,3)
proof (induction k)
  case 0
  then show ?case by (simp add: tree_level_def)
next
  case (Suc k)
  let ?a = "tree_level ph k xs" and ?b = "tree_level ph k ys"
  have "map (case_prod ph) (hash_pairs ?a) = map (case_prod ph) (hash_pairs ?b)"
    using Suc.prems(1) by (simp add: tree_level_Suc pair_hashes_map)
  from map_eq_cases [OF this] show ?case
  proof
    assume "hash_pairs ?a = hash_pairs ?b"
    then have "?a = ?b" by (rule hash_pairs_inject [rotated]) (simp add: len)
    then show ?thesis using Suc by simp
  next
    assume "\<exists>p\<in>set (hash_pairs ?a). \<exists>q\<in>set (hash_pairs ?b). p \<noteq> q \<and> case_prod ph p = case_prod ph q"
    then show ?thesis using Suc.prems(2) len by (force simp: level_pairs_def)
  qed
qed

lemma root_binding:
  assumes "length xs = length ys" and "calculate_root ph xs = calculate_root ph ys"
  shows "xs = ys \<or> (\<exists>p\<in>level_pairs ph xs. \<exists>q\<in>level_pairs ph ys. p \<noteq> q \<and> case_prod ph p = case_prod ph q)"
proof (cases "xs = []")
  case False
  let ?k = "tree_height (length xs) 0"
  have w: "tree_width (length xs) ?k = 1" using False by (intro tree_height_width) simp
  have "calculate_root ph zs = Some (tree_level ph ?k zs ! 0)" if "length zs = length xs" for zs
    using that False w calculate_root_hash [of zs ph] node_hash_level [of 0 zs ?k ph] by fastforce
  then have "tree_level ph ?k xs ! 0 = tree_level ph ?k ys ! 0" using assms by auto
  then have "tree_level ph ?k xs = tree_level ph ?k ys" using assms(1) w by (intro nth_equalityI) auto
  then show ?thesis using assms(1) by (intro levels_binding [of _ _ _ ?k]) simp_all
qed (use assms(1) in simp)

text \<open>Why the number of transactions is needed: repeating the last of an odd number changes nothing.\<close>

lemma pair_hashes_repeat: "odd (length hs) \<Longrightarrow> pair_hashes ph (hs @ [last hs]) = pair_hashes ph hs"
  by (induction ph hs rule: pair_hashes.induct) auto

lemma calculate_root_repeat:
  assumes "odd (length hs)" and "length hs \<noteq> 1"
  shows "calculate_root ph (hs @ [last hs]) = calculate_root ph hs"
proof -
  have c: "calculate_root ph xs = merkle_root_r ph (pair_hashes ph xs)" if "length xs \<ge> 2" for xs
    using that by (cases xs rule: remdups_adj.cases) (simp_all add: calculate_root_def)
  from assms have "length hs \<ge> 2" by (cases "length hs") (auto simp: Suc_le_eq)
  then show ?thesis using pair_hashes_repeat [OF assms(1)] by (simp add: c)
qed

text \<open>The byte strings that are hashed to compute the root of a block.\<close>

definition hashed_inputs :: "(u8 list \<Rightarrow> u8 list) \<Rightarrow> block \<Rightarrow> u8 list set" where
  "hashed_inputs H b =
     {x. \<exists>tx\<in>set (txdata b). txid_bytes tx = Some x} \<union>
     (\<lambda>(l, r). l @ r) ` level_pairs (parent_hash H) (map (\<lambda>tx. the (txid H tx)) (txdata b))"

lemma hash_pairs_set: "p \<in> set (hash_pairs hs) \<Longrightarrow> fst p \<in> set hs \<and> snd p \<in> set hs"
  by (induction hs rule: hash_pairs.induct) auto

lemma tree_level_length:
  assumes "\<forall>x. length (H x) = 32" and "\<forall>h\<in>set hs. length h = 32" and "h \<in> set (tree_level (parent_hash H) k hs)"
  shows "length h = (32::nat)"
  using assms(3)
proof (cases k)
  case 0
  with assms show ?thesis by (simp add: tree_level_def)
next
  case (Suc n)
  with assms show ?thesis by (auto simp: tree_level_Suc pair_hashes_map parent_hash_def)
qed

lemma level_pairs_length:
  assumes "\<forall>x. length (H x) = 32" and "\<forall>h\<in>set hs. length h = 32" and "p \<in> level_pairs (parent_hash H) hs"
  shows "length (fst p) = 32 \<and> length (snd p) = (32::nat)"
  using assms(3) tree_level_length [OF assms(1,2)] hash_pairs_set [of p] by (auto simp: level_pairs_def)

lemma txids_Some:
  assumes "list_all tx_ok txs"
  shows "those (map (txid H) txs) = Some (map (\<lambda>tx. the (txid H tx)) txs)"
  using assms
proof (induction txs)
  case (Cons tx txs)
  then obtain bs where "txid_bytes tx = Some bs" using txid_bytes_Some by auto
  with Cons show ?case by (simp add: txid_def)
qed simp

lemma txids_binding:
  assumes "list_all tx_ok as" and "list_all tx_ok bs" and "map (\<lambda>tx. the (txid H tx)) as = map (\<lambda>tx. the (txid H tx)) bs"
  shows "map bare_tx as = map bare_tx bs \<or>
    (\<exists>a\<in>set as. \<exists>b\<in>set bs. \<exists>x y. txid_bytes a = Some x \<and> txid_bytes b = Some y \<and> x \<noteq> y \<and> H x = H y)"
  using assms
proof (induction as arbitrary: bs)
  case (Cons a as)
  then obtain b bs' where bs: "bs = b # bs'" by (cases bs) auto
  obtain x y where xy: "txid_bytes a = Some x" "txid_bytes b = Some y"
    using Cons.prems bs txid_bytes_Some [of a] txid_bytes_Some [of b] by auto
  have h: "H x = H y" using Cons.prems(3) xy by (simp add: bs txid_def)
  show ?case
  proof (cases "x = y")
    case True
    then have "bare_tx a = bare_tx b" using Cons.prems bs xy by (intro txid_bytes_inject) auto
    moreover have "map bare_tx as = map bare_tx bs' \<or>
      (\<exists>a\<in>set as. \<exists>b\<in>set bs'. \<exists>x y. txid_bytes a = Some x \<and> txid_bytes b = Some y \<and> x \<noteq> y \<and> H x = H y)"
      using Cons.IH [of bs'] Cons.prems bs by simp
    ultimately show ?thesis unfolding bs by (metis (no_types, lifting) list.set_intros(2) list.simps(9))
  qed (use xy h bs in auto)
qed simp

text \<open>
  C21: the header of a block commits to its transactions. Two blocks with the same number of
  transactions whose Merkle root check succeeds against the same root hold the same transactions up
  to their witnesses, in the same order, or two different byte strings among those hashed for the
  two roots have the same hash.
\<close>

theorem block_header_commits:
  assumes "\<forall>x. length (H x) = 32" and "block_ok a" and "block_ok b"
    and "check_merkle_root H a = Some True" and "check_merkle_root H b = Some True"
    and "merkle_root (b_header a) = merkle_root (b_header b)" and "length (txdata a) = length (txdata b)"
  shows "map bare_tx (txdata a) = map bare_tx (txdata b) \<or>
    (\<exists>x\<in>hashed_inputs H a. \<exists>y\<in>hashed_inputs H b. x \<noteq> y \<and> H x = H y)"
proof -
  let ?ids = "\<lambda>b. map (\<lambda>tx. the (txid H tx)) (txdata b)"
  have ok: "list_all tx_ok (txdata a)" "list_all tx_ok (txdata b)" using assms(2,3) by (simp_all add: block_ok_def)
  have root: "calculate_root (parent_hash H) (?ids c) = Some (merkle_root (b_header c))"
    if "check_merkle_root H c = Some True" "list_all tx_ok (txdata c)" for c
    using that by (auto simp: check_merkle_root_def compute_merkle_root_def txids_Some split: option.splits)
  have len: "\<forall>h\<in>set (?ids c). length h = 32" if oks: "list_all tx_ok (txdata c)" for c
  proof
    fix h assume "h \<in> set (?ids c)"
    then obtain tx where tx: "tx \<in> set (txdata c)" "h = the (txid H tx)" by auto
    then obtain bs where "txid_bytes tx = Some bs" using oks txid_bytes_Some [of tx] by (auto simp: list_all_iff)
    then show "length h = 32" using tx assms(1) by (simp add: txid_def)
  qed
  have "?ids a = ?ids b \<or> (\<exists>p\<in>level_pairs (parent_hash H) (?ids a). \<exists>q\<in>level_pairs (parent_hash H) (?ids b).
      p \<noteq> q \<and> case_prod (parent_hash H) p = case_prod (parent_hash H) q)"
    using root [OF assms(4) ok(1)] root [OF assms(5) ok(2)] assms(6,7) by (intro root_binding) simp_all
  then show ?thesis
  proof
    assume "?ids a = ?ids b"
    from txids_binding [OF ok this] show ?thesis unfolding hashed_inputs_def by blast
  next
    assume "\<exists>p\<in>level_pairs (parent_hash H) (?ids a). \<exists>q\<in>level_pairs (parent_hash H) (?ids b).
      p \<noteq> q \<and> case_prod (parent_hash H) p = case_prod (parent_hash H) q"
    then obtain p q where pq: "p \<in> level_pairs (parent_hash H) (?ids a)" "q \<in> level_pairs (parent_hash H) (?ids b)"
      "p \<noteq> q" "case_prod (parent_hash H) p = case_prod (parent_hash H) q" by blast
    have "fst p @ snd p \<noteq> fst q @ snd q"
      using level_pairs_length [OF assms(1) len [OF ok(1)] pq(1)] level_pairs_length [OF assms(1) len [OF ok(2)] pq(2)] pq(3)
      by (auto simp: prod_eq_iff)
    moreover have "H (fst p @ snd p) = H (fst q @ snd q)"
      using pq(4) by (simp add: split_beta parent_hash_def array_encode_def)
    moreover have "fst p @ snd p \<in> hashed_inputs H a" "fst q @ snd q \<in> hashed_inputs H b"
      using pq(1,2) by (auto simp: hashed_inputs_def image_iff split_beta)
    ultimately show ?thesis by blast
  qed
qed

definition sample_hash :: "u8 list \<Rightarrow> u8 list" where
  "sample_hash bs = take 32 (bs @ replicate 32 0)"

definition sample_block :: block where
  "sample_block =
     \<lparr>b_header = \<lparr>h_version = Version 1, prev_blockhash = replicate 32 0,
        merkle_root = the (txid sample_hash sample_tx), h_time = 0, bits = CompactTarget 0, nonce = 0\<rparr>,
      txdata = [sample_tx]\<rparr>"

theorem block_header_commits_witness:
  "check_merkle_root sample_hash sample_block = Some True \<and>
   (map bare_tx (txdata sample_block) = map bare_tx (txdata sample_block) \<or>
    (\<exists>x\<in>hashed_inputs sample_hash sample_block. \<exists>y\<in>hashed_inputs sample_hash sample_block.
       x \<noteq> y \<and> sample_hash x = sample_hash y))"
proof -
  have h: "\<forall>x. length (sample_hash x) = 32" by (auto simp: sample_hash_def min_def)
  obtain i where i: "txid sample_hash sample_tx = Some i" "length i = 32"
    using txid_bytes_Some [OF sample_tx_ok(1)] h by (auto simp: txid_def)
  have ok: "block_ok sample_block"
    using sample_tx_ok(1) i by (simp add: block_ok_def sample_block_def header_valid_def)
  have c: "check_merkle_root sample_hash sample_block = Some True"
    using i by (simp add: check_merkle_root_def compute_merkle_root_def sample_block_def calculate_root_def)
  from block_header_commits [OF h ok ok c c refl refl] c show ?thesis by simp
qed

end
