(* ===== verification/Blocks_Pipeline.thy ===== *)
theory Blocks_Pipeline
  imports Download_Coordinator Chain_Types Block "HOL-Library.Multiset"
begin

text \<open>
  The pipeline that downloads the blocks the filters matched, from
  \<open>src/dash-spv/src/sync/blocks/pipeline.rs\<close>, over the download coordinator, and the sender of
  network requests of \<open>src/dash-spv/src/network/mod.rs\<close>. Every operation of the pipeline is a
  definition here. The invariant \<open>bp_inv\<close> ties the queue, the heights still awaited and the
  buffered blocks together; the lemmas say what each operation does to the blocks outstanding.

  The parameter \<open>HB\<close> is the hash function of block headers. A set of wallets is a set, since its
  order is never used; the set of pending heights is the list of its elements in increasing order.
\<close>

section \<open>Sending requests\<close>

text \<open>
  The messages the pipelines queue. The receiving end of the channel may go away at any time;
  \<open>rs_closed_after\<close> is the number of messages after which it does.
\<close>

datatype network_request =
    GetData "block_hash list"
  | GetCFilters u32 block_hash
  | GetHeaders "block_hash list"

record request_sender =
  rs_sent :: "network_request list"
  rs_closed_after :: "nat option"

definition send_message :: "network_request \<Rightarrow> request_sender \<Rightarrow> unit sync_result \<times> request_sender" where
  "send_message msg s =
     (case rs_closed_after s of
        Some n \<Rightarrow>
          if n \<le> length (rs_sent s) then (Err (NetworkError ''Protocol error: channel closed''), s)
          else (Ok (), s\<lparr>rs_sent := rs_sent s @ [msg]\<rparr>)
      | None \<Rightarrow> (Ok (), s\<lparr>rs_sent := rs_sent s @ [msg]\<rparr>))"

definition request_blocks :: "block_hash list \<Rightarrow> request_sender \<Rightarrow> unit sync_result \<times> request_sender" where
  "request_blocks hashes = send_message (GetData hashes)"

section \<open>The pipeline\<close>

type_synonym wallet_id = "u8 list"

record filter_match_key =
  fmk_height :: u32
  fmk_hash :: block_hash

definition MAX_CONCURRENT_BLOCK_DOWNLOADS :: nat where
  "MAX_CONCURRENT_BLOCK_DOWNLOADS = 20"

definition BLOCK_TIMEOUT :: duration where
  "BLOCK_TIMEOUT = 30000"

definition BLOCKS_PER_REQUEST :: nat where
  "BLOCKS_PER_REQUEST = 8"

record blocks_pipeline =
  bp_coordinator :: "block_hash coordinator"
  pending_heights :: "u32 list"
  downloaded :: "(u32, block) btree_map"
  hash_to_height :: "(block_hash, u32) hash_map"
  hash_to_wallets :: "(block_hash, wallet_id set) hash_map"

definition bset_insert :: "'a::linorder \<Rightarrow> 'a list \<Rightarrow> 'a list" where
  "bset_insert x xs = (if x \<in> set xs then xs else insort x xs)"

definition bp_new :: "instant \<Rightarrow> blocks_pipeline" where
  "bp_new now =
     \<lparr>bp_coordinator =
        dc_new (with_timeout BLOCK_TIMEOUT (with_max_concurrent MAX_CONCURRENT_BLOCK_DOWNLOADS default_config)) now,
      pending_heights = [], downloaded = [], hash_to_height = [], hash_to_wallets = []\<rparr>"

definition extend_wallets :: "block_hash \<Rightarrow> wallet_id set \<Rightarrow> blocks_pipeline \<Rightarrow> blocks_pipeline" where
  "extend_wallets hash wallets p =
     p\<lparr>hash_to_wallets :=
         hm_insert hash ((case hm_get (hash_to_wallets p) hash of None \<Rightarrow> {} | Some ws \<Rightarrow> ws) \<union> wallets)
           (hash_to_wallets p)\<rparr>"

definition bp_queue_one :: "filter_match_key \<times> wallet_id set \<Rightarrow> blocks_pipeline \<Rightarrow> blocks_pipeline" where
  "bp_queue_one kw p =
     (let (key, wallets) = kw;
          hash = fmk_hash key;
          already_tracked = (hm_contains (hash_to_height p) hash \<or> hm_contains (hash_to_wallets p) hash);
          p1 = (if already_tracked then p
                else p\<lparr>bp_coordinator := dc_enqueue [hash] (bp_coordinator p),
                       pending_heights := bset_insert (fmk_height key) (pending_heights p),
                       hash_to_height := hm_insert hash (fmk_height key) (hash_to_height p)\<rparr>) in
      extend_wallets hash wallets p1)"

definition bp_queue :: "(filter_match_key \<times> wallet_id set) list \<Rightarrow> blocks_pipeline \<Rightarrow> blocks_pipeline" where
  "bp_queue blocks p = fold bp_queue_one blocks p"

definition bp_is_complete :: "blocks_pipeline \<Rightarrow> bool" where
  "bp_is_complete p \<longleftrightarrow> dc_is_empty (bp_coordinator p) \<and> downloaded p = [] \<and> pending_heights p = []"

definition has_pending_requests :: "blocks_pipeline \<Rightarrow> bool" where
  "has_pending_requests p \<longleftrightarrow> dc_available_to_send (bp_coordinator p) > 0"

text \<open>The loop ends because every round takes at least one key from the queue.\<close>

function send_blocks_loop ::
  "instant \<Rightarrow> u64 \<Rightarrow> nat \<Rightarrow> blocks_pipeline \<Rightarrow> request_sender \<Rightarrow> nat sync_result \<times> blocks_pipeline \<times> request_sender"
where
  "send_blocks_loop now generation total_sent p s =
     (if dc_available_to_send (bp_coordinator p) > 0 then
        let count = min (dc_available_to_send (bp_coordinator p)) BLOCKS_PER_REQUEST;
            (hashes, c) = dc_take_pending count (bp_coordinator p) in
        if hashes = [] then (Ok total_sent, p\<lparr>bp_coordinator := c\<rparr>, s)
        else
          (case request_blocks hashes s of
             (Err e, s') \<Rightarrow> (Err e, p\<lparr>bp_coordinator := c\<rparr>, s')
           | (Ok _, s') \<Rightarrow>
               send_blocks_loop now generation (total_sent + length hashes)
                 (p\<lparr>bp_coordinator := dc_mark_sent_with_generation now hashes generation c\<rparr>) s')
      else (Ok total_sent, p, s))"
  by pat_completeness auto
termination
  by (relation "measure (\<lambda>(_, _, _, p, _). length (dc_pending (bp_coordinator p)))")
    (auto simp: dc_take_pending_def dc_available_to_send_def dc_mark_sent_with_generation_def BLOCKS_PER_REQUEST_def
      Let_def)

declare send_blocks_loop.simps [simp del]

definition send_pending_with_generation ::
  "instant \<Rightarrow> u64 \<Rightarrow> blocks_pipeline \<Rightarrow> request_sender \<Rightarrow> nat sync_result \<times> blocks_pipeline \<times> request_sender" where
  "send_pending_with_generation now generation p s = send_blocks_loop now generation 0 p s"

definition generation_for_hash :: "blocks_pipeline \<Rightarrow> block_hash \<Rightarrow> u64 option" where
  "generation_for_hash p hash = dc_generation_for (bp_coordinator p) hash"

definition receive_block ::
  "(u8 list \<Rightarrow> block_hash) \<Rightarrow> instant \<Rightarrow> block \<Rightarrow> blocks_pipeline \<Rightarrow> bool \<times> blocks_pipeline" where
  "receive_block HB now b p =
     (let hash = block_hash_of HB b; (was_requested, c) = dc_receive now hash (bp_coordinator p);
          p1 = p\<lparr>bp_coordinator := c\<rparr> in
      if \<not> was_requested then (False, p1)
      else
        (True,
         case hm_get (hash_to_height p1) hash of
           None \<Rightarrow> p1
         | Some height \<Rightarrow>
             p1\<lparr>hash_to_height := hm_remove hash (hash_to_height p1),
                pending_heights := remove1 height (pending_heights p1),
                downloaded := bt_insert height b (downloaded p1)\<rparr>))"

definition take_next_ordered_block ::
  "(u8 list \<Rightarrow> block_hash) \<Rightarrow> blocks_pipeline \<Rightarrow> (block \<times> u32 \<times> wallet_id set) option \<times> blocks_pipeline" where
  "take_next_ordered_block HB p =
     (case downloaded p of
        [] \<Rightarrow> (None, p)
      | (lowest_downloaded, b) # _ \<Rightarrow>
          if pending_heights p \<noteq> [] \<and> hd (pending_heights p) < lowest_downloaded then (None, p)
          else
            let wallets = (case hm_get (hash_to_wallets p) (block_hash_of HB b) of None \<Rightarrow> {} | Some ws \<Rightarrow> ws) in
            (Some (b, lowest_downloaded, wallets),
             p\<lparr>downloaded := bt_remove lowest_downloaded (downloaded p),
               hash_to_wallets := hm_remove (block_hash_of HB b) (hash_to_wallets p)\<rparr>))"

definition bp_add_from_storage ::
  "(u8 list \<Rightarrow> block_hash) \<Rightarrow> block \<Rightarrow> u32 \<Rightarrow> wallet_id set \<Rightarrow> blocks_pipeline \<Rightarrow> blocks_pipeline" where
  "bp_add_from_storage HB b height wallets p =
     (let p1 = extend_wallets (block_hash_of HB b) wallets p in
      p1\<lparr>downloaded := bt_insert height b (downloaded p1)\<rparr>)"

definition bp_handle_timeouts :: "instant \<Rightarrow> blocks_pipeline \<Rightarrow> blocks_pipeline" where
  "bp_handle_timeouts now p = p\<lparr>bp_coordinator := snd (dc_check_and_retry_timeouts now (bp_coordinator p))\<rparr>"

definition bp_requeue_in_flight :: "blocks_pipeline \<Rightarrow> blocks_pipeline" where
  "bp_requeue_in_flight p = p\<lparr>bp_coordinator := dc_requeue_in_flight (bp_coordinator p)\<rparr>"

section \<open>Invariant\<close>

text \<open>
  The blocks outstanding: those still to be downloaded and those downloaded but not yet handed
  out, each with its height.
\<close>

definition bp_outstanding :: "(u8 list \<Rightarrow> block_hash) \<Rightarrow> blocks_pipeline \<Rightarrow> (block_hash \<times> u32) list" where
  "bp_outstanding HB p = hash_to_height p @ map (\<lambda>(h, b). (block_hash_of HB b, h)) (downloaded p)"

text \<open>
  Exactly the hashes without a block are wanted from the network, exactly their heights are
  pending, hashes and heights are unique, and the wallets recorded for a hash are \<open>W hash\<close>.
\<close>

definition bp_inv :: "(u8 list \<Rightarrow> block_hash) \<Rightarrow> (block_hash \<Rightarrow> wallet_id set) \<Rightarrow> blocks_pipeline \<Rightarrow> bool" where
  "bp_inv HB W p \<longleftrightarrow>
     dc_exact (bp_coordinator p) \<and> 0 < max_concurrent (dc_config (bp_coordinator p)) \<and>
     dc_wanted (bp_coordinator p) = fst ` set (hash_to_height p) \<and>
     distinct (map fst (bp_outstanding HB p)) \<and> distinct (map snd (bp_outstanding HB p)) \<and>
     sorted (pending_heights p) \<and> distinct (pending_heights p) \<and>
     set (pending_heights p) = snd ` set (hash_to_height p) \<and> bt_ok (downloaded p) \<and> hm_ok (hash_to_wallets p) \<and>
     (\<forall>hash. hm_get (hash_to_wallets p) hash =
       (if hash \<in> fst ` set (bp_outstanding HB p) then Some (W hash) else None))"

lemma bp_invD:
  assumes "bp_inv HB W p"
  shows "dc_exact (bp_coordinator p)" "0 < max_concurrent (dc_config (bp_coordinator p))"
    "dc_wanted (bp_coordinator p) = fst ` set (hash_to_height p)"
    "distinct (map fst (bp_outstanding HB p))" "distinct (map snd (bp_outstanding HB p))"
    "sorted (pending_heights p)" "distinct (pending_heights p)"
    "set (pending_heights p) = snd ` set (hash_to_height p)" "bt_ok (downloaded p)" "hm_ok (hash_to_wallets p)"
    "hm_get (hash_to_wallets p) hash = (if hash \<in> fst ` set (bp_outstanding HB p) then Some (W hash) else None)"
  using assms by (simp_all add: bp_inv_def)

lemma bp_inv_new: "bp_inv HB W (bp_new now)" "bp_is_complete (bp_new now)"
  by (simp_all add: bp_inv_def bp_new_def bp_outstanding_def bp_is_complete_def dc_exact_def dc_inv_def dc_new_def
      dc_wanted_def dc_is_empty_def with_timeout_def with_max_concurrent_def MAX_CONCURRENT_BLOCK_DOWNLOADS_def
      bt_ok_def)

lemma bp_complete_iff: "bp_inv HB W p \<Longrightarrow> bp_is_complete p \<longleftrightarrow> bp_outstanding HB p = []"
proof -
  assume "bp_inv HB W p"
  then have "dc_is_empty (bp_coordinator p) \<longleftrightarrow> hash_to_height p = []" "pending_heights p = [] \<longleftrightarrow> hash_to_height p = []"
    using bp_invD(3,8) [of HB W p]
    by (auto simp: dc_is_empty_def dc_wanted_def)
  then show ?thesis by (auto simp: bp_is_complete_def bp_outstanding_def)
qed

text \<open>The coordinator may be replaced by one that wants the same hashes.\<close>

lemma bp_inv_coordinator:
  assumes "bp_inv HB W p" and "dc_exact c" and "dc_wanted c = dc_wanted (bp_coordinator p)"
    and "dc_config c = dc_config (bp_coordinator p)"
  shows "bp_inv HB W (p\<lparr>bp_coordinator := c\<rparr>)"
  using assms by (simp add: bp_inv_def bp_outstanding_def)

lemma bp_inv_timeouts: "bp_inv HB W p \<Longrightarrow> bp_inv HB W (bp_handle_timeouts now p)"
  unfolding bp_handle_timeouts_def
  by (rule bp_inv_coordinator) (simp_all add: bp_invD dq.retry_laws dc_config_ops)

lemma bp_inv_requeue: "bp_inv HB W p \<Longrightarrow> bp_inv HB W (bp_requeue_in_flight p)"
  unfolding bp_requeue_in_flight_def
  by (rule bp_inv_coordinator) (simp_all add: bp_invD dq.requeue_laws dc_config_ops)

lemma coordinator_frame [simp]:
  "bp_outstanding HB (p\<lparr>bp_coordinator := c\<rparr>) = bp_outstanding HB p"
  "bp_outstanding HB (bp_handle_timeouts now p) = bp_outstanding HB p"
  "bp_outstanding HB (bp_requeue_in_flight p) = bp_outstanding HB p"
  by (simp_all add: bp_outstanding_def bp_handle_timeouts_def bp_requeue_in_flight_def)

section \<open>Queueing\<close>

lemma set_bset_insert [simp]: "set (bset_insert x xs) = insert x (set xs)"
  by (auto simp: bset_insert_def set_insort_key)

lemma bset_insert_ok:
  "sorted xs \<Longrightarrow> sorted (bset_insert x xs)" "distinct xs \<Longrightarrow> distinct (bset_insert x xs)"
  by (simp_all add: bset_insert_def sorted_insort distinct_insort)

lemma mset_bt_insert: "k \<notin> fst ` set m \<Longrightarrow> mset (bt_insert k v m) = add_mset (k, v) (mset m)"
  by (induction k v m rule: bt_insert.induct) auto

lemma distinct_pairs_add:
  assumes "mset xs = add_mset (a, b) (mset ys)" and "distinct (map fst ys)" and "distinct (map snd ys)"
    and "a \<notin> fst ` set ys" and "b \<notin> snd ` set ys"
  shows "distinct (map fst xs)" "distinct (map snd xs)" "set xs = insert (a, b) (set ys)"
proof -
  have "mset (map fst xs) = mset (a # map fst ys)" "mset (map snd xs) = mset (b # map snd ys)"
    using assms(1) by simp_all
  then show "distinct (map fst xs)" "distinct (map snd xs)"
    using assms(2-) mset_eq_imp_distinct_iff by (metis distinct.simps(2) list.set_map)+
  show "set xs = insert (a, b) (set ys)" using assms(1) by (metis set_mset_add_mset_insert set_mset_mset)
qed

lemma hm_insert_fresh: "k \<notin> fst ` set m \<Longrightarrow> hm_insert k v m = m @ [(k, v)]"
  by (induction m) auto

lemma extend_wallets_frame [simp]:
  "bp_coordinator (extend_wallets k ws p) = bp_coordinator p"
  "pending_heights (extend_wallets k ws p) = pending_heights p"
  "downloaded (extend_wallets k ws p) = downloaded p"
  "hash_to_height (extend_wallets k ws p) = hash_to_height p"
  by (simp_all add: extend_wallets_def)

lemma extend_wallets_fresh:
  assumes "hm_ok (hash_to_wallets p)" and "hm_get (hash_to_wallets p) k = None"
  shows "hm_ok (hash_to_wallets (extend_wallets k ws p))"
    and "hm_get (hash_to_wallets (extend_wallets k ws p)) k' = (if k' = k then Some ws else hm_get (hash_to_wallets p) k')"
  using assms by (simp_all add: extend_wallets_def hm.get_ins distinct_update)

lemma bp_queue_one_fresh:
  assumes "bp_inv HB W p" and "fmk_hash key \<notin> fst ` set (bp_outstanding HB p)"
    and "fmk_height key \<notin> snd ` set (bp_outstanding HB p)"
  defines "q \<equiv> bp_queue_one (key, W (fmk_hash key)) p"
  shows "bp_inv HB W q"
    and "set (bp_outstanding HB q) = insert (fmk_hash key, fmk_height key) (set (bp_outstanding HB p))"
proof -
  have h: "fmk_hash key \<notin> fst ` set (hash_to_height p)" using assms(2) by (auto simp: bp_outstanding_def)
  then have w: "fmk_hash key \<notin> dc_wanted (bp_coordinator p)" using assms(1) by (simp add: bp_invD)
  have none: "hm_get (hash_to_height p) (fmk_hash key) = None" "hm_get (hash_to_wallets p) (fmk_hash key) = None"
    using h assms(2) bp_invD(11) [OF assms(1)] by (simp_all add: map_of_eq_None_iff)
  have ex: "dc_exact (dc_enqueue [fmk_hash key] (bp_coordinator p))"
    using dq.wanted_enq [OF bp_invD(1) [OF assms(1)] w] by simp
  have outs: "mset (bp_outstanding HB q) = add_mset (fmk_hash key, fmk_height key) (mset (bp_outstanding HB p))"
    using h none by (simp add: q_def bp_queue_one_def bp_outstanding_def hm_insert_fresh Let_def)
  note out = distinct_pairs_add [OF outs bp_invD(4,5) [OF assms(1)] assms(2,3)]
  show "set (bp_outstanding HB q) = insert (fmk_hash key, fmk_height key) (set (bp_outstanding HB p))" by (rule out(3))
  have "hash_to_wallets q = hash_to_wallets (extend_wallets (fmk_hash key) (W (fmk_hash key)) p)"
    using none by (simp add: q_def bp_queue_one_def extend_wallets_def Let_def)
  moreover have "hm_ok (hash_to_wallets (extend_wallets (fmk_hash key) (W (fmk_hash key)) p))"
    "hm_get (hash_to_wallets (extend_wallets (fmk_hash key) (W (fmk_hash key)) p)) k =
       (if k = fmk_hash key then Some (W (fmk_hash key)) else hm_get (hash_to_wallets p) k)" for k
    using extend_wallets_fresh [OF bp_invD(10) [OF assms(1)] none(2)] by simp_all
  moreover have "bp_coordinator q = dc_enqueue [fmk_hash key] (bp_coordinator p)"
    "hash_to_height q = hash_to_height p @ [(fmk_hash key, fmk_height key)]"
    "pending_heights q = bset_insert (fmk_height key) (pending_heights p)" "downloaded q = downloaded p"
    using none h by (simp_all add: q_def bp_queue_one_def hm_insert_fresh Let_def)
  ultimately show "bp_inv HB W q"
    using ex bp_invD [OF assms(1)] dc_config_ops(1) [of "[fmk_hash key]" "bp_coordinator p"] out
    unfolding bp_inv_def by (simp add: bset_insert_ok)
qed

lemma bp_add_from_storage_fresh:
  assumes "bp_inv HB W p" and "block_hash_of HB b \<notin> fst ` set (bp_outstanding HB p)"
    and "height \<notin> snd ` set (bp_outstanding HB p)"
  defines "q \<equiv> bp_add_from_storage HB b height (W (block_hash_of HB b)) p"
  shows "bp_inv HB W q"
    and "set (bp_outstanding HB q) = insert (block_hash_of HB b, height) (set (bp_outstanding HB p))"
proof -
  have d: "height \<notin> fst ` set (downloaded p)" using assms(3) by (force simp: bp_outstanding_def)
  have none: "hm_get (hash_to_wallets p) (block_hash_of HB b) = None"
    using assms(2) bp_invD(11) [OF assms(1)] by simp
  have outs: "mset (bp_outstanding HB q) = add_mset (block_hash_of HB b, height) (mset (bp_outstanding HB p))"
    by (simp add: q_def bp_add_from_storage_def Let_def bp_outstanding_def mset_bt_insert [OF d])
  note out = distinct_pairs_add [OF outs bp_invD(4,5) [OF assms(1)] assms(2,3)]
  show "set (bp_outstanding HB q) = insert (block_hash_of HB b, height) (set (bp_outstanding HB p))" by (rule out(3))
  have "hash_to_wallets q = hash_to_wallets (extend_wallets (block_hash_of HB b) (W (block_hash_of HB b)) p)"
    by (simp add: q_def bp_add_from_storage_def Let_def)
  moreover have "hm_ok (hash_to_wallets (extend_wallets (block_hash_of HB b) (W (block_hash_of HB b)) p))"
    "hm_get (hash_to_wallets (extend_wallets (block_hash_of HB b) (W (block_hash_of HB b)) p)) k =
       (if k = block_hash_of HB b then Some (W (block_hash_of HB b)) else hm_get (hash_to_wallets p) k)" for k
    using extend_wallets_fresh [OF bp_invD(10) [OF assms(1)] none] by simp_all
  moreover have "bp_coordinator q = bp_coordinator p" "hash_to_height q = hash_to_height p"
    "pending_heights q = pending_heights p" "downloaded q = bt_insert height b (downloaded p)"
    by (simp_all add: q_def bp_add_from_storage_def Let_def)
  ultimately show "bp_inv HB W q"
    using bp_invD [OF assms(1)] out unfolding bp_inv_def by (simp add: bt_insert_ok)
qed

section \<open>Sending, receiving, handing out\<close>

lemma request_blocks_open:
  "rs_closed_after s = None \<Longrightarrow> request_blocks hashes s = (Ok (), s\<lparr>rs_sent := rs_sent s @ [GetData hashes]\<rparr>)"
  by (simp add: request_blocks_def send_message_def)

text \<open>
  On an open channel a send succeeds, keeps what is wanted and leaves no free slot while something
  waits.
\<close>

lemma hm_insert_all_values: "snd ` set (fold (\<lambda>k. hm_insert k v) ks m) \<subseteq> insert v (snd ` set m)"
proof (induction ks arbitrary: m)
  case (Cons k ks)
  have "snd ` set (hm_insert k v m) \<subseteq> insert v (snd ` set m)" by (induction m) auto
  with Cons.IH [of "hm_insert k v m"] show ?case by auto
qed auto

lemma hm_remove_subset: "set (hm_remove k m) \<subseteq> set m"
  by (auto simp: AList.delete_eq)

lemma fold_remove_subset: "set (fold hm_remove ks m) \<subseteq> set m"
proof (induction ks arbitrary: m)
  case (Cons k ks)
  from Cons.IH [of "hm_remove k m"] show ?case using hm_remove_subset [of k m] by auto
qed simp

lemma generations_after_send:
  "\<forall>g\<in>snd ` set (dc_generations c). g = generation \<Longrightarrow>
     \<forall>g\<in>snd ` set (dc_generations (snd (dc_send now generation n c))). g = generation"
  using hm_insert_all_values [of generation "take n (dc_pending c)" "dc_generations c"]
  by (auto simp: dc_send_parts)

lemma send_blocks_open:
  assumes "rs_closed_after s = None" and "dc_exact (bp_coordinator p)"
    and "\<forall>g\<in>snd ` set (dc_generations (bp_coordinator p)). g = generation"
  shows "\<exists>n c s'. send_blocks_loop now generation t p s = (Ok n, p\<lparr>bp_coordinator := c\<rparr>, s') \<and>
    rs_closed_after s' = None \<and> dc_exact c \<and> dc_wanted c = dc_wanted (bp_coordinator p) \<and>
    dc_config c = dc_config (bp_coordinator p) \<and> dc_available_to_send c = 0 \<and>
    (\<forall>g\<in>snd ` set (dc_generations c). g = generation)"
  using assms
proof (induction now generation t p s rule: send_blocks_loop.induct)
  case (1 now generation t p s)
  let ?c = "bp_coordinator p"
  let ?n = "min (dc_available_to_send ?c) BLOCKS_PER_REQUEST"
  show ?case
  proof (cases "dc_available_to_send ?c > 0")
    case False
    then have "send_blocks_loop now generation t p s = (Ok t, p\<lparr>bp_coordinator := ?c\<rparr>, s)"
      by (simp add: send_blocks_loop.simps)
    then show ?thesis using "1.prems" False by blast
  next
    case True
    obtain hashes c where take: "dc_take_pending ?n ?c = (hashes, c)" by fastforce
    have "length hashes = min ?n (length (dc_pending ?c))" using take by (auto simp: dc_take_pending_def Let_def)
    moreover have "0 < ?n" "0 < length (dc_pending ?c)"
      using True by (simp_all add: dc_available_to_send_def BLOCKS_PER_REQUEST_def)
    ultimately have ne: "hashes \<noteq> []" by (metis length_greater_0_conv min_less_iff_conj)
    let ?d = "snd (dc_send now generation ?n ?c)"
    let ?p = "p\<lparr>bp_coordinator := ?d\<rparr>"
    let ?s = "s\<lparr>rs_sent := rs_sent s @ [GetData hashes]\<rparr>"
    have sent: "dc_mark_sent_with_generation now hashes generation c = ?d" by (simp add: dc_send_def take)
    have loop: "send_blocks_loop now generation t p s = send_blocks_loop now generation (t + length hashes) ?p ?s"
      using True take ne request_blocks_open [OF "1.prems"(1)] sent by (subst send_blocks_loop.simps) simp
    note after = dc_exact_send [OF "1.prems"(2), of now generation ?n]
      generations_after_send [OF "1.prems"(3), of now ?n] dq.wanted_send [OF "1.prems"(2), of now generation ?n]
      dc_send_parts(5) [of now generation ?n ?c]
    from "1.IH" [OF True refl take [symmetric] refl ne request_blocks_open [OF "1.prems"(1), symmetric] refl]
      after "1.prems"(1)
    show ?thesis unfolding loop sent by auto
  qed
qed

lemma mset_hm_remove: "hm_ok m \<Longrightarrow> hm_get m k = Some v \<Longrightarrow> mset m = add_mset (k, v) (mset (hm_remove k m))"
proof (induction m)
  case (Cons e m)
  then show ?case by (cases e) (auto split: if_splits)
qed simp

lemma receive_unrequested:
  "\<not> dc_is_in_flight (bp_coordinator p) (block_hash_of HB b) \<Longrightarrow> receive_block HB now b p = (False, p)"
  by (simp add: receive_block_def dc_receive_def dc_is_in_flight_def)

lemma receive_requested:
  assumes "bp_inv HB W p" and "dc_is_in_flight (bp_coordinator p) (block_hash_of HB b)"
  obtains q where "receive_block HB now b p = (True, q)" "bp_inv HB W q"
    "mset (bp_outstanding HB q) = mset (bp_outstanding HB p)" "length (hash_to_height q) < length (hash_to_height p)"
    "bp_coordinator q = snd (dc_receive now (block_hash_of HB b) (bp_coordinator p))"
proof -
  let ?k = "block_hash_of HB b"
  have fly: "?k \<in> set (hm_keys (dc_in_flight (bp_coordinator p)))"
    using assms(2) by (simp add: dc_is_in_flight_def map_of_eq_None_iff)
  then have "?k \<in> fst ` set (hash_to_height p)" using bp_invD(3) [OF assms(1)] by (auto simp: dc_wanted_def)
  then obtain h where h: "hm_get (hash_to_height p) ?k = Some h"
    using hm_contains_iff [of "hash_to_height p" ?k] by blast
  define q where "q = snd (receive_block HB now b p)"
  have q: "receive_block HB now b p = (True, q)" "bp_coordinator q = snd (dc_receive now ?k (bp_coordinator p))"
    "hash_to_height q = hm_remove ?k (hash_to_height p)" "pending_heights q = remove1 h (pending_heights p)"
    "downloaded q = bt_insert h b (downloaded p)" "hash_to_wallets q = hash_to_wallets p"
    using h dq.recv_laws [OF bp_invD(1) [OF assms(1)], of now ?k] fly
    by (auto simp: q_def receive_block_def Let_def split_beta)
  have "h \<in> set (map snd (hash_to_height p))" using map_of_SomeD [OF h] by force
  then have oks: "hm_ok (hash_to_height p)" "distinct (map snd (hash_to_height p))" "h \<notin> fst ` set (downloaded p)"
    using bp_invD(4,5) [OF assms(1)] by (auto simp: bp_outstanding_def split_beta comp_def)
  note rm = mset_hm_remove [OF oks(1) h]
  have outs: "mset (bp_outstanding HB q) = mset (bp_outstanding HB p)"
    using rm mset_bt_insert [OF oks(3)] by (simp add: bp_outstanding_def q)
  then have set_out: "set (bp_outstanding HB q) = set (bp_outstanding HB p)" by (rule mset_eq_setD)
  have "mset (map fst (bp_outstanding HB q)) = mset (map fst (bp_outstanding HB p))"
    "mset (map snd (bp_outstanding HB q)) = mset (map snd (bp_outstanding HB p))" using outs by simp_all
  then have dist: "distinct (map fst (bp_outstanding HB q))" "distinct (map snd (bp_outstanding HB q))"
    using bp_invD(4,5) [OF assms(1)] mset_eq_imp_distinct_iff by blast+
  have "mset (map snd (hash_to_height p)) = mset (h # map snd (hm_remove ?k (hash_to_height p)))"
    using rm by simp
  from mset_eq_setD [OF this] mset_eq_imp_distinct_iff [OF this] oks(2)
  have heights: "snd ` set (hm_remove ?k (hash_to_height p)) = snd ` set (hash_to_height p) - {h}" by auto
  have "bp_inv HB W q"
    unfolding bp_inv_def set_out
    using bp_invD [OF assms(1)] dist dq.recv_laws [OF bp_invD(1) [OF assms(1)], of now ?k]
      dq.wanted_recv [OF bp_invD(1) [OF assms(1)] fly, of now] dc_config_ops(5) [of now ?k "bp_coordinator p"]
    by (simp add: q heights hm_keys_remove bt_insert_ok sorted_remove1)
  moreover have "length (hash_to_height q) < length (hash_to_height p)"
    using hm_length_remove [OF oks(1), of ?k] h by (simp add: q)
  ultimately show ?thesis using that q(1,2) outs by blast
qed

lemma take_next_None:
  "take_next_ordered_block HB p = (None, q) \<Longrightarrow> q = p \<and> (pending_heights p = [] \<longrightarrow> downloaded p = [])"
  by (auto simp: take_next_ordered_block_def Let_def split: list.splits if_splits)

lemma take_next_Some:
  assumes "bp_inv HB W p" and "take_next_ordered_block HB p = (Some (b, h, ws), q)"
  shows "bp_inv HB W q" "ws = W (block_hash_of HB b)"
    "mset (bp_outstanding HB p) = add_mset (block_hash_of HB b, h) (mset (bp_outstanding HB q))"
    "\<forall>x\<in>set (bp_outstanding HB q). h < snd x"
    "bp_coordinator q = bp_coordinator p" "hash_to_height q = hash_to_height p" "pending_heights q = pending_heights p"
proof -
  obtain rest where d: "downloaded p = (h, b) # rest"
    and low: "\<not> (pending_heights p \<noteq> [] \<and> hd (pending_heights p) < h)"
    using assms(2) by (auto simp: take_next_ordered_block_def Let_def split: list.splits if_splits)
  have above: "\<forall>x\<in>set rest. h < fst x" and ok: "bt_ok rest"
    using bp_invD(9) [OF assms(1)] by (auto simp: d bt_ok_def)
  then have "h \<notin> fst ` set rest" by auto
  then have rest: "bt_remove h (downloaded p) = rest" by (simp add: d)
  have k: "block_hash_of HB b \<in> fst ` set (bp_outstanding HB p)" by (simp add: bp_outstanding_def d)
  have q: "q = p\<lparr>downloaded := rest, hash_to_wallets := hm_remove (block_hash_of HB b) (hash_to_wallets p)\<rparr>"
    and ws: "ws = W (block_hash_of HB b)"
    using assms(2) low rest bp_invD(11) [OF assms(1), of "block_hash_of HB b"] k
    by (auto simp: take_next_ordered_block_def Let_def d)
  show "bp_coordinator q = bp_coordinator p" "hash_to_height q = hash_to_height p" "pending_heights q = pending_heights p"
    by (simp_all add: q)
  show "ws = W (block_hash_of HB b)" by (rule ws)
  show outs: "mset (bp_outstanding HB p) = add_mset (block_hash_of HB b, h) (mset (bp_outstanding HB q))"
    by (simp add: bp_outstanding_def q d)
  have "mset (map fst (bp_outstanding HB p)) = mset (block_hash_of HB b # map fst (bp_outstanding HB q))"
    "mset (map snd (bp_outstanding HB p)) = mset (h # map snd (bp_outstanding HB q))" using outs by simp_all
  then have dist: "distinct (block_hash_of HB b # map fst (bp_outstanding HB q))"
    "distinct (h # map snd (bp_outstanding HB q))"
    using bp_invD(4,5) [OF assms(1)] mset_eq_imp_distinct_iff by blast+
  have set_out: "set (bp_outstanding HB p) = insert (block_hash_of HB b, h) (set (bp_outstanding HB q))"
    using outs by (metis set_mset_add_mset_insert set_mset_mset)
  show "bp_inv HB W q"
    unfolding bp_inv_def
    using bp_invD(1-3,6-8,10,11) [OF assms(1)] dist ok set_out
    by (simp add: q distinct_delete hm.get_del)
  have "h \<le> x" if "x \<in> set (pending_heights p)" for x
    using that low bp_invD(6) [OF assms(1)] by (cases "pending_heights p") (auto simp: not_less)
  then have "h \<le> snd x" if "x \<in> set (hash_to_height p)" for x using that bp_invD(8) [OF assms(1)] by auto
  moreover have "h \<noteq> snd x" if "x \<in> set (bp_outstanding HB q)" for x using that dist(2) by auto
  ultimately show "\<forall>x\<in>set (bp_outstanding HB q). h < snd x"
    using above by (force simp: bp_outstanding_def q order.strict_iff_order)
qed

section \<open>A failed request\<close>

text \<open>
  C17: what a send over a closed channel does. It fails with a network error, and the hashes it took
  from the queue are dropped: they are neither queued nor in flight any more, a block that arrives
  for one of them is refused, and queueing the key again only extends its wallets, while the
  pipeline keeps waiting for its height.
\<close>

theorem send_failure_strands:
  assumes "bp_inv HB W p" and "rs_closed_after s = Some n" and "n \<le> length (rs_sent s)" and "has_pending_requests p"
  shows "\<exists>lost p'. send_pending_with_generation now generation p s =
      (Err (NetworkError ''Protocol error: channel closed''), p', s) \<and>
    lost \<noteq> [] \<and> length lost \<le> BLOCKS_PER_REQUEST \<and> dc_pending (bp_coordinator p) = lost @ dc_pending (bp_coordinator p') \<and>
    (\<forall>k\<in>set lost. k \<notin> dc_wanted (bp_coordinator p') \<and>
       (\<exists>h\<in>set (pending_heights p'). hm_get (hash_to_height p') k = Some h) \<and>
       (\<forall>b. block_hash_of HB b = k \<longrightarrow> receive_block HB now b p' = (False, p')) \<and>
       (\<forall>key ws. fmk_hash key = k \<longrightarrow> bp_queue [(key, ws)] p' = extend_wallets k ws p'))"
proof -
  let ?c = "bp_coordinator p"
  let ?n = "min (dc_available_to_send ?c) BLOCKS_PER_REQUEST"
  define lost where "lost = take ?n (dc_pending ?c)"
  define p' where "p' = p\<lparr>bp_coordinator := ?c\<lparr>dc_pending := drop ?n (dc_pending ?c)\<rparr>\<rparr>"
  have avail: "0 < dc_available_to_send ?c" using assms(4) by (simp add: has_pending_requests_def)
  then have pos: "0 < ?n" "?n \<le> length (dc_pending ?c)"
    by (simp_all add: BLOCKS_PER_REQUEST_def dc_available_to_send_def min_def)
  then have "lost \<noteq> []" by (auto simp: lost_def)
  have take: "dc_take_pending ?n ?c = (lost, ?c\<lparr>dc_pending := drop ?n (dc_pending ?c)\<rparr>)"
    using pos(2) by (simp add: dc_take_pending_def lost_def min_absorb1 Let_def)
  have "request_blocks lost s = (Err (NetworkError ''Protocol error: channel closed''), s)"
    using assms(2,3) by (simp add: request_blocks_def send_message_def)
  then have "send_pending_with_generation now generation p s =
      (Err (NetworkError ''Protocol error: channel closed''), p', s)"
    using avail take \<open>lost \<noteq> []\<close> unfolding send_pending_with_generation_def
    by (subst send_blocks_loop.simps) (simp add: p'_def)
  moreover have "length lost \<le> BLOCKS_PER_REQUEST" "dc_pending ?c = lost @ dc_pending (bp_coordinator p')"
    by (simp_all add: lost_def p'_def)
  moreover have "k \<notin> dc_wanted (bp_coordinator p') \<and>
       (\<exists>h\<in>set (pending_heights p'). hm_get (hash_to_height p') k = Some h) \<and>
       (\<forall>b. block_hash_of HB b = k \<longrightarrow> receive_block HB now b p' = (False, p')) \<and>
       (\<forall>key ws. fmk_hash key = k \<longrightarrow> bp_queue [(key, ws)] p' = extend_wallets k ws p')" if k: "k \<in> set lost" for k
  proof -
    have "distinct (lost @ drop ?n (dc_pending ?c) @ hm_keys (dc_in_flight ?c))"
      using bp_invD(1) [OF assms(1)] by (simp add: dc_exact_def lost_def append_assoc [symmetric] del: append_assoc)
    then have fly: "k \<notin> set (hm_keys (dc_in_flight ?c))" and unwanted: "k \<notin> dc_wanted (bp_coordinator p')"
      using k by (auto simp: dc_wanted_def p'_def)
    have "k \<in> fst ` set (hash_to_height p)"
      using k bp_invD(3) [OF assms(1)] set_take_subset [of ?n "dc_pending ?c"] by (auto simp: lost_def dc_wanted_def)
    then obtain h where h: "hm_get (hash_to_height p) k = Some h"
      using hm_contains_iff [of "hash_to_height p" k] by blast
    then have "h \<in> set (pending_heights p)" using bp_invD(8) [OF assms(1)] map_of_SomeD [OF h] by force
    moreover have "receive_block HB now b p' = (False, p')" if "block_hash_of HB b = k" for b
      using fly that by (intro receive_unrequested) (simp add: p'_def dc_is_in_flight_def map_of_eq_None_iff)
    moreover have "bp_queue [(key, ws)] p' = extend_wallets k ws p'" if "fmk_hash key = k" for key ws
      using h that by (simp add: bp_queue_def bp_queue_one_def p'_def)
    ultimately show ?thesis using unwanted h by (auto simp: p'_def)
  qed
  ultimately show ?thesis using \<open>lost \<noteq> []\<close> by blast
qed

definition stranded_sample :: blocks_pipeline where
  "stranded_sample = bp_queue [(\<lparr>fmk_height = 5, fmk_hash = [1]\<rparr>, {})] (bp_new 0)"

lemma stranded_sample_inv: "bp_inv HB (\<lambda>_. {}) stranded_sample" "has_pending_requests stranded_sample"
  using bp_queue_one_fresh(1) [OF bp_inv_new(1) [of HB "\<lambda>_. {}" 0], of "\<lparr>fmk_height = 5, fmk_hash = [1]\<rparr>"]
  by (simp_all add: stranded_sample_def bp_queue_def bp_new_def bp_outstanding_def has_pending_requests_def
      bp_queue_one_def extend_wallets_def dc_available_to_send_def dc_enqueue_eq dc_new_def with_timeout_def
      with_max_concurrent_def MAX_CONCURRENT_BLOCK_DOWNLOADS_def Let_def)

lemma send_failure_strands_witness:
  "\<exists>lost p'. send_pending_with_generation 0 7 stranded_sample \<lparr>rs_sent = [], rs_closed_after = Some 0\<rparr> =
      (Err (NetworkError ''Protocol error: channel closed''), p', \<lparr>rs_sent = [], rs_closed_after = Some 0\<rparr>) \<and> lost \<noteq> [] \<and>
      dc_pending (bp_coordinator stranded_sample) = lost @ dc_pending (bp_coordinator p')"
proof -
  have "rs_closed_after \<lparr>rs_sent = [], rs_closed_after = Some 0\<rparr> = Some 0"
    "0 \<le> length (rs_sent \<lparr>rs_sent = [], rs_closed_after = Some 0\<rparr>)" by simp_all
  from send_failure_strands [OF stranded_sample_inv(1) [of "\<lambda>_. []"] this stranded_sample_inv(2), of 0 7]
  show ?thesis by blast
qed

end
