(* ===== verification/Blocks_Manager.thy ===== *)
theory Blocks_Manager
  imports Blocks_Pipeline
begin

text \<open>
  The manager that downloads matched blocks and processes them through the wallets in height
  order, from \<open>src/dash-spv/src/sync/blocks/manager.rs\<close> and \<open>sync_manager.rs\<close>: its state, its
  handlers for network messages, for events of the other managers and for the periodic tick, and
  its progress counters (\<open>progress.rs\<close>).

  The manager is generic over header storage, block storage and wallet. Their operations are the
  record \<open>blocks_env\<close>; \<open>'b\<close> and \<open>'w\<close> are the states of the block storage and of the wallet and
  \<open>'a\<close> the type of addresses. The reorg generation is an argument, and a handler reads the clock
  once. A handler returns its result together with the state it leaves, also when it fails.
\<close>

section \<open>Data\<close>

datatype sync_state = WaitForEvents | WaitingForConnections | Syncing | Synced | ErrorState

record 'a block_processing_result =
  new_txids :: "u8 list list"
  existing_txids :: "u8 list list"
  new_addresses :: "(wallet_id, 'a list) btree_map"

definition relevant_txids :: "'a block_processing_result \<Rightarrow> u8 list list" where
  "relevant_txids r = new_txids r @ existing_txids r"

definition relevant_tx_count :: "'a block_processing_result \<Rightarrow> nat" where
  "relevant_tx_count r = length (new_txids r) + length (existing_txids r)"

text \<open>The events the manager reacts to and emits; \<open>OtherEvent\<close> is every other one.\<close>

datatype 'a sync_event =
    BlocksNeeded "(filter_match_key \<times> wallet_id set) list"
  | BlockProcessed (bp_block_hash: block_hash) (bp_height: u32) (bp_wallets: "wallet_id set")
      "(wallet_id, 'a list) btree_map" "u8 list list"
  | ChainReorg (fork_height: u32)
  | FiltersSyncComplete (fs_tip_height: u32)
  | OtherEvent

record blocks_progress =
  pg_state :: sync_state
  last_processed :: u32
  requested :: u32
  pg_from_storage :: u32
  pg_downloaded :: u32
  processed :: u32
  relevant :: u32
  transactions :: u32
  last_activity :: instant

definition progress_default :: "instant \<Rightarrow> blocks_progress" where
  "progress_default now =
     \<lparr>pg_state = WaitForEvents, last_processed = 0, requested = 0, pg_from_storage = 0, pg_downloaded = 0,
      processed = 0, relevant = 0, transactions = 0, last_activity = now\<rparr>"

definition set_state :: "instant \<Rightarrow> sync_state \<Rightarrow> blocks_progress \<Rightarrow> blocks_progress" where
  "set_state now st pg = pg\<lparr>pg_state := st, last_activity := now\<rparr>"

definition update_last_processed :: "instant \<Rightarrow> u32 \<Rightarrow> blocks_progress \<Rightarrow> blocks_progress" where
  "update_last_processed now height pg = pg\<lparr>last_processed := height, last_activity := now\<rparr>"

definition add_requested :: "instant \<Rightarrow> u32 \<Rightarrow> blocks_progress \<Rightarrow> blocks_progress" where
  "add_requested now n pg = pg\<lparr>requested := requested pg + n, last_activity := now\<rparr>"

definition add_from_storage :: "instant \<Rightarrow> u32 \<Rightarrow> blocks_progress \<Rightarrow> blocks_progress" where
  "add_from_storage now n pg = pg\<lparr>pg_from_storage := pg_from_storage pg + n, last_activity := now\<rparr>"

definition add_downloaded :: "instant \<Rightarrow> u32 \<Rightarrow> blocks_progress \<Rightarrow> blocks_progress" where
  "add_downloaded now n pg = pg\<lparr>pg_downloaded := pg_downloaded pg + n, last_activity := now\<rparr>"

definition add_processed :: "instant \<Rightarrow> u32 \<Rightarrow> blocks_progress \<Rightarrow> blocks_progress" where
  "add_processed now n pg = pg\<lparr>processed := processed pg + n, last_activity := now\<rparr>"

definition add_relevant :: "instant \<Rightarrow> u32 \<Rightarrow> blocks_progress \<Rightarrow> blocks_progress" where
  "add_relevant now n pg = pg\<lparr>relevant := relevant pg + n, last_activity := now\<rparr>"

definition add_transactions :: "instant \<Rightarrow> u32 \<Rightarrow> blocks_progress \<Rightarrow> blocks_progress" where
  "add_transactions now n pg = pg\<lparr>transactions := transactions pg + n, last_activity := now\<rparr>"

lemmas progress_defs = set_state_def update_last_processed_def add_requested_def add_from_storage_def
  add_downloaded_def add_processed_def add_relevant_def add_transactions_def

section \<open>The manager\<close>

record ('w, 'b, 'a) blocks_env =
  header_hash :: "u8 list \<Rightarrow> block_hash"
  get_header_height_by_hash :: "block_hash \<Rightarrow> u32 option sync_result"
  load_block :: "'b \<Rightarrow> u32 \<Rightarrow> hashed_block option sync_result"
  store_block :: "u32 \<Rightarrow> hashed_block \<Rightarrow> 'b \<Rightarrow> unit sync_result \<times> 'b"
  process_block_for_wallets :: "block \<Rightarrow> u32 \<Rightarrow> wallet_id set \<Rightarrow> 'w \<Rightarrow> 'a block_processing_result \<times> 'w"
  last_processed_height :: "'w \<Rightarrow> u32"

record ('w, 'b) blocks_manager =
  bm_progress :: blocks_progress
  block_storage :: 'b
  wallet :: 'w
  pipeline :: blocks_pipeline
  filters_sync_complete :: bool

definition blocks_manager_new :: "('w, 'b, 'a) blocks_env \<Rightarrow> instant \<Rightarrow> 'w \<Rightarrow> 'b \<Rightarrow> ('w, 'b) blocks_manager" where
  "blocks_manager_new env now w store =
     \<lparr>bm_progress = update_last_processed now (last_processed_height env w) (progress_default now),
      block_storage = store, wallet = w, pipeline = bp_new now, filters_sync_complete = False\<rparr>"

definition bm_state :: "('w, 'b) blocks_manager \<Rightarrow> sync_state" where
  "bm_state m = pg_state (bm_progress m)"

definition bm_send_pending ::
  "instant \<Rightarrow> u64 \<Rightarrow> ('w, 'b) blocks_manager \<Rightarrow> request_sender \<Rightarrow>
     unit sync_result \<times> ('w, 'b) blocks_manager \<times> request_sender" where
  "bm_send_pending now generation m s =
     (case send_pending_with_generation now generation (pipeline m) s of
        (Err e, p, s') \<Rightarrow> (Err e, m\<lparr>pipeline := p\<rparr>, s')
      | (Ok sent, p, s') \<Rightarrow>
          (Ok (),
           m\<lparr>pipeline := p,
             bm_progress := (if sent > 0 then add_requested now (as_u32 sent) (bm_progress m) else bm_progress m)\<rparr>,
           s'))"

text \<open>One block through the wallets.\<close>

definition process_one ::
  "('w, 'b, 'a) blocks_env \<Rightarrow> instant \<Rightarrow> block \<Rightarrow> u32 \<Rightarrow> wallet_id set \<Rightarrow> ('w, 'b) blocks_manager \<Rightarrow>
     'a sync_event \<times> ('w, 'b) blocks_manager" where
  "process_one env now b height interested m =
     (let (result, w) = process_block_for_wallets env b height interested (wallet m);
          pg1 = add_processed now 1 (bm_progress m);
          pg2 = (if relevant_tx_count result > 0 then add_relevant now 1 pg1 else pg1);
          pg3 = add_transactions now (as_u32 (length (new_txids result))) pg2;
          pg4 = update_last_processed now height pg3 in
      (BlockProcessed (block_hash_of (header_hash env) b) height interested (new_addresses result) (relevant_txids result),
       m\<lparr>wallet := w, bm_progress := pg4\<rparr>))"

lemma take_next_length:
  "take_next_ordered_block HB p = (Some x, q) \<Longrightarrow> length (downloaded q) < length (downloaded p)"
  by (auto simp: take_next_ordered_block_def Let_def less_Suc_eq_le length_delete_le split: list.splits if_splits)

function process_loop ::
  "('w, 'b, 'a) blocks_env \<Rightarrow> instant \<Rightarrow> 'a sync_event list \<Rightarrow> ('w, 'b) blocks_manager \<Rightarrow>
     'a sync_event list \<times> ('w, 'b) blocks_manager"
where
  "process_loop env now events m =
     (case take_next_ordered_block (header_hash env) (pipeline m) of
        (None, p) \<Rightarrow> (events, m\<lparr>pipeline := p\<rparr>)
      | (Some (b, height, interested), p) \<Rightarrow>
          let (event, m') = process_one env now b height interested (m\<lparr>pipeline := p\<rparr>) in
          process_loop env now (events @ [event]) m')"
  by pat_completeness auto
termination
  by (relation "measure (\<lambda>(_, _, _, m). length (downloaded (pipeline m)))")
    (auto simp: process_one_def Let_def split_beta intro: take_next_length [OF sym])

declare process_loop.simps [simp del]

definition process_buffered_blocks ::
  "('w, 'b, 'a) blocks_env \<Rightarrow> instant \<Rightarrow> ('w, 'b) blocks_manager \<Rightarrow> 'a sync_event list \<times> ('w, 'b) blocks_manager" where
  "process_buffered_blocks env now m =
     (let (events, m1) = process_loop env now [] m in
      (events,
       if bp_is_complete (pipeline m1) \<and> bm_state m1 = Syncing then
         m1\<lparr>bm_progress := set_state now (if filters_sync_complete m1 then Synced else WaitForEvents) (bm_progress m1)\<rparr>
       else m1))"

section \<open>Handlers\<close>

definition ensure_not_started :: "sync_state \<Rightarrow> unit sync_result" where
  "ensure_not_started st = (if st \<noteq> WaitingForConnections then Err (SyncInProgress ''Block'') else Ok ())"

definition start_sync ::
  "instant \<Rightarrow> ('w, 'b) blocks_manager \<Rightarrow> 'a sync_event list sync_result \<times> ('w, 'b) blocks_manager" where
  "start_sync now m =
     (case ensure_not_started (bm_state m) of
        Err e \<Rightarrow> (Err e, m)
      | Ok _ \<Rightarrow>
          if filters_sync_complete m \<and> bp_is_complete (pipeline m) then
            (Ok [], m\<lparr>bm_progress := set_state now Synced (bm_progress m)\<rparr>)
          else
            (Ok [],
             m\<lparr>bm_progress :=
                 set_state now (if \<not> bp_is_complete (pipeline m) then Syncing else WaitForEvents) (bm_progress m)\<rparr>))"

definition on_disconnect :: "('w, 'b) blocks_manager \<Rightarrow> ('w, 'b) blocks_manager" where
  "on_disconnect m = m\<lparr>pipeline := bp_requeue_in_flight (pipeline m)\<rparr>"

definition stop_sync :: "instant \<Rightarrow> ('w, 'b) blocks_manager \<Rightarrow> ('w, 'b) blocks_manager" where
  "stop_sync now m = on_disconnect (m\<lparr>bm_progress := set_state now WaitingForConnections (bm_progress m)\<rparr>)"

type_synonym ('w, 'b, 'a) handled =
  "'a sync_event list sync_result \<times> ('w, 'b) blocks_manager \<times> request_sender"

datatype network_message = BlockMessage block | OtherMessage

text \<open>A block that answers a request of the current generation, or none at all.\<close>

definition handle_received ::
  "('w, 'b, 'a) blocks_env \<Rightarrow> instant \<Rightarrow> u64 \<Rightarrow> block \<Rightarrow> ('w, 'b) blocks_manager \<Rightarrow> request_sender \<Rightarrow> ('w, 'b, 'a) handled"
where
  "handle_received env now generation b m s =
     (let hashed = hashed_block_from (header_hash env) b in
      case receive_block (header_hash env) now b (pipeline m) of
        (False, p) \<Rightarrow> (Ok [], m\<lparr>pipeline := p\<rparr>, s)
      | (True, p) \<Rightarrow>
          let m1 = m\<lparr>pipeline := p\<rparr> in
          case get_header_height_by_hash env (hb_hash hashed) of
            Err e \<Rightarrow> (Err e, m1, s)
          | Ok None \<Rightarrow> (Err (InvalidState ''Block has no stored header''), m1, s)
          | Ok (Some height) \<Rightarrow>
              let (stored, store) = store_block env height hashed (block_storage m1);
                  m2 = m1\<lparr>block_storage := store\<rparr> in
              case stored of
                Err e \<Rightarrow> (Err e, m2, s)
              | Ok _ \<Rightarrow>
                  let m3 = m2\<lparr>bm_progress := add_downloaded now 1 (bm_progress m2)\<rparr>;
                      (events, m4) = process_buffered_blocks env now m3 in
                  if has_pending_requests (pipeline m4) then
                    (case bm_send_pending now generation m4 s of
                       (Err e, m5, s') \<Rightarrow> (Err e, m5, s')
                     | (Ok _, m5, s') \<Rightarrow> (Ok events, m5, s'))
                  else (Ok events, m4, s))"

definition handle_message ::
  "('w, 'b, 'a) blocks_env \<Rightarrow> instant \<Rightarrow> u64 \<Rightarrow> network_message \<Rightarrow> ('w, 'b) blocks_manager \<Rightarrow> request_sender \<Rightarrow>
     ('w, 'b, 'a) handled"
where
  "handle_message env now generation msg m s =
     (case msg of
        OtherMessage \<Rightarrow> (Ok [], m, s)
      | BlockMessage b \<Rightarrow>
          case generation_for_hash (pipeline m) (hb_hash (hashed_block_from (header_hash env) b)) of
            Some req_gen \<Rightarrow>
              if req_gen \<noteq> generation then (Ok [], m, s) else handle_received env now generation b m s
          | None \<Rightarrow> handle_received env now generation b m s)"

fun load_needed ::
  "('w, 'b, 'a) blocks_env \<Rightarrow> instant \<Rightarrow> (filter_match_key \<times> wallet_id set) list \<Rightarrow>
     (filter_match_key \<times> wallet_id set) list \<Rightarrow> ('w, 'b) blocks_manager \<Rightarrow>
     (filter_match_key \<times> wallet_id set) list sync_result \<times> ('w, 'b) blocks_manager"
where
  "load_needed env now [] to_download m = (Ok to_download, m)"
| "load_needed env now ((key, wallets) # blocks) to_download m =
     (case load_block env (block_storage m) (fmk_height key) of
        Ok (Some hb) \<Rightarrow>
          if hb_hash hb \<noteq> fmk_hash key then (Err (Validation ''Stored block hash mismatch''), m)
          else
            load_needed env now blocks to_download
              (m\<lparr>pipeline := bp_add_from_storage (header_hash env) (hb_block hb) (fmk_height key) wallets (pipeline m),
                 bm_progress := add_from_storage now 1 (bm_progress m)\<rparr>)
      | _ \<Rightarrow> load_needed env now blocks (to_download @ [(key, wallets)]) m)"

definition handle_blocks_needed ::
  "('w, 'b, 'a) blocks_env \<Rightarrow> instant \<Rightarrow> u64 \<Rightarrow> (filter_match_key \<times> wallet_id set) list \<Rightarrow> ('w, 'b) blocks_manager \<Rightarrow>
     request_sender \<Rightarrow> ('w, 'b, 'a) handled"
where
  "handle_blocks_needed env now generation blocks m s =
     (if blocks = [] then (Ok [], m, s)
      else
        case load_needed env now blocks [] m of
          (Err e, m1) \<Rightarrow> (Err e, m1, s)
        | (Ok to_download, m1) \<Rightarrow>
            let m2 = m1\<lparr>pipeline := bp_queue to_download (pipeline m1),
                        bm_progress := set_state now Syncing (bm_progress m1)\<rparr> in
            case (if has_pending_requests (pipeline m2) then bm_send_pending now generation m2 s else (Ok (), m2, s)) of
              (Err e, m3, s') \<Rightarrow> (Err e, m3, s')
            | (Ok _, m3, s') \<Rightarrow> let (events, m4) = process_buffered_blocks env now m3 in (Ok events, m4, s'))"

definition handle_sync_event ::
  "('w, 'b, 'a) blocks_env \<Rightarrow> instant \<Rightarrow> u64 \<Rightarrow> 'a sync_event \<Rightarrow> ('w, 'b) blocks_manager \<Rightarrow> request_sender \<Rightarrow>
     ('w, 'b, 'a) handled"
where
  "handle_sync_event env now generation event m s =
     (case event of
        BlocksNeeded blocks \<Rightarrow> handle_blocks_needed env now generation blocks m s
      | ChainReorg _ \<Rightarrow>
          (Ok [],
           m\<lparr>pipeline := bp_new now, filters_sync_complete := False,
             bm_progress := set_state now WaitForEvents (bm_progress m)\<rparr>,
           s)
      | FiltersSyncComplete _ \<Rightarrow>
          let m1 = m\<lparr>filters_sync_complete := True\<rparr> in
          (Ok [],
           if bp_is_complete (pipeline m1) \<and> (bm_state m1 = Syncing \<or> bm_state m1 = WaitForEvents) then
             m1\<lparr>bm_progress := set_state now Synced (bm_progress m1)\<rparr>
           else m1,
           s)
      | _ \<Rightarrow> (Ok [], m, s))"

definition bm_tick ::
  "('w, 'b, 'a) blocks_env \<Rightarrow> instant \<Rightarrow> u64 \<Rightarrow> ('w, 'b) blocks_manager \<Rightarrow> request_sender \<Rightarrow> ('w, 'b, 'a) handled"
where
  "bm_tick env now generation m s =
     (case bm_send_pending now generation (m\<lparr>pipeline := bp_handle_timeouts now (pipeline m)\<rparr>) s of
        (Err e, m1, s') \<Rightarrow> (Err e, m1, s')
      | (Ok _, m1, s') \<Rightarrow> let (events, m2) = process_buffered_blocks env now m1 in (Ok events, m2, s'))"

section \<open>What the manager promises\<close>

text \<open>
  Blocks leave the list of outstanding ones in increasing height, each announced with its hash,
  its height and the wallets it is meant for, and none is announced before one below it.
\<close>

fun event_entry :: "'a sync_event \<Rightarrow> (block_hash \<times> u32 \<times> wallet_id set) option" where
  "event_entry (BlockProcessed k h ws _ _) = Some (k, h, ws)"
| "event_entry _ = None"

definition entry_of :: "(block_hash \<Rightarrow> wallet_id set) \<Rightarrow> block_hash \<times> u32 \<Rightarrow> (block_hash \<times> u32 \<times> wallet_id set) option" where
  "entry_of W = (\<lambda>(k, h). Some (k, h, W k))"

definition delivers ::
  "(block_hash \<Rightarrow> wallet_id set) \<Rightarrow> (block_hash \<times> u32) list \<Rightarrow> 'a sync_event list \<Rightarrow> (block_hash \<times> u32) list \<Rightarrow> bool" where
  "delivers W os evs os' \<longleftrightarrow>
     (\<exists>ents. map event_entry evs = map (entry_of W) ents \<and> mset os = mset ents + mset os' \<and>
        sorted_wrt (<) (map snd ents) \<and> (\<forall>x\<in>set ents. \<forall>y\<in>set os'. snd x < snd y))"

lemma delivers_none: "mset os = mset os' \<Longrightarrow> delivers W os [] os'"
  by (auto simp: delivers_def)

lemma delivers_trans:
  assumes "delivers W os evs os'" and "delivers W os' evs' os''"
  shows "delivers W os (evs @ evs') os''"
proof -
  obtain a b where a: "map event_entry evs = map (entry_of W) a" "mset os = mset a + mset os'"
      "sorted_wrt (<) (map snd a)" "\<forall>x\<in>set a. \<forall>y\<in>set os'. snd x < snd y"
    and b: "map event_entry evs' = map (entry_of W) b" "mset os' = mset b + mset os''"
      "sorted_wrt (<) (map snd b)" "\<forall>x\<in>set b. \<forall>y\<in>set os''. snd x < snd y"
    using assms by (auto simp: delivers_def)
  have sub: "set os' = set b \<union> set os''" using b(2) by (metis set_mset_mset set_mset_union)
  have "sorted_wrt (<) (map snd (a @ b))" using a(3,4) b(3) sub by (force simp: sorted_wrt_append)
  moreover have "\<forall>x\<in>set (a @ b). \<forall>y\<in>set os''. snd x < snd y" using a(4) b(4) sub by auto
  moreover have "map event_entry (evs @ evs') = map (entry_of W) (a @ b)" using a(1) b(1) by simp
  moreover have "mset os = mset (a @ b) + mset os''" using a(2) b(2) by simp
  ultimately show ?thesis unfolding delivers_def by blast
qed

text \<open>When everything has been delivered, it has been delivered in the one increasing order.\<close>

lemma delivers_all:
  assumes "delivers W os evs []" and "mset os = mset ks" and "sorted_wrt (<) (map snd ks)"
  shows "map event_entry evs = map (entry_of W) ks"
proof -
  obtain ents where e: "map event_entry evs = map (entry_of W) ents" "mset os = mset ents" "sorted_wrt (<) (map snd ents)"
    using assms(1) by (auto simp: delivers_def)
  have ord: "distinct (map snd ents)" "distinct (map snd ks)" "sorted (map snd ents)" "sorted (map snd ks)"
    using e(3) assms(3) by (simp_all add: strict_sorted_iff)
  have eq: "set ents = set ks" using e(2) assms(2) by (metis set_mset_mset)
  then have "map snd ents = map snd ks" using ord by (intro sorted_distinct_set_unique) simp_all
  moreover have "inj_on snd (set ents \<union> set ks)" using ord(2) eq by (simp add: distinct_map)
  ultimately have "ents = ks" by (rule map_inj_on)
  with e(1) show ?thesis by simp
qed

section \<open>Each handler keeps the promise\<close>

lemma process_one_frame:
  assumes "process_one env now b height ws m = (e, m')"
  shows "event_entry e = Some (block_hash_of (header_hash env) b, height, ws)" "pipeline m' = pipeline m"
    "bm_state m' = bm_state m" "filters_sync_complete m' = filters_sync_complete m" "block_storage m' = block_storage m"
  using assms by (auto simp: process_one_def Let_def split_beta bm_state_def progress_defs)

lemma process_loop_delivers:
  assumes "bp_inv (header_hash env) W (pipeline m)"
  shows "\<exists>new m'. process_loop env now evs m = (evs @ new, m') \<and> bp_inv (header_hash env) W (pipeline m') \<and>
    delivers W (bp_outstanding (header_hash env) (pipeline m)) new (bp_outstanding (header_hash env) (pipeline m')) \<and>
    bp_coordinator (pipeline m') = bp_coordinator (pipeline m) \<and>
    hash_to_height (pipeline m') = hash_to_height (pipeline m) \<and>
    (pending_heights (pipeline m') = [] \<longrightarrow> downloaded (pipeline m') = []) \<and> bm_state m' = bm_state m \<and>
    filters_sync_complete m' = filters_sync_complete m"
  using assms
proof (induction env now evs m rule: process_loop.induct)
  case (1 env now evs m)
  let ?HB = "header_hash env"
  obtain x p where take: "take_next_ordered_block ?HB (pipeline m) = (x, p)" by fastforce
  show ?case
  proof (cases x)
    case None
    have "p = pipeline m" "pending_heights p = [] \<longrightarrow> downloaded p = []"
      using take_next_None [of ?HB "pipeline m" p] take None by simp_all
    then have "process_loop env now evs m = (evs @ [], m) \<and> (pending_heights (pipeline m) = [] \<longrightarrow> downloaded (pipeline m) = [])"
      using take None by (simp add: process_loop.simps)
    with "1.prems" show ?thesis by (intro exI conjI) (auto intro: delivers_none)
  next
    case (Some y)
    obtain b h ws where y: "y = (b, h, ws)" by (cases y) auto
    obtain e m1 where one: "process_one env now b h ws (m\<lparr>pipeline := p\<rparr>) = (e, m1)" by fastforce
    note fr = process_one_frame [OF one]
    note tk = take_next_Some [OF "1.prems" take [unfolded Some y]]
    have loop: "process_loop env now evs m = process_loop env now (evs @ [e]) m1"
      using take one by (subst process_loop.simps) (simp add: Some y)
    from "1.IH" [OF take [symmetric] Some y [symmetric] refl refl one [symmetric]] tk(1) fr(2)
    obtain new m' where IH: "process_loop env now (evs @ [e]) m1 = ((evs @ [e]) @ new, m')" "bp_inv ?HB W (pipeline m')"
      "delivers W (bp_outstanding ?HB (pipeline m1)) new (bp_outstanding ?HB (pipeline m'))"
      "bp_coordinator (pipeline m') = bp_coordinator (pipeline m1)"
      "hash_to_height (pipeline m') = hash_to_height (pipeline m1)"
      "pending_heights (pipeline m') = [] \<longrightarrow> downloaded (pipeline m') = []" "bm_state m' = bm_state m1"
      "filters_sync_complete m' = filters_sync_complete m1"
      by auto
    have "delivers W (bp_outstanding ?HB (pipeline m)) [e] (bp_outstanding ?HB (pipeline m1))"
      unfolding delivers_def
      by (rule exI [of _ "[(block_hash_of ?HB b, h)]"]) (use tk fr in \<open>simp add: entry_of_def\<close>)
    from delivers_trans [OF this IH(3)] IH tk fr show ?thesis
      unfolding loop by (intro exI [of _ "e # new"] exI [of _ m']) (simp add: bm_state_def)
  qed
qed

abbreviation bm_outstanding :: "('w, 'b, 'a) blocks_env \<Rightarrow> ('w, 'b) blocks_manager \<Rightarrow> (block_hash \<times> u32) list" where
  "bm_outstanding env m \<equiv> bp_outstanding (header_hash env) (pipeline m)"

abbreviation bm_awaited :: "('w, 'b) blocks_manager \<Rightarrow> nat" where
  "bm_awaited m \<equiv> length (hash_to_height (pipeline m))"

text \<open>
  While the channel is open, every outstanding block has a stored header in \<open>K\<close> and every request
  in flight carries the current generation.
\<close>

definition bm_good ::
  "('w, 'b, 'a) blocks_env \<Rightarrow> (block_hash \<Rightarrow> wallet_id set) \<Rightarrow> block_hash set \<Rightarrow> u64 \<Rightarrow> ('w, 'b) blocks_manager \<Rightarrow>
     request_sender \<Rightarrow> bool" where
  "bm_good env W K generation m s \<longleftrightarrow>
     bp_inv (header_hash env) W (pipeline m) \<and> rs_closed_after s = None \<and>
     (\<forall>g\<in>snd ` set (dc_generations (bp_coordinator (pipeline m))). g = generation) \<and>
     fst ` set (bm_outstanding env m) \<subseteq> K"

text \<open>Nothing that could be processed is left, and a manager with nothing left is not syncing.\<close>

definition bm_settled :: "('w, 'b) blocks_manager \<Rightarrow> bool" where
  "bm_settled m \<longleftrightarrow>
     (pending_heights (pipeline m) = [] \<longrightarrow> downloaded (pipeline m) = []) \<and>
     (bp_is_complete (pipeline m) \<longrightarrow> bm_state m \<noteq> Syncing)"

definition env_ok :: "('w, 'b, 'a) blocks_env \<Rightarrow> block_hash set \<Rightarrow> bool" where
  "env_ok env K \<longleftrightarrow>
     (\<forall>height hb store. fst (store_block env height hb store) = Ok ()) \<and>
     (\<forall>k\<in>K. \<exists>height. get_header_height_by_hash env k = Ok (Some height))"

lemma delivers_subset: "delivers W os evs os' \<Longrightarrow> set os' \<subseteq> set os"
  unfolding delivers_def by (metis Un_upper2 set_mset_mset set_mset_union)

lemma bm_complete_iff: "bm_good env W K g m s \<Longrightarrow> bp_is_complete (pipeline m) \<longleftrightarrow> bm_outstanding env m = []"
  unfolding bm_good_def using bp_complete_iff by blast

lemma bm_awaited_zero:
  assumes "bm_good env W K g m s" and "bm_settled m" and "bm_awaited m = 0"
  shows "bp_is_complete (pipeline m)"
proof -
  have inv: "bp_inv (header_hash env) W (pipeline m)" using assms(1) by (simp add: bm_good_def)
  then have "pending_heights (pipeline m) = []" using assms(3) bp_invD(8) [OF inv] by simp
  then show ?thesis
    unfolding bp_complete_iff [OF inv] using assms(2,3) by (simp add: bm_settled_def bp_outstanding_def)
qed

lemma bm_send_good:
  assumes "bm_good env W K g m s"
  obtains m' s' where "bm_send_pending now g m s = (Ok (), m', s')" "bm_good env W K g m' s'"
    "bm_outstanding env m' = bm_outstanding env m" "hash_to_height (pipeline m') = hash_to_height (pipeline m)"
    "bm_settled m' = bm_settled m" "bm_state m' = bm_state m" "filters_sync_complete m' = filters_sync_complete m"
    "dc_available_to_send (bp_coordinator (pipeline m')) = 0"
proof -
  let ?p = "pipeline m"
  have inv: "bp_inv (header_hash env) W ?p" and s: "rs_closed_after s = None"
    and gen: "\<forall>x\<in>snd ` set (dc_generations (bp_coordinator ?p)). x = g" and K: "fst ` set (bm_outstanding env m) \<subseteq> K"
    using assms by (simp_all add: bm_good_def)
  obtain n c s' where c: "send_blocks_loop now g 0 ?p s = (Ok n, ?p\<lparr>bp_coordinator := c\<rparr>, s')"
    "rs_closed_after s' = None" "dc_exact c" "dc_wanted c = dc_wanted (bp_coordinator ?p)"
    "dc_config c = dc_config (bp_coordinator ?p)" "dc_available_to_send c = 0"
    "\<forall>x\<in>snd ` set (dc_generations c). x = g"
    using send_blocks_open [OF s bp_invD(1) [OF inv] gen, of now 0] by blast
  define m' where "m' = fst (snd (bm_send_pending now g m s))"
  have m': "bm_send_pending now g m s = (Ok (), m', s')" "pipeline m' = ?p\<lparr>bp_coordinator := c\<rparr>"
    "bm_state m' = bm_state m" "filters_sync_complete m' = filters_sync_complete m"
    by (simp_all add: m'_def bm_send_pending_def send_pending_with_generation_def c(1) bm_state_def progress_defs)
  have inv': "bp_inv (header_hash env) W (pipeline m')"
    unfolding m'(2) by (rule bp_inv_coordinator [OF inv c(3,4,5)])
  have out: "bm_outstanding env m' = bm_outstanding env m" by (simp add: m'(2))
  have "bm_settled m' = bm_settled m"
    unfolding bm_settled_def bp_complete_iff [OF inv'] bp_complete_iff [OF inv] out m'(3) by (simp add: m'(2))
  moreover have "bm_good env W K g m' s'" using inv' c K by (simp add: bm_good_def m'(2))
  ultimately show ?thesis using that [OF m'(1)] m' out c(6) by simp
qed

lemma process_buffered_good:
  assumes "bm_good env W K g m s" and "process_buffered_blocks env now m = (evs, m')"
  shows "bm_good env W K g m' s" "bm_settled m'" "delivers W (bm_outstanding env m) evs (bm_outstanding env m')"
    "hash_to_height (pipeline m') = hash_to_height (pipeline m)"
    "bp_coordinator (pipeline m') = bp_coordinator (pipeline m)"
proof -
  have inv: "bp_inv (header_hash env) W (pipeline m)" using assms(1) by (simp add: bm_good_def)
  obtain new m1 where l: "process_loop env now [] m = ([] @ new, m1)" "bp_inv (header_hash env) W (pipeline m1)"
    "delivers W (bm_outstanding env m) new (bm_outstanding env m1)"
    "bp_coordinator (pipeline m1) = bp_coordinator (pipeline m)"
    "hash_to_height (pipeline m1) = hash_to_height (pipeline m)"
    "pending_heights (pipeline m1) = [] \<longrightarrow> downloaded (pipeline m1) = []"
    using process_loop_delivers [OF inv, of now "[]"] by blast
  have e: "evs = new" and p: "pipeline m' = pipeline m1"
    and st: "bp_is_complete (pipeline m1) \<longrightarrow> bm_state m' \<noteq> Syncing"
    using assms(2) l(1) by (auto simp: process_buffered_blocks_def bm_state_def set_state_def split: if_splits)
  show d: "delivers W (bm_outstanding env m) evs (bm_outstanding env m')" using l(3) by (simp add: e p)
  show "bm_settled m'" using l(6) st by (simp add: bm_settled_def p)
  show "hash_to_height (pipeline m') = hash_to_height (pipeline m)"
    "bp_coordinator (pipeline m') = bp_coordinator (pipeline m)" by (simp_all add: p l)
  show "bm_good env W K g m' s"
    using assms(1) l(2,4) delivers_subset [OF d] by (auto simp: bm_good_def p)
qed

definition events_of :: "'a sync_event list sync_result \<Rightarrow> 'a sync_event list" where
  "events_of r = (case r of Ok evs \<Rightarrow> evs | Err _ \<Rightarrow> [])"

text \<open>What a handler does to a good manager.\<close>

definition bm_served ::
  "('w, 'b, 'a) blocks_env \<Rightarrow> (block_hash \<Rightarrow> wallet_id set) \<Rightarrow> block_hash set \<Rightarrow> u64 \<Rightarrow> ('w, 'b) blocks_manager \<Rightarrow>
     'a sync_event list \<Rightarrow> ('w, 'b) blocks_manager \<Rightarrow> request_sender \<Rightarrow> bool" where
  "bm_served env W K g m evs m' s' \<longleftrightarrow>
     bm_good env W K g m' s' \<and> bm_settled m' \<and> delivers W (bm_outstanding env m) evs (bm_outstanding env m') \<and>
     bm_awaited m' \<le> bm_awaited m"

lemma handle_block_served:
  assumes good: "bm_good env W K g m s" and "bm_settled m" and env: "env_ok env K"
  obtains evs m' s' where "handle_message env now g (BlockMessage b) m s = (Ok evs, m', s')"
    "bm_served env W K g m evs m' s'"
    "dc_is_in_flight (bp_coordinator (pipeline m)) (block_hash_of (header_hash env) b) \<longrightarrow> bm_awaited m' < bm_awaited m"
proof -
  let ?HB = "header_hash env" and ?k = "block_hash_of (header_hash env) b"
  have inv: "bp_inv ?HB W (pipeline m)" using good by (simp add: bm_good_def)
  have "generation_for_hash (pipeline m) ?k = Some g' \<Longrightarrow> g' = g" for g'
    using good by (force simp: bm_good_def generation_for_hash_def dc_generation_for_def dest: map_of_SomeD)
  then have msg: "handle_message env now g (BlockMessage b) m s = handle_received env now g b m s"
    by (auto simp: handle_message_def hashed_block_from_def split: option.split)
  show ?thesis
  proof (cases "dc_is_in_flight (bp_coordinator (pipeline m)) ?k")
    case False
    then have "handle_received env now g b m s = (Ok [], m, s)"
      by (simp add: handle_received_def receive_unrequested)
    with that [of "[]" m s] False good assms(2) show ?thesis
      by (simp add: msg bm_served_def delivers_none)
  next
    case True
    obtain q where q: "receive_block ?HB now b (pipeline m) = (True, q)" "bp_inv ?HB W q"
      "mset (bp_outstanding ?HB q) = mset (bp_outstanding ?HB (pipeline m))"
      "length (hash_to_height q) < length (hash_to_height (pipeline m))"
      "bp_coordinator q = snd (dc_receive now ?k (bp_coordinator (pipeline m)))"
      by (rule receive_requested [OF inv True])
    have out: "set (bp_outstanding ?HB q) = set (bm_outstanding env m)" using q(3) by (rule mset_eq_setD)
    have "?k \<in> dc_wanted (bp_coordinator (pipeline m))"
      using True by (simp add: dc_is_in_flight_def map_of_eq_None_iff dc_wanted_def)
    then have "?k \<in> K" using good bp_invD(3) [OF inv] by (auto simp: bm_good_def bp_outstanding_def)
    then obtain height where h: "get_header_height_by_hash env ?k = Ok (Some height)" using env by (auto simp: env_ok_def)
    obtain store where st: "store_block env height (hashed_block_from ?HB b) (block_storage m) = (Ok (), store)"
      using env by (metis env_ok_def prod.collapse)
    define m3 where "m3 = m\<lparr>pipeline := q, block_storage := store, bm_progress := add_downloaded now 1 (bm_progress m)\<rparr>"
    have m3: "pipeline m3 = q" by (simp add: m3_def)
    have "\<forall>x\<in>snd ` set (dc_generations (bp_coordinator q)). x = g"
      using good hm_remove_subset [of ?k "dc_generations (bp_coordinator (pipeline m))"]
      by (auto simp: q(5) dc_receive_def bm_good_def)
    then have good3: "bm_good env W K g m3 s" using good q(2) out by (simp add: bm_good_def m3)
    obtain evs m4 where pb: "process_buffered_blocks env now m3 = (evs, m4)" by fastforce
    note p4 = process_buffered_good [OF good3 pb]
    have recv: "handle_received env now g b m s =
        (if has_pending_requests (pipeline m4) then
           case bm_send_pending now g m4 s of (Err e, m5, s') \<Rightarrow> (Err e, m5, s') | (Ok _, m5, s') \<Rightarrow> (Ok evs, m5, s')
         else (Ok evs, m4, s))"
      using q(1) h st pb by (simp add: handle_received_def hashed_block_from_def m3_def)
    have d: "delivers W (bm_outstanding env m) evs (bm_outstanding env m4)"
      using delivers_trans [OF delivers_none p4(3), of "bm_outstanding env m"] q(3) by (simp add: m3)
    have fewer: "bm_awaited m4 < bm_awaited m" using p4(4) q(4) by (simp add: m3)
    obtain m5 s' where m5: "bm_send_pending now g m4 s = (Ok (), m5, s')" "bm_good env W K g m5 s'"
      "bm_outstanding env m5 = bm_outstanding env m4" "hash_to_height (pipeline m5) = hash_to_height (pipeline m4)"
      "bm_settled m5 = bm_settled m4"
      by (rule bm_send_good [OF p4(1)])
    show ?thesis
    proof (cases "has_pending_requests (pipeline m4)")
      case True
      then show ?thesis
        using that [of evs m5 s'] m5 p4 d fewer by (simp add: msg recv bm_served_def)
    next
      case False
      then show ?thesis
        using that [of evs m4 s] p4 d fewer by (simp add: msg recv bm_served_def)
    qed
  qed
qed

lemma bm_good_pipeline:
  assumes "bm_good env W K g m s" and "bp_inv (header_hash env) W (pipeline m')"
    and "bm_outstanding env m' = bm_outstanding env m"
    and "set (dc_generations (bp_coordinator (pipeline m'))) \<subseteq> set (dc_generations (bp_coordinator (pipeline m)))"
  shows "bm_good env W K g m' s"
  using assms by (auto simp: bm_good_def)

text \<open>A tick leaves a request in flight unless everything has been downloaded.\<close>

lemma tick_served:
  assumes "bm_good env W K g m s"
  obtains evs m' s' where "bm_tick env now g m s = (Ok evs, m', s')" "bm_served env W K g m evs m' s'"
    "bp_is_complete (pipeline m') \<or> (\<exists>k. dc_is_in_flight (bp_coordinator (pipeline m')) k)"
proof -
  let ?m = "m\<lparr>pipeline := bp_handle_timeouts now (pipeline m)\<rparr>"
  have inv: "bp_inv (header_hash env) W (pipeline m)" using assms by (simp add: bm_good_def)
  have good: "bm_good env W K g ?m s"
  proof (rule bm_good_pipeline [OF assms])
    show "bp_inv (header_hash env) W (pipeline ?m)" by (simp add: bp_inv_timeouts [OF inv])
    show "bm_outstanding env ?m = bm_outstanding env m" by simp
    show "set (dc_generations (bp_coordinator (pipeline ?m))) \<subseteq> set (dc_generations (bp_coordinator (pipeline m)))"
      using fold_remove_subset
      by (simp add: bp_handle_timeouts_def dc_check_and_retry_timeouts_def dc_check_timeouts_def Let_def)
  qed
  obtain m1 s' where m1: "bm_send_pending now g ?m s = (Ok (), m1, s')" "bm_good env W K g m1 s'"
    "bm_outstanding env m1 = bm_outstanding env ?m" "hash_to_height (pipeline m1) = hash_to_height (pipeline ?m)"
    "dc_available_to_send (bp_coordinator (pipeline m1)) = 0"
    by (rule bm_send_good [OF good])
  obtain evs m2 where pb: "process_buffered_blocks env now m1 = (evs, m2)" by fastforce
  note p2 = process_buffered_good [OF m1(2) pb]
  have inv2: "bp_inv (header_hash env) W (pipeline m2)" using p2(1) by (simp add: bm_good_def)
  have "\<exists>k. dc_is_in_flight (bp_coordinator (pipeline m2)) k" if "\<not> bp_is_complete (pipeline m2)"
  proof -
    have "bm_awaited m2 \<noteq> 0" using bm_awaited_zero [OF p2(1,2)] that by blast
    then have "dc_wanted (bp_coordinator (pipeline m2)) \<noteq> {}" using bp_invD(3) [OF inv2] by simp
    then have "hm_keys (dc_in_flight (bp_coordinator (pipeline m2))) \<noteq> []"
      by (rule dq.not_stuck [OF _ bp_invD(2) [OF inv2]]) (use m1(5) in \<open>simp add: p2(5) dc_available_to_send_def\<close>)
    then show ?thesis
      by (cases "dc_in_flight (bp_coordinator (pipeline m2))") (auto simp: dc_is_in_flight_def split: prod.splits)
  qed
  moreover have "bm_tick env now g m s = (Ok evs, m2, s')" using m1(1) pb by (simp add: bm_tick_def)
  moreover have "bm_served env W K g m evs m2 s'"
    using p2 m1(3,4) by (simp add: bm_served_def bp_handle_timeouts_def)
  ultimately show ?thesis using that by blast
qed

lemma stop_served:
  assumes "bm_good env W K g m s" and "bm_settled m"
  shows "bm_served env W K g m [] (stop_sync now m) s"
proof -
  have inv: "bp_inv (header_hash env) W (pipeline m)" using assms by (simp add: bm_good_def)
  have p: "pipeline (stop_sync now m) = bp_requeue_in_flight (pipeline m)" "bm_state (stop_sync now m) = WaitingForConnections"
    by (simp_all add: stop_sync_def on_disconnect_def bm_state_def set_state_def)
  have "bm_good env W K g (stop_sync now m) s"
    using fold_remove_subset
    by (intro bm_good_pipeline [OF assms(1)]) (simp_all add: p bp_inv_requeue [OF inv], simp add: bp_requeue_in_flight_def dc_requeue_eq)
  then show ?thesis
    using assms(2) by (simp add: bm_served_def bm_settled_def p delivers_none bp_requeue_in_flight_def)
qed

lemma start_served:
  fixes env :: "('w, 'b, 'a) blocks_env"
  assumes "bm_good env W K g m s" and "bm_settled m" and "start_sync now m = (r :: 'a sync_event list sync_result, m')"
  shows "bm_served env W K g m (events_of r) m' s"
proof -
  have p: "pipeline m' = pipeline m" "events_of r = []"
    using assms(3) by (auto simp: start_sync_def events_of_def split: sum.splits if_splits)
  have "bp_is_complete (pipeline m) \<longrightarrow> bm_state m' \<noteq> Syncing"
    using assms(2,3)
    by (auto simp: start_sync_def bm_settled_def bm_state_def set_state_def ensure_not_started_def
        split: sum.splits if_splits)
  then show ?thesis
    using assms by (simp add: bm_served_def bm_settled_def bm_good_def p delivers_none)
qed

section \<open>Queueing the blocks of an event\<close>

abbreviation pair_of :: "filter_match_key \<times> wallet_id set \<Rightarrow> block_hash \<times> u32" where
  "pair_of kw \<equiv> (fmk_hash (fst kw), fmk_height (fst kw))"

text \<open>Keys with distinct hashes and heights, none of them outstanding, each with its wallets.\<close>

definition fresh_keys ::
  "(block_hash \<Rightarrow> wallet_id set) \<Rightarrow> (block_hash \<times> u32) set \<Rightarrow> (filter_match_key \<times> wallet_id set) list \<Rightarrow> bool" where
  "fresh_keys W os blocks \<longleftrightarrow>
     distinct (map (\<lambda>kw. fmk_hash (fst kw)) blocks) \<and> distinct (map (\<lambda>kw. fmk_height (fst kw)) blocks) \<and>
     (\<forall>kw\<in>set blocks. snd kw = W (fmk_hash (fst kw)) \<and> fmk_hash (fst kw) \<notin> fst ` os \<and> fmk_height (fst kw) \<notin> snd ` os)"

lemma fresh_keys_Cons:
  "fresh_keys W os (kw # blocks) \<Longrightarrow> fresh_keys W (insert (pair_of kw) os) blocks"
  "fresh_keys W os (kw # blocks) \<Longrightarrow> fresh_keys W os blocks"
  by (force simp: fresh_keys_def image_iff)+

lemma fresh_keys_filter:
  assumes "fresh_keys W os blocks" and "os' = os \<union> pair_of ` set (filter (Not \<circ> P) blocks)"
  shows "fresh_keys W os' (filter P blocks)"
proof -
  have inj: "x = y" if "x \<in> set blocks" "y \<in> set blocks"
    "fmk_hash (fst x) = fmk_hash (fst y) \<or> fmk_height (fst x) = fmk_height (fst y)" for x y
    using that assms(1) by (auto simp: fresh_keys_def distinct_map inj_on_def)
  have "fmk_hash (fst kw) \<notin> fst ` os' \<and> fmk_height (fst kw) \<notin> snd ` os'" if "kw \<in> set (filter P blocks)" for kw
  proof -
    have "\<forall>x\<in>set (filter (Not \<circ> P) blocks). fmk_hash (fst x) \<noteq> fmk_hash (fst kw) \<and> fmk_height (fst x) \<noteq> fmk_height (fst kw)"
      using that inj [of _ kw] by (metis (mono_tags, lifting) comp_apply mem_Collect_eq set_filter)
    moreover have "fmk_hash (fst kw) \<notin> fst ` os" "fmk_height (fst kw) \<notin> snd ` os"
      using that assms(1) by (simp_all add: fresh_keys_def)
    ultimately show ?thesis unfolding assms(2) image_Un image_image by (simp add: image_iff) metis
  qed
  with assms(1) show ?thesis by (simp add: fresh_keys_def distinct_map_filter)
qed

lemma bp_queue_fresh:
  assumes "bp_inv HB W p" and "fresh_keys W (set (bp_outstanding HB p)) blocks"
  shows "bp_inv HB W (bp_queue blocks p) \<and>
    set (bp_outstanding HB (bp_queue blocks p)) = set (bp_outstanding HB p) \<union> pair_of ` set blocks \<and>
    dc_generations (bp_coordinator (bp_queue blocks p)) = dc_generations (bp_coordinator p)"
  using assms
proof (induction blocks arbitrary: p)
  case (Cons kw blocks)
  obtain key ws where kw: "kw = (key, ws)" by (cases kw)
  have f: "ws = W (fmk_hash key)" "fmk_hash key \<notin> fst ` set (bp_outstanding HB p)"
    "fmk_height key \<notin> snd ` set (bp_outstanding HB p)"
    using Cons.prems(2) by (simp_all add: fresh_keys_def kw)
  note q = bp_queue_one_fresh [OF Cons.prems(1) f(2,3), folded f(1)]
  have "dc_generations (bp_coordinator (bp_queue_one kw p)) = dc_generations (bp_coordinator p)"
    by (simp add: kw bp_queue_one_def Let_def dc_enqueue_eq)
  then show ?case
    using Cons.IH [of "bp_queue_one kw p"] q fresh_keys_Cons(1) [OF Cons.prems(2)] by (simp add: bp_queue_def kw)
qed (simp add: bp_queue_def)

definition is_stored :: "('w, 'b, 'a) blocks_env \<Rightarrow> 'b \<Rightarrow> filter_match_key \<times> wallet_id set \<Rightarrow> bool" where
  "is_stored env store kw \<longleftrightarrow> (\<exists>hb. load_block env store (fmk_height (fst kw)) = Ok (Some hb))"

text \<open>The stored blocks are the blocks of the keys.\<close>

definition stored_ok :: "('w, 'b, 'a) blocks_env \<Rightarrow> 'b \<Rightarrow> (filter_match_key \<times> wallet_id set) list \<Rightarrow> bool" where
  "stored_ok env store blocks \<longleftrightarrow>
     (\<forall>kw\<in>set blocks. \<forall>hb. load_block env store (fmk_height (fst kw)) = Ok (Some hb) \<longrightarrow>
        hb_hash hb = fmk_hash (fst kw) \<and> block_hash_of (header_hash env) (hb_block hb) = fmk_hash (fst kw))"

lemma load_needed_good:
  assumes "bp_inv (header_hash env) W (pipeline m)" and "fresh_keys W (set (bm_outstanding env m)) blocks"
    and "stored_ok env (block_storage m) blocks"
  shows "\<exists>m'. load_needed env now blocks todo m = (Ok (todo @ filter (Not \<circ> is_stored env (block_storage m)) blocks), m') \<and>
    bp_inv (header_hash env) W (pipeline m') \<and>
    set (bm_outstanding env m') = set (bm_outstanding env m) \<union> pair_of ` set (filter (is_stored env (block_storage m)) blocks) \<and>
    bp_coordinator (pipeline m') = bp_coordinator (pipeline m)"
  using assms
proof (induction blocks arbitrary: todo m)
  case (Cons kw blocks)
  obtain key ws where kw: "kw = (key, ws)" by (cases kw)
  have ok: "stored_ok env (block_storage m) blocks" using Cons.prems(3) by (simp add: stored_ok_def)
  show ?case
  proof (cases "is_stored env (block_storage m) kw")
    case True
    then obtain hb where hb: "load_block env (block_storage m) (fmk_height key) = Ok (Some hb)"
      by (auto simp: is_stored_def kw)
    then have h: "hb_hash hb = fmk_hash key" "block_hash_of (header_hash env) (hb_block hb) = fmk_hash key"
      using Cons.prems(3) by (auto simp: stored_ok_def kw)
    let ?m = "m\<lparr>pipeline := bp_add_from_storage (header_hash env) (hb_block hb) (fmk_height key) ws (pipeline m),
                bm_progress := add_from_storage now 1 (bm_progress m)\<rparr>"
    have f: "ws = W (fmk_hash key)" "fmk_hash key \<notin> fst ` set (bm_outstanding env m)"
      "fmk_height key \<notin> snd ` set (bm_outstanding env m)"
      using Cons.prems(2) by (simp_all add: fresh_keys_def kw)
    note q = bp_add_from_storage_fresh [OF Cons.prems(1), of "hb_block hb" "fmk_height key", unfolded h, OF f(2,3), folded f(1)]
    have "bp_coordinator (pipeline ?m) = bp_coordinator (pipeline m)" by (simp add: bp_add_from_storage_def Let_def)
    then show ?thesis
      using Cons.IH [of ?m todo] q fresh_keys_Cons(1) [OF Cons.prems(2)] ok hb h True
      by (auto simp: kw)
  next
    case False
    then show ?thesis
      using Cons.IH [of m "todo @ [kw]"] Cons.prems(1) fresh_keys_Cons(2) [OF Cons.prems(2)] ok
      by (auto simp: kw is_stored_def split: sum.split option.split)
  qed
qed simp

lemma blocks_needed_served:
  assumes inv: "bp_inv (header_hash env) W (pipeline m)" and complete: "bp_is_complete (pipeline m)"
    and s: "rs_closed_after s = None" and ne: "blocks \<noteq> []" and fresh: "fresh_keys W {} blocks"
    and stored: "stored_ok env (block_storage m) blocks" and K: "(\<lambda>kw. fmk_hash (fst kw)) ` set blocks \<subseteq> K"
  obtains os evs m' s' where "handle_sync_event env now g (BlocksNeeded blocks) m s = (Ok evs, m', s')"
    "bm_good env W K g m' s'" "bm_settled m'" "mset os = mset (map pair_of blocks)" "delivers W os evs (bm_outstanding env m')"
proof -
  let ?HB = "header_hash env" and ?st = "is_stored env (block_storage m)"
  have none: "bm_outstanding env m = []" using bp_complete_iff [OF inv] complete by simp
  obtain m1 where m1: "load_needed env now blocks [] m = (Ok (filter (Not \<circ> ?st) blocks), m1)"
    "bp_inv ?HB W (pipeline m1)" "set (bm_outstanding env m1) = pair_of ` set (filter ?st blocks)"
    "bp_coordinator (pipeline m1) = bp_coordinator (pipeline m)"
    using load_needed_good [OF inv _ stored, of now "[]"] fresh by (auto simp: none)
  define m2 where "m2 = m1\<lparr>pipeline := bp_queue (filter (Not \<circ> ?st) blocks) (pipeline m1),
                           bm_progress := set_state now Syncing (bm_progress m1)\<rparr>"
  have p2: "pipeline m2 = bp_queue (filter (Not \<circ> ?st) blocks) (pipeline m1)" by (simp add: m2_def)
  have "fresh_keys W (set (bm_outstanding env m1)) (filter (Not \<circ> ?st) blocks)"
    by (rule fresh_keys_filter [OF fresh]) (auto simp: m1(3))
  note q = bp_queue_fresh [OF m1(2) this, folded p2]
  have out: "set (bm_outstanding env m2) = set (map pair_of blocks)" using q m1(3) by auto
  have inv2: "bp_inv ?HB W (pipeline m2)" using q by blast
  have "distinct (bm_outstanding env m2)" using bp_invD(4) [OF inv2] by (simp add: distinct_map)
  moreover have "distinct (map pair_of blocks)"
    using fresh by (auto simp: fresh_keys_def distinct_map inj_on_def)
  ultimately have ms: "mset (bm_outstanding env m2) = mset (map pair_of blocks)"
    using out set_eq_iff_mset_eq_distinct by blast
  have "dc_in_flight (bp_coordinator (pipeline m)) = []"
    using complete by (simp add: bp_is_complete_def dc_is_empty_def)
  then have "dc_generations (bp_coordinator (pipeline m)) = []"
    using bp_invD(1) [OF inv] by (simp add: dc_exact_def dc_inv_def)
  moreover have "fst ` set (bm_outstanding env m2) \<subseteq> K" unfolding out using K by auto
  ultimately have good2: "bm_good env W K g m2 s" using q m1(4) s by (simp add: bm_good_def)
  have ev: "handle_sync_event env now g (BlocksNeeded blocks) m s =
     (case (if has_pending_requests (pipeline m2) then bm_send_pending now g m2 s else (Ok (), m2, s)) of
        (Err e, m3, s') \<Rightarrow> (Err e, m3, s')
      | (Ok _, m3, s') \<Rightarrow> let (events, m4) = process_buffered_blocks env now m3 in (Ok events, m4, s'))"
    using ne m1(1) by (simp add: handle_sync_event_def handle_blocks_needed_def m2_def Let_def)
  obtain m3 s' where m3: "bm_send_pending now g m2 s = (Ok (), m3, s')" "bm_good env W K g m3 s'"
    "bm_outstanding env m3 = bm_outstanding env m2"
    by (rule bm_send_good [OF good2])
  define m4 s4 where "m4 = (if has_pending_requests (pipeline m2) then m3 else m2)"
    and "s4 = (if has_pending_requests (pipeline m2) then s' else s)"
  have m4: "bm_good env W K g m4 s4" "bm_outstanding env m4 = bm_outstanding env m2"
    using m3 good2 by (simp_all add: m4_def s4_def)
  obtain evs m5 where pb: "process_buffered_blocks env now m4 = (evs, m5)" by fastforce
  note p5 = process_buffered_good [OF m4(1) pb]
  have "handle_sync_event env now g (BlocksNeeded blocks) m s = (Ok evs, m5, s4)"
    using m3(1) pb by (simp add: ev m4_def s4_def split: if_splits)
  then show ?thesis using that [of evs m5 s4 "bm_outstanding env m2"] p5(1-3) ms m4(2) by simp
qed

section \<open>Runs\<close>

text \<open>A number that never grows and shrinks again and again reaches zero.\<close>

lemma eventually_zero:
  fixes f :: "nat \<Rightarrow> nat"
  assumes "\<And>n. f (Suc n) \<le> f n" and "\<And>n. P n \<Longrightarrow> f (Suc n) < f n" and "\<And>n. \<exists>k\<ge>n. f k = 0 \<or> P k"
  shows "\<exists>N. f N = 0"
proof -
  have "\<exists>N. f N = 0" if "f n = v" for n v
    using that
  proof (induction v arbitrary: n rule: less_induct)
    case (less v)
    obtain k where k: "k \<ge> n" "f k = 0 \<or> P k" using assms(3) by blast
    have "f k \<le> f n" using k(1) assms(1) by (rule lift_Suc_antimono_le [rotated])
    show ?case
    proof (cases "f k = 0")
      case False
      then have "f (Suc k) < v" using k(2) assms(2) [of k] \<open>f k \<le> f n\<close> less.prems by simp
      from less.IH [OF this refl] show ?thesis .
    qed blast
  qed
  then show ?thesis by blast
qed


text \<open>
  A run of the manager: network messages, ticks, lost and regained connections, in any order, each
  with a clock reading. The events a handler fails to return are lost.
\<close>

datatype bm_input = Deliver network_message | Tick | Connect | Disconnect

fun bm_step ::
  "('w, 'b, 'a) blocks_env \<Rightarrow> u64 \<Rightarrow> instant \<times> bm_input \<Rightarrow> ('w, 'b) blocks_manager \<Rightarrow> request_sender \<Rightarrow> ('w, 'b, 'a) handled"
where
  "bm_step env g (now, Deliver msg) m s = handle_message env now g msg m s"
| "bm_step env g (now, Tick) m s = bm_tick env now g m s"
| "bm_step env g (now, Connect) m s = (let (r, m') = start_sync now m in (r, m', s))"
| "bm_step env g (now, Disconnect) m s = (Ok [], stop_sync now m, s)"

text \<open>The events and the state after the event \<open>BlocksNeeded\<close> and \<open>n\<close> inputs.\<close>

primrec blocks_run ::
  "('w, 'b, 'a) blocks_env \<Rightarrow> u64 \<Rightarrow> (filter_match_key \<times> wallet_id set) list \<Rightarrow> (nat \<Rightarrow> instant \<times> bm_input) \<Rightarrow>
     ('w, 'b) blocks_manager \<Rightarrow> request_sender \<Rightarrow> nat \<Rightarrow> 'a sync_event list \<times> ('w, 'b) blocks_manager \<times> request_sender"
where
  "blocks_run env g blocks ins m s 0 =
     (let (r, m', s') = handle_sync_event env 0 g (BlocksNeeded blocks) m s in (events_of r, m', s'))"
| "blocks_run env g blocks ins m s (Suc n) =
     (let (evs, m1, s1) = blocks_run env g blocks ins m s n; (r, m2, s2) = bm_step env g (ins n) m1 s1 in
      (evs @ events_of r, m2, s2))"

lemma step_served:
  fixes env :: "('a, 'b, 'c) blocks_env"
  assumes "bm_good env W K g m s" and "bm_settled m" and "env_ok env K"
  shows "\<exists>r m' s'. bm_step env g inp m s = (r, m', s') \<and> bm_served env W K g m (events_of r) m' s' \<and>
    (\<forall>now b. inp = (now, Deliver (BlockMessage b)) \<longrightarrow>
       dc_is_in_flight (bp_coordinator (pipeline m)) (block_hash_of (header_hash env) b) \<longrightarrow> bm_awaited m' < bm_awaited m)"
proof (cases "(env, g, inp, m, s)" rule: bm_step.cases)
  case (1 env' g' now msg m' s')
  show ?thesis
  proof (cases msg)
    case (BlockMessage b)
    obtain evs m1 s1 where "handle_message env now g (BlockMessage b) m s = (Ok evs, m1, s1)"
      "bm_served env W K g m evs m1 s1"
      "dc_is_in_flight (bp_coordinator (pipeline m)) (block_hash_of (header_hash env) b) \<longrightarrow> bm_awaited m1 < bm_awaited m"
      by (rule handle_block_served [where now = now and b = b, OF assms])
    with 1 BlockMessage show ?thesis by (auto simp: events_of_def)
  next
    case OtherMessage
    with 1 assms(1,2) show ?thesis by (auto simp: handle_message_def events_of_def bm_served_def delivers_none)
  qed
next
  case (2 env' g' now m' s')
  obtain evs m1 s1 where "bm_tick env now g m s = (Ok evs, m1, s1)" "bm_served env W K g m evs m1 s1"
    by (rule tick_served [OF assms(1)])
  with 2 show ?thesis by (auto simp: events_of_def)
next
  case (3 env' g' now m' s')
  obtain r :: "'c sync_event list sync_result" and m1 where r: "start_sync now m = (r, m1)" by fastforce
  with 3 start_served [OF assms(1,2) r] show ?thesis by auto
next
  case (4 env' g' now m' s')
  with stop_served [OF assms(1,2), of now] show ?thesis by (auto simp: events_of_def)
qed

abbreviation hashes_of :: "(filter_match_key \<times> wallet_id set) list \<Rightarrow> block_hash set" where
  "hashes_of blocks \<equiv> (\<lambda>kw. fmk_hash (fst kw)) ` set blocks"

text \<open>The start of a run.\<close>

definition run_setup ::
  "('w, 'b, 'a) blocks_env \<Rightarrow> (block_hash \<Rightarrow> wallet_id set) \<Rightarrow> (filter_match_key \<times> wallet_id set) list \<Rightarrow>
     ('w, 'b) blocks_manager \<Rightarrow> request_sender \<Rightarrow> bool" where
  "run_setup env W blocks m s \<longleftrightarrow>
     bp_inv (header_hash env) W (pipeline m) \<and> bp_is_complete (pipeline m) \<and> rs_closed_after s = None \<and>
     blocks \<noteq> [] \<and> fresh_keys W {} blocks \<and> stored_ok env (block_storage m) blocks \<and> env_ok env (hashes_of blocks)"

lemma blocks_run_good:
  assumes "run_setup env W blocks m s"
  shows "\<exists>os evs m' s'. blocks_run env g blocks ins m s n = (evs, m', s') \<and>
    bm_good env W (hashes_of blocks) g m' s' \<and> bm_settled m' \<and>
    mset os = mset (map pair_of blocks) \<and> delivers W os evs (bm_outstanding env m')"
proof (induction n)
  case 0
  obtain os evs m' s' where "handle_sync_event env 0 g (BlocksNeeded blocks) m s = (Ok evs, m', s')"
    "bm_good env W (hashes_of blocks) g m' s'" "bm_settled m'" "mset os = mset (map pair_of blocks)"
    "delivers W os evs (bm_outstanding env m')"
    by (rule blocks_needed_served [where env = env and W = W and m = m and s = s and blocks = blocks
          and K = "hashes_of blocks" and now = 0 and g = g])
      (use assms in \<open>simp_all add: run_setup_def\<close>)
  then show ?case by (auto simp: events_of_def)
next
  case (Suc n)
  then obtain os evs m1 s1 where n: "blocks_run env g blocks ins m s n = (evs, m1, s1)"
    "bm_good env W (hashes_of blocks) g m1 s1" "bm_settled m1"
    "mset os = mset (map pair_of blocks)" "delivers W os evs (bm_outstanding env m1)"
    by blast
  obtain r m2 s2 where st: "bm_step env g (ins n) m1 s1 = (r, m2, s2)"
    "bm_served env W (hashes_of blocks) g m1 (events_of r) m2 s2"
    using step_served [OF n(2,3)] assms unfolding run_setup_def by blast
  have "blocks_run env g blocks ins m s (Suc n) = (evs @ events_of r, m2, s2)" using n(1) st(1) by simp
  with n(4,5) st(2) show ?case unfolding bm_served_def by (blast intro: delivers_trans)
qed

text \<open>The manager after \<open>n\<close> inputs, and whether input \<open>n\<close> answers a request.\<close>

abbreviation run_manager where
  "run_manager env g blocks ins m s n \<equiv> fst (snd (blocks_run env g blocks ins m s n))"

definition answers :: "('w, 'b, 'a) blocks_env \<Rightarrow> ('w, 'b) blocks_manager \<Rightarrow> instant \<times> bm_input \<Rightarrow> bool" where
  "answers env m inp \<longleftrightarrow>
     (\<exists>now b. inp = (now, Deliver (BlockMessage b)) \<and>
        dc_is_in_flight (bp_coordinator (pipeline m)) (block_hash_of (header_hash env) b))"

lemma blocks_run_mono:
  assumes "run_setup env W blocks m s"
  shows "bm_awaited (run_manager env g blocks ins m s (Suc n)) \<le> bm_awaited (run_manager env g blocks ins m s n)"
    and "answers env (run_manager env g blocks ins m s n) (ins n) \<Longrightarrow>
      bm_awaited (run_manager env g blocks ins m s (Suc n)) < bm_awaited (run_manager env g blocks ins m s n)"
proof -
  obtain evs m1 s1 where n: "blocks_run env g blocks ins m s n = (evs, m1, s1)"
    "bm_good env W (hashes_of blocks) g m1 s1" "bm_settled m1" using blocks_run_good [OF assms] by blast
  have "env_ok env (hashes_of blocks)" using assms by (simp add: run_setup_def)
  then obtain r m2 s2 where st: "bm_step env g (ins n) m1 s1 = (r, m2, s2)" "bm_awaited m2 \<le> bm_awaited m1"
    "answers env m1 (ins n) \<longrightarrow> bm_awaited m2 < bm_awaited m1"
    using step_served [OF n(2,3), of "ins n"] unfolding answers_def bm_served_def by blast
  have "run_manager env g blocks ins m s (Suc n) = m2" "run_manager env g blocks ins m s n = m1"
    using n(1) st(1) by simp_all
  then show "bm_awaited (run_manager env g blocks ins m s (Suc n)) \<le> bm_awaited (run_manager env g blocks ins m s n)"
    "answers env (run_manager env g blocks ins m s n) (ins n) \<Longrightarrow>
      bm_awaited (run_manager env g blocks ins m s (Suc n)) < bm_awaited (run_manager env g blocks ins m s n)"
    using st(2,3) by simp_all
qed

lemma blocks_run_antimono:
  assumes "run_setup env W blocks m s" and "n \<le> n'"
  shows "bm_awaited (run_manager env g blocks ins m s n') \<le> bm_awaited (run_manager env g blocks ins m s n)"
  by (rule lift_Suc_antimono_le [of "\<lambda>n. bm_awaited (run_manager env g blocks ins m s n)"])
    (simp_all only: blocks_run_mono(1) [OF assms(1)] assms(2))

lemma blocks_run_complete:
  assumes "run_setup env W blocks m s"
  shows "bp_is_complete (pipeline (run_manager env g blocks ins m s n)) \<longleftrightarrow>
    bm_awaited (run_manager env g blocks ins m s n) = 0"
proof -
  obtain evs m1 s1 where n: "blocks_run env g blocks ins m s n = (evs, m1, s1)"
    "bm_good env W (hashes_of blocks) g m1 s1" "bm_settled m1" using blocks_run_good [OF assms] by blast
  then show ?thesis
    using bm_complete_iff [OF n(2)] bm_awaited_zero [OF n(2,3)] by (auto simp: bp_outstanding_def)
qed

lemma blocks_run_events:
  assumes "run_setup env W blocks m s" and "sorted_wrt (<) (map (\<lambda>kw. fmk_height (fst kw)) blocks)"
    and "bm_awaited (run_manager env g blocks ins m s n) = 0"
  shows "\<exists>evs m' s'. blocks_run env g blocks ins m s n = (evs, m', s') \<and> bp_is_complete (pipeline m') \<and>
    bm_state m' \<noteq> Syncing \<and> map event_entry evs = map (entry_of W \<circ> pair_of) blocks"
proof -
  obtain os evs m1 s1 where n: "blocks_run env g blocks ins m s n = (evs, m1, s1)"
    "bm_good env W (hashes_of blocks) g m1 s1" "bm_settled m1"
    "mset os = mset (map pair_of blocks)" "delivers W os evs (bm_outstanding env m1)"
    using blocks_run_good [OF assms(1)] by blast
  have c: "bp_is_complete (pipeline m1)" using blocks_run_complete [OF assms(1)] assms(3) n(1) by (metis fst_conv snd_conv)
  then have "delivers W os evs []" using n(5) bm_complete_iff [OF n(2)] by simp
  then have "map event_entry evs = map (entry_of W) (map pair_of blocks)"
    by (rule delivers_all [OF _ n(4)]) (use assms(2) in \<open>simp add: comp_def\<close>)
  with n(1,3) c show ?thesis by (simp add: bm_settled_def)
qed

text \<open>Inputs that answer requests again and again until the pipeline is complete.\<close>

definition fair_inputs ::
  "('w, 'b, 'a) blocks_env \<Rightarrow> u64 \<Rightarrow> (filter_match_key \<times> wallet_id set) list \<Rightarrow> (nat \<Rightarrow> instant \<times> bm_input) \<Rightarrow>
     ('w, 'b) blocks_manager \<Rightarrow> request_sender \<Rightarrow> bool" where
  "fair_inputs env g blocks ins m s \<longleftrightarrow>
     (\<forall>n. \<exists>k\<ge>n. bp_is_complete (pipeline (run_manager env g blocks ins m s k)) \<or>
        answers env (run_manager env g blocks ins m s k) (ins k))"

text \<open>
  C3: blocks are downloaded and processed to the end. After the event that asks for blocks with
  distinct hashes and increasing heights, whatever network messages, ticks, disconnects and
  reconnects follow, as long as requests in flight are answered again and again: from some point
  on the pipeline is complete, the manager is not syncing any more, and the events announce
  exactly the blocks asked for, in increasing height, each for the wallets it was asked for. At
  every moment a tick leaves some request in flight unless the pipeline is complete, so there is
  something to answer. The channel stays open, the headers of the blocks are stored, storing a
  block succeeds, and blocks found in storage are the ones asked for.
\<close>

theorem blocks_all_processed:
  assumes "bp_inv (header_hash env) W0 (pipeline m)" and "bp_is_complete (pipeline m)" and "rs_closed_after s = None"
    and "blocks \<noteq> []" and "sorted_wrt (<) (map (\<lambda>kw. fmk_height (fst kw)) blocks)"
    and "distinct (map (\<lambda>kw. fmk_hash (fst kw)) blocks)" and "stored_ok env (block_storage m) blocks"
    and "env_ok env (hashes_of blocks)" and "fair_inputs env g blocks ins m s"
  shows "(\<exists>N. \<forall>n\<ge>N. \<exists>evs m' s'. blocks_run env g blocks ins m s n = (evs, m', s') \<and> bp_is_complete (pipeline m') \<and>
      bm_state m' \<noteq> Syncing \<and>
      map event_entry evs = map (\<lambda>(key, ws). Some (fmk_hash key, fmk_height key, ws)) blocks) \<and>
    (\<forall>n evs m' s' now. blocks_run env g blocks ins m s n = (evs, m', s') \<longrightarrow>
      (\<exists>evs' m'' s''. bm_tick env now g m' s' = (Ok evs', m'', s'') \<and>
         (bp_is_complete (pipeline m'') \<or> (\<exists>k. dc_is_in_flight (bp_coordinator (pipeline m'')) k))))"
proof -
  define W where "W k = the (map_of (map (\<lambda>(key, ws). (fmk_hash key, ws)) blocks) k)" for k
  let ?run = "run_manager env g blocks ins m s"
  have W: "ws = W (fmk_hash key)" if "(key, ws) \<in> set blocks" for key ws
  proof -
    have "map_of (map (\<lambda>(key, ws). (fmk_hash key, ws)) blocks) (fmk_hash key) = Some ws"
      using that assms(6) by (intro map_of_is_SomeI) (force simp: split_beta comp_def)+
    then show ?thesis by (simp add: W_def)
  qed
  then have entries: "map (entry_of W \<circ> pair_of) blocks = map (\<lambda>(key, ws). Some (fmk_hash key, fmk_height key, ws)) blocks"
    by (auto simp: entry_of_def)
  have fresh: "fresh_keys W {} blocks"
    using assms(5,6) W by (auto simp: fresh_keys_def strict_sorted_iff)
  have "bp_inv (header_hash env) W (pipeline m)"
    using assms(1) bp_complete_iff [OF assms(1)] assms(2) by (simp add: bp_inv_def)
  then have init: "run_setup env W blocks m s" using assms(2-4,7,8) fresh by (simp add: run_setup_def)
  have "\<exists>N. bm_awaited (?run N) = 0"
    by (rule eventually_zero [of "\<lambda>n. bm_awaited (?run n)" "\<lambda>n. answers env (?run n) (ins n)"])
      (use blocks_run_mono [OF init] assms(9) in
        \<open>simp_all only: fair_inputs_def blocks_run_complete [OF init] not_False_eq_True simp_thms\<close>)
  then obtain N where "bm_awaited (?run N) = 0" ..
  then have "bm_awaited (?run n) = 0" if "n \<ge> N" for n
    using blocks_run_antimono [OF init that, of g ins] by simp
  note blocks_run_events [OF init assms(5) this, unfolded entries]
  moreover have "\<exists>evs' m'' s''. bm_tick env now g m' s' = (Ok evs', m'', s'') \<and>
         (bp_is_complete (pipeline m'') \<or> (\<exists>k. dc_is_in_flight (bp_coordinator (pipeline m'')) k))"
    if "blocks_run env g blocks ins m s n = (evs, m', s')" for n evs m' s' now
  proof -
    have "bm_good env W (hashes_of blocks) g m' s'" using blocks_run_good [OF init, of g ins n] that by auto
    then obtain evs' m'' s'' where "bm_tick env now g m' s' = (Ok evs', m'', s'')"
      "bp_is_complete (pipeline m'') \<or> (\<exists>k. dc_is_in_flight (bp_coordinator (pipeline m'')) k)"
      by (rule tick_served [where now = now])
    then show ?thesis by blast
  qed
  ultimately show ?thesis by blast
qed

text \<open>A manager that is asked for one block, whose peer sends that block over and over.\<close>

definition sample_env :: "(unit, unit, unit) blocks_env" where
  "sample_env =
     \<lparr>header_hash = (\<lambda>_. [1]), get_header_height_by_hash = (\<lambda>_. Ok (Some 5)), load_block = (\<lambda>_ _. Ok None),
      store_block = (\<lambda>_ _ store. (Ok (), store)),
      process_block_for_wallets = (\<lambda>_ _ _ w. (\<lparr>new_txids = [], existing_txids = [], new_addresses = []\<rparr>, w)),
      last_processed_height = (\<lambda>_. 0)\<rparr>"

definition sample_needed :: "(filter_match_key \<times> wallet_id set) list" where
  "sample_needed = [(\<lparr>fmk_height = 5, fmk_hash = [1]\<rparr>, {[7]})]"

definition sample_channel :: request_sender where
  "sample_channel = \<lparr>rs_sent = [], rs_closed_after = None\<rparr>"

definition sample_inputs :: "nat \<Rightarrow> instant \<times> bm_input" where
  "sample_inputs n = (0, Deliver (BlockMessage sample_block))"

definition sample_manager :: "(unit, unit) blocks_manager" where
  "sample_manager = blocks_manager_new sample_env 0 () ()"

lemma sample_setup: "run_setup sample_env (\<lambda>_. {[7]}) sample_needed sample_manager sample_channel"
  unfolding run_setup_def
  by (simp add: sample_manager_def blocks_manager_new_def bp_inv_new)
    (simp add: sample_channel_def sample_needed_def fresh_keys_def stored_ok_def env_ok_def sample_env_def)

lemmas sample_run_defs = sample_env_def blocks_manager_new_def handle_sync_event_def handle_blocks_needed_def
  bp_queue_def bp_queue_one_def extend_wallets_def bp_new_def bset_insert_def dc_enqueue_def dc_push_back_def dc_new_def
  has_pending_requests_def dc_available_to_send_def with_timeout_def with_max_concurrent_def
  MAX_CONCURRENT_BLOCK_DOWNLOADS_def BLOCKS_PER_REQUEST_def bm_send_pending_def send_pending_with_generation_def
  send_blocks_loop.simps dc_take_pending_def request_blocks_def send_message_def dc_mark_sent_with_generation_def
  process_buffered_blocks_def process_loop.simps take_next_ordered_block_def bp_is_complete_def dc_is_empty_def
  dc_is_in_flight_def Let_def

lemma sample_start:
  "dc_is_in_flight (bp_coordinator (pipeline (run_manager sample_env 7 sample_needed sample_inputs sample_manager sample_channel 0))) [1]"
  "bm_awaited (run_manager sample_env 7 sample_needed sample_inputs sample_manager sample_channel 0) = 1"
  by (simp_all add: sample_manager_def sample_needed_def sample_channel_def sample_run_defs)

lemma sample_fair: "fair_inputs sample_env 7 sample_needed sample_inputs sample_manager sample_channel"
  unfolding fair_inputs_def
proof
  fix n
  let ?run = "run_manager sample_env 7 sample_needed sample_inputs sample_manager sample_channel"
  have "block_hash_of (header_hash sample_env) sample_block = [1]"
    by (simp add: sample_env_def block_hash_of_def block_hash_def)
  then have a: "answers sample_env (?run 0) (sample_inputs 0)"
    using sample_start(1) by (simp add: answers_def sample_inputs_def)
  have "bm_awaited (?run (Suc 0)) = 0"
    using blocks_run_mono(2) [OF sample_setup a] sample_start(2) by simp
  then have "bm_awaited (?run n) = 0" if "n \<noteq> 0" for n
    using blocks_run_antimono [OF sample_setup, of "Suc 0" n 7 sample_inputs] that by simp
  then have "bp_is_complete (pipeline (?run n))" if "n \<noteq> 0" for n
    using that by (simp only: blocks_run_complete [OF sample_setup])
  with a show "\<exists>k\<ge>n. bp_is_complete (pipeline (?run k)) \<or> answers sample_env (?run k) (sample_inputs k)"
    by (cases "n = 0") blast+
qed

lemma blocks_all_processed_witness:
  "\<exists>N. \<forall>n\<ge>N. \<exists>evs m' s'.
     blocks_run sample_env 7 sample_needed sample_inputs sample_manager sample_channel n = (evs, m', s') \<and>
     bp_is_complete (pipeline m') \<and> bm_state m' \<noteq> Syncing \<and>
     map event_entry evs = map (\<lambda>(key, ws). Some (fmk_hash key, fmk_height key, ws)) sample_needed"
  by (rule blocks_all_processed [where ?W0.0 = "\<lambda>_. {[7]}", THEN conjunct1])
    (use sample_setup [unfolded run_setup_def] sample_fair in \<open>simp_all add: sample_needed_def\<close>)

end
