(* ===== verification/Segment_Cache.thy ===== *)
theory Segment_Cache
  imports Consensus
begin

text \<open>
  The segmented store of \<open>src/dash-spv/src/storage/segments.rs\<close>: items are kept by height in
  segments of 50000 slots, at most ten segments are active in memory, changed segments that give
  way to others wait in \<open>evicted\<close>, segments that a truncation drops wait in \<open>to_delete\<close> for the
  removal of their file, and \<open>persist\<close> brings the directory up to date. The theory models the
  segments, the cache and the directory, and shows that the cache refines one function from
  heights to items: eviction, reloading and delayed deletion are never visible in it.

  The directory maps the segment id of a file to its contents. Which files cannot be opened or
  changed is a parameter of the directory. The clock is read once per operation; it only decides
  which segment is evicted. The constant part of an error message is kept.
\<close>

section \<open>Items\<close>

datatype storage_error =
    Corruption string
  | NotFound string
  | WriteFailed string
  | ReadFailed string
  | InvalidArgument string
  | IoError string
  | Serialization string
  | DirectoryLocked string

type_synonym 'a storage_result = "('a, storage_error) result"

text \<open>The trait \<open>Persistable\<close>: \<open>item_eq\<close> is the \<open>PartialEq\<close> of the item type.\<close>

record 'i persistable =
  sentinel :: 'i
  item_eq :: "'i \<Rightarrow> 'i \<Rightarrow> bool"
  item_encode :: "'i \<Rightarrow> (u8 list, enc_error) result"
  item_decode :: "'i decoder"

text \<open>The implementations for filters, byte vectors, and for filter headers, 32-byte hashes.\<close>

definition bytes_item :: "u8 list persistable" where
  "bytes_item = \<lparr>sentinel = [], item_eq = (=), item_encode = (\<lambda>bs. Ok (consensus_encode_with_size bs)),
     item_decode = consensus_decode bytes_decode\<rparr>"

definition filter_header_item :: "u8 list persistable" where
  "filter_header_item = \<lparr>sentinel = replicate 32 0, item_eq = (=), item_encode = (\<lambda>h. Ok (array_encode h)),
     item_decode = read_slice 32\<rparr>"

section \<open>Segments\<close>

datatype segment_state = Clean | Dirty

record 'i segment =
  segment_id :: u32
  seg_items :: "'i list"
  seg_state :: segment_state
  last_accessed :: instant

definition ITEMS_PER_SEGMENT :: u32 where
  "ITEMS_PER_SEGMENT = 50000"

definition resize :: "nat \<Rightarrow> 'a \<Rightarrow> 'a list \<Rightarrow> 'a list" where
  "resize n x xs = take n (xs @ replicate (n - length xs) x)"

definition seg_new :: "'i persistable \<Rightarrow> instant \<Rightarrow> u32 \<Rightarrow> 'i list \<Rightarrow> segment_state \<Rightarrow> 'i segment" where
  "seg_new p now sid xs st =
     \<lparr>segment_id = sid, seg_items = resize (unat ITEMS_PER_SEGMENT) (sentinel p) xs,
      seg_state = st, last_accessed = now\<rparr>"

abbreviation valid_item :: "'i persistable \<Rightarrow> 'i \<Rightarrow> bool" where
  "valid_item p x \<equiv> \<not> item_eq p x (sentinel p)"

definition first_valid_offset :: "'i persistable \<Rightarrow> 'i segment \<Rightarrow> u32 option" where
  "first_valid_offset p s =
     map_option as_u32 (find (\<lambda>i. valid_item p (seg_items s ! i)) [0..<length (seg_items s)])"

definition last_valid_offset :: "'i persistable \<Rightarrow> 'i segment \<Rightarrow> u32 option" where
  "last_valid_offset p s =
     map_option as_u32 (find (\<lambda>i. valid_item p (seg_items s ! i)) (rev [0..<length (seg_items s)]))"

text \<open>The directory of the store.\<close>

record disk =
  dk_files :: "(u32, u8 list) hash_map"
  dk_readable :: "u32 \<Rightarrow> bool"
  dk_writable :: "u32 \<Rightarrow> bool"

text \<open>
  The reading loop of \<open>Segment::load\<close>. Every item takes at least one byte, so one more round than
  there are bytes is enough.
\<close>

fun decode_items :: "'i persistable \<Rightarrow> nat \<Rightarrow> u8 list \<Rightarrow> 'i list storage_result" where
  "decode_items p 0 bs = Ok []"
| "decode_items p (Suc n) bs =
     (case item_decode p bs of
        Ok (x, rest) \<Rightarrow>
          (case decode_items p n rest of
             Ok xs \<Rightarrow> Ok (x # xs)
           | Err e \<Rightarrow> Err e)
      | Err e \<Rightarrow>
          if e = Io_UnexpectedEof then Ok [] else Err (ReadFailed ''Failed to decode item''))"

definition seg_load :: "'i persistable \<Rightarrow> disk \<Rightarrow> instant \<Rightarrow> u32 \<Rightarrow> 'i segment storage_result" where
  "seg_load p d now sid =
     (case hm_get (dk_files d) sid of
        Some bs \<Rightarrow>
          if \<not> dk_readable d sid then Err (IoError ''open'')
          else
            (case decode_items p (Suc (length bs)) bs of
               Err e \<Rightarrow> Err e
             | Ok xs \<Rightarrow> Ok (seg_new p now sid xs Clean))
      | None \<Rightarrow>
          Ok (seg_new p now sid (replicate (unat ITEMS_PER_SEGMENT) (sentinel p)) Dirty))"

fun encode_items :: "'i persistable \<Rightarrow> 'i list \<Rightarrow> u8 list storage_result" where
  "encode_items p [] = Ok []"
| "encode_items p (x # xs) =
     (case item_encode p x of
        Err e \<Rightarrow> Err (WriteFailed ''Failed to encode segment item'')
      | Ok bs \<Rightarrow>
          (case encode_items p xs of
             Err e \<Rightarrow> Err e
           | Ok cs \<Rightarrow> Ok (bs @ cs)))"

text \<open>\<open>Segment::persist\<close> with \<open>atomic_write\<close>: the file is replaced as a whole or not at all.\<close>

definition seg_persist :: "'i persistable \<Rightarrow> disk \<Rightarrow> 'i segment \<Rightarrow> unit storage_result \<times> disk \<times> 'i segment" where
  "seg_persist p d s =
     (if seg_state s = Clean then (Ok (), d, s)
      else
        (case encode_items p (seg_items s) of
           Err e \<Rightarrow> (Err e, d, s)
         | Ok bs \<Rightarrow>
             if \<not> dk_writable d (segment_id s) then (Err (WriteFailed ''Failed to write temp file''), d, s)
             else (Ok (), d\<lparr>dk_files := hm_insert (segment_id s) bs (dk_files d)\<rparr>, s\<lparr>seg_state := Clean\<rparr>)))"

definition reset_above :: "'i persistable \<Rightarrow> instant \<Rightarrow> u32 \<Rightarrow> 'i segment \<Rightarrow> 'i segment" where
  "reset_above p now offset s =
     (let start = unat offset + 1;
          changed = list_ex (valid_item p) (drop start (seg_items s));
          s1 = s\<lparr>seg_items := take start (seg_items s) @
                 map (\<lambda>x. if valid_item p x then sentinel p else x) (drop start (seg_items s))\<rparr>
      in if changed then s1\<lparr>seg_state := Dirty, last_accessed := now\<rparr> else s1)"

definition seg_insert :: "instant \<Rightarrow> 'i \<Rightarrow> u32 \<Rightarrow> 'i segment \<Rightarrow> 'i segment" where
  "seg_insert now x offset s =
     s\<lparr>seg_items := (seg_items s)[unat offset := x], seg_state := Dirty, last_accessed := now\<rparr>"

definition get_single :: "instant \<Rightarrow> u32 \<Rightarrow> 'i segment \<Rightarrow> 'i \<times> 'i segment" where
  "get_single now offset s = (seg_items s ! unat offset, s\<lparr>last_accessed := now\<rparr>)"

text \<open>\<open>None\<close> is the panic of slicing with bounds out of order or out of range.\<close>

definition seg_get :: "instant \<Rightarrow> u32 \<Rightarrow> u32 \<Rightarrow> 'i segment \<Rightarrow> ('i list \<times> 'i segment) option" where
  "seg_get now a b s =
     (if unat a \<le> unat b \<and> unat b \<le> length (seg_items s)
      then Some (take (unat b - unat a) (drop (unat a) (seg_items s)), s\<lparr>last_accessed := now\<rparr>)
      else None)"

section \<open>The cache\<close>

record 'i segment_cache =
  segments :: "(u32, 'i segment) hash_map"
  evicted :: "(u32, 'i segment) hash_map"
  tip_height :: "u32 option"
  start_height :: "u32 option"
  to_delete :: "u32 list"

definition MAX_ACTIVE_SEGMENTS :: nat where
  "MAX_ACTIVE_SEGMENTS = 10"

definition height_to_segment_id :: "u32 \<Rightarrow> u32" where
  "height_to_segment_id h = h div ITEMS_PER_SEGMENT"

definition segment_id_to_start_height :: "u32 \<Rightarrow> u32" where
  "segment_id_to_start_height sid = sid * ITEMS_PER_SEGMENT"

definition height_to_offset :: "u32 \<Rightarrow> u32" where
  "height_to_offset h = h mod ITEMS_PER_SEGMENT"

text \<open>\<open>a..=b\<close>\<close>

definition range_incl :: "u32 \<Rightarrow> u32 \<Rightarrow> u32 list" where
  "range_incl a b = map word_of_nat [unat a..<Suc (unat b)]"

text \<open>\<open>min_by_key\<close>: the first entry with the least time of access.\<close>

fun lru_entry :: "(u32, 'i segment) hash_map \<Rightarrow> (u32 \<times> 'i segment) option" where
  "lru_entry [] = None"
| "lru_entry (e # m) =
     (case lru_entry m of
        None \<Rightarrow> Some e
      | Some e' \<Rightarrow> if last_accessed (snd e) \<le> last_accessed (snd e') then Some e else Some e')"

definition evict_one :: "'i segment_cache \<Rightarrow> 'i segment_cache" where
  "evict_one c =
     (case lru_entry (segments c) of
        None \<Rightarrow> c
      | Some (key, s) \<Rightarrow>
          c\<lparr>segments := hm_remove key (segments c),
            evicted := if seg_state s = Dirty then hm_insert key s (evicted c) else evicted c\<rparr>)"

text \<open>
  \<open>get_segment_mut\<close> makes a segment active and returns a reference to it; here it returns the
  segment and the cache in which it is active. \<open>load_segment\<close> is the part that finds a segment that
  is not active.
\<close>

definition load_segment ::
  "'i persistable \<Rightarrow> disk \<Rightarrow> instant \<Rightarrow> u32 \<Rightarrow> 'i segment_cache \<Rightarrow> 'i segment storage_result \<times> 'i segment_cache"
where
  "load_segment p d now sid c =
     (case hm_get (evicted c) sid of
        Some s \<Rightarrow>
          (Ok s, c\<lparr>evicted := hm_remove sid (evicted c), segments := hm_insert sid s (segments c)\<rparr>)
      | None \<Rightarrow>
          if sid \<in> set (to_delete c) then
            let s = seg_new p now sid [] Dirty in
            (Ok s, c\<lparr>to_delete := removeAll sid (to_delete c), segments := hm_insert sid s (segments c)\<rparr>)
          else
            (case seg_load p d now sid of
               Err e \<Rightarrow> (Err e, c)
             | Ok s \<Rightarrow> (Ok s, c\<lparr>segments := hm_insert sid s (segments c)\<rparr>)))"

definition get_segment_mut ::
  "'i persistable \<Rightarrow> disk \<Rightarrow> instant \<Rightarrow> u32 \<Rightarrow> 'i segment_cache \<Rightarrow> 'i segment storage_result \<times> 'i segment_cache"
where
  "get_segment_mut p d now sid c =
     (case hm_get (segments c) sid of
        Some s \<Rightarrow> (Ok s, c)
      | None \<Rightarrow>
          load_segment p d now sid
            (if MAX_ACTIVE_SEGMENTS \<le> length (segments c) then evict_one c else c))"

definition put_segment :: "u32 \<Rightarrow> 'i segment \<Rightarrow> 'i segment_cache \<Rightarrow> 'i segment_cache" where
  "put_segment sid s c = c\<lparr>segments := hm_insert sid s (segments c)\<rparr>"

text \<open>
  The bounds of the slots of a segment that a range of heights covers: an end height that is a
  multiple of the segment size stands for the end of the last segment.
\<close>

definition slice_start :: "u32 \<Rightarrow> u32 \<Rightarrow> u32" where
  "slice_start start sid = (if sid = height_to_segment_id start then height_to_offset start else 0)"

definition slice_end :: "u32 \<Rightarrow> u32 \<Rightarrow> u32" where
  "slice_end end' sid =
     (let seg_end = (if sid = height_to_segment_id (end' - 1) then height_to_offset end' else ITEMS_PER_SEGMENT)
      in if seg_end = 0 then ITEMS_PER_SEGMENT else seg_end)"

fun get_items_loop ::
  "'i persistable \<Rightarrow> disk \<Rightarrow> instant \<Rightarrow> u32 \<Rightarrow> u32 \<Rightarrow> u32 list \<Rightarrow> 'i list \<Rightarrow> 'i segment_cache \<Rightarrow>
     ('i list storage_result \<times> 'i segment_cache) option"
where
  "get_items_loop p d now start end' [] acc c = Some (Ok acc, c)"
| "get_items_loop p d now start end' (sid # sids) acc c =
     (if sid \<in> set (to_delete c) then Some (Err (InvalidArgument ''queued for deletion''), c)
      else
        (case get_segment_mut p d now sid c of
           (Err e, c1) \<Rightarrow> Some (Err e, c1)
         | (Ok s, c1) \<Rightarrow>
             case seg_get now (slice_start start sid) (slice_end end' sid) s of
               None \<Rightarrow> None
             | Some (xs, s') \<Rightarrow>
                 get_items_loop p d now start end' sids (acc @ xs) (put_segment sid s' c1)))"

definition get_items ::
  "'i persistable \<Rightarrow> disk \<Rightarrow> instant \<Rightarrow> u32 \<Rightarrow> u32 \<Rightarrow> 'i segment_cache \<Rightarrow>
     ('i list storage_result \<times> 'i segment_cache) option"
where
  "get_items p d now start end' c =
     get_items_loop p d now start end'
       (range_incl (height_to_segment_id start) (height_to_segment_id (end' - 1))) [] c"

definition get_item ::
  "'i persistable \<Rightarrow> disk \<Rightarrow> instant \<Rightarrow> u32 \<Rightarrow> 'i segment_cache \<Rightarrow> 'i option storage_result \<times> 'i segment_cache"
where
  "get_item p d now h c =
     (let sid = height_to_segment_id h in
      if sid \<in> set (to_delete c) then (Ok None, c)
      else
        (case get_segment_mut p d now sid c of
           (Err e, c1) \<Rightarrow> (Err e, c1)
         | (Ok s, c1) \<Rightarrow>
             let (x, s') = get_single now (height_to_offset h) s in
             (Ok (if item_eq p x (sentinel p) then None else Some x), put_segment sid s' c1)))"

fun store_loop ::
  "'i persistable \<Rightarrow> disk \<Rightarrow> instant \<Rightarrow> 'i list \<Rightarrow> u32 \<Rightarrow> 'i segment_cache \<Rightarrow> u32 storage_result \<times> 'i segment_cache"
where
  "store_loop p d now [] h c = (Ok h, c)"
| "store_loop p d now (x # xs) h c =
     (let sid = height_to_segment_id h in
      case get_segment_mut p d now sid c of
        (Err e, c1) \<Rightarrow> (Err e, c1)
      | (Ok s, c1) \<Rightarrow>
          store_loop p d now xs (h + 1) (put_segment sid (seg_insert now x (height_to_offset h) s) c1))"

definition store_items_at_height ::
  "'i persistable \<Rightarrow> disk \<Rightarrow> instant \<Rightarrow> 'i list \<Rightarrow> u32 \<Rightarrow> 'i segment_cache \<Rightarrow> unit storage_result \<times> 'i segment_cache"
where
  "store_items_at_height p d now xs start c =
     (if xs = [] then (Ok (), c)
      else
        (case store_loop p d now xs start c of
           (Err e, c1) \<Rightarrow> (Err e, c1)
         | (Ok h, c1) \<Rightarrow>
             (Ok (),
              c1\<lparr>tip_height := Some (case tip_height c1 of Some current \<Rightarrow> max current (h - 1) | None \<Rightarrow> h - 1),
                 start_height := Some (case start_height c1 of Some current \<Rightarrow> min current start | None \<Rightarrow> start)\<rparr>)))"

definition next_height :: "'i segment_cache \<Rightarrow> u32" where
  "next_height c = (case tip_height c of Some h \<Rightarrow> h + 1 | None \<Rightarrow> 0)"

definition store_items ::
  "'i persistable \<Rightarrow> disk \<Rightarrow> instant \<Rightarrow> 'i list \<Rightarrow> 'i segment_cache \<Rightarrow> unit storage_result \<times> 'i segment_cache"
where
  "store_items p d now xs c = store_items_at_height p d now xs (next_height c) c"

definition drop_segment :: "u32 \<Rightarrow> 'i segment_cache \<Rightarrow> 'i segment_cache" where
  "drop_segment sid c =
     c\<lparr>segments := hm_remove sid (segments c), evicted := hm_remove sid (evicted c),
       to_delete := List.insert sid (to_delete c)\<rparr>"

definition sc_truncate_above ::
  "'i persistable \<Rightarrow> disk \<Rightarrow> instant \<Rightarrow> u32 \<Rightarrow> 'i segment_cache \<Rightarrow> unit storage_result \<times> 'i segment_cache"
where
  "sc_truncate_above p d now target c =
     (case tip_height c of
        None \<Rightarrow> (Ok (), c)
      | Some tip \<Rightarrow>
          if tip \<le> target then (Ok (), c)
          else if (case start_height c of Some start \<Rightarrow> target < start | None \<Rightarrow> False)
            then (Err (InvalidArgument ''below start_height''), c)
          else
            let boundary_segment_id = height_to_segment_id target;
                boundary_offset = height_to_offset target;
                max_segment_id = height_to_segment_id tip;
                finish = (\<lambda>c. (Ok (), (fold drop_segment (range_incl (boundary_segment_id + 1) max_segment_id) c)
                                        \<lparr>tip_height := Some target\<rparr>))
            in
            if boundary_offset + 1 < ITEMS_PER_SEGMENT then
              (case get_segment_mut p d now boundary_segment_id c of
                 (Err e, c1) \<Rightarrow> (Err e, c1)
               | (Ok s, c1) \<Rightarrow> finish (put_segment boundary_segment_id (reset_above p now boundary_offset s) c1))
            else finish c)"

definition sc_clear_all :: "'i segment_cache \<Rightarrow> 'i segment_cache" where
  "sc_clear_all c =
     (let ids = (case (start_height c, tip_height c) of
                   (Some start, Some tip) \<Rightarrow> range_incl (height_to_segment_id start) (height_to_segment_id tip)
                 | _ \<Rightarrow> hm_keys (segments c) @ hm_keys (evicted c))
      in (fold drop_segment ids c)\<lparr>tip_height := None, start_height := None\<rparr>)"

section \<open>Persisting and opening\<close>

text \<open>Removing a file that does not exist counts as done.\<close>

fun delete_files :: "disk \<Rightarrow> u32 list \<Rightarrow> disk \<times> u32 list" where
  "delete_files d [] = (d, [])"
| "delete_files d (sid # sids) =
     (if hm_contains (dk_files d) sid \<and> \<not> dk_writable d sid then
        (let (d', failed) = delete_files d sids in (d', sid # failed))
      else delete_files (d\<lparr>dk_files := hm_remove sid (dk_files d)\<rparr>) sids)"

fun persist_all :: "'i persistable \<Rightarrow> disk \<Rightarrow> (u32, 'i segment) hash_map \<Rightarrow> disk \<times> (u32, 'i segment) hash_map" where
  "persist_all p d [] = (d, [])"
| "persist_all p d ((sid, s) # m) =
     (let (_, d1, s1) = seg_persist p d s;
          (d2, m') = persist_all p d1 m
      in (d2, (sid, s1) # m'))"

definition sc_persist :: "'i persistable \<Rightarrow> disk \<Rightarrow> 'i segment_cache \<Rightarrow> disk \<times> 'i segment_cache" where
  "sc_persist p d c =
     (let (d1, failed) = delete_files d (to_delete c);
          (d2, _) = persist_all p d1 (evicted c);
          (d3, segs) = persist_all p d2 (segments c)
      in (d3, c\<lparr>to_delete := failed, evicted := [], segments := segs\<rparr>))"

text \<open>
  \<open>segment_file_name\<close> pads an id to four digits and \<open>load_or_new\<close> reads four digits back, the
  leading four of a longer id.
\<close>

function listed_id :: "u32 \<Rightarrow> u32" where
  "listed_id sid = (if sid < 10000 then sid else listed_id (sid div 10))"
  by auto
termination
proof (relation "measure unat")
  fix sid :: u32
  assume "\<not> sid < 10000"
  then have "10000 \<le> unat sid" by (simp add: word_less_nat_alt)
  then show "(sid div 10, sid) \<in> measure unat" by (simp add: unat_div)
qed simp

declare listed_id.simps [simp del]

text \<open>The search for the last readable segment: those passed over are queued for deletion.\<close>

fun find_max_readable ::
  "'i persistable \<Rightarrow> disk \<Rightarrow> instant \<Rightarrow> u32 list \<Rightarrow> 'i segment_cache \<Rightarrow> u32 option \<times> 'i segment_cache"
where
  "find_max_readable p d now [] c = (None, c)"
| "find_max_readable p d now (sid # sids) c =
     (case get_segment_mut p d now sid c of
        (Ok _, c1) \<Rightarrow> (Some sid, c1)
      | (Err _, c1) \<Rightarrow> find_max_readable p d now sids (c1\<lparr>to_delete := List.insert sid (to_delete c1)\<rparr>))"

fun find_min_readable ::
  "'i persistable \<Rightarrow> disk \<Rightarrow> instant \<Rightarrow> u32 option \<Rightarrow> u32 list \<Rightarrow> 'i segment_cache \<Rightarrow> u32 option \<times> 'i segment_cache"
where
  "find_min_readable p d now mx [] c = (None, c)"
| "find_min_readable p d now mx (sid # sids) c =
     (if (case mx of Some m \<Rightarrow> m < sid | None \<Rightarrow> False) then (None, c)
      else
        (case get_segment_mut p d now sid c of
           (Ok _, c1) \<Rightarrow> (Some sid, c1)
         | (Err _, c1) \<Rightarrow> find_min_readable p d now mx sids c1))"

definition sc_empty :: "'i segment_cache" where
  "sc_empty = \<lparr>segments = [], evicted = [], tip_height = None, start_height = None, to_delete = []\<rparr>"

definition load_or_new :: "'i persistable \<Rightarrow> disk \<Rightarrow> instant \<Rightarrow> 'i segment_cache storage_result" where
  "load_or_new p d now =
     (let ids = sort (map listed_id (hm_keys (dk_files d)));
          (mx, c1) = find_max_readable p d now (rev ids) sc_empty;
          tip = (case mx of
                   None \<Rightarrow> Ok c1
                 | Some sid \<Rightarrow>
                     (case get_segment_mut p d now sid c1 of
                        (Err e, _) \<Rightarrow> Err e
                      | (Ok s, c2) \<Rightarrow>
                          Ok (c2\<lparr>tip_height :=
                            map_option (\<lambda>offset. segment_id_to_start_height sid + offset) (last_valid_offset p s)\<rparr>)))
      in case tip of
           Err e \<Rightarrow> Err e
         | Ok c2 \<Rightarrow>
             (case find_min_readable p d now mx ids c2 of
                (None, c3) \<Rightarrow> Ok c3
              | (Some sid, c3) \<Rightarrow>
                  (case get_segment_mut p d now sid c3 of
                     (Err e, _) \<Rightarrow> Err e
                   | (Ok s, c4) \<Rightarrow>
                       Ok (c4\<lparr>start_height :=
                         map_option (\<lambda>offset. segment_id_to_start_height sid + offset) (first_valid_offset p s)\<rparr>))))"

section \<open>What the cache stands for\<close>

abbreviation seg_len :: nat where
  "seg_len \<equiv> unat ITEMS_PER_SEGMENT"

lemma unat_ips: "seg_len = 50000"
  by (simp add: ITEMS_PER_SEGMENT_def)

definition disk_items :: "'i persistable \<Rightarrow> disk \<Rightarrow> u32 \<Rightarrow> 'i list" where
  "disk_items p d sid =
     (case hm_get (dk_files d) sid of
        None \<Rightarrow> replicate seg_len (sentinel p)
      | Some bs \<Rightarrow>
          (case decode_items p (Suc (length bs)) bs of
             Err _ \<Rightarrow> replicate seg_len (sentinel p)
           | Ok xs \<Rightarrow> resize seg_len (sentinel p) xs))"

definition seg_view :: "'i persistable \<Rightarrow> disk \<Rightarrow> 'i segment_cache \<Rightarrow> u32 \<Rightarrow> 'i list" where
  "seg_view p d c sid =
     (case hm_get (segments c) sid of
        Some s \<Rightarrow> seg_items s
      | None \<Rightarrow>
          (case hm_get (evicted c) sid of
             Some s \<Rightarrow> seg_items s
           | None \<Rightarrow>
               if sid \<in> set (to_delete c) then replicate seg_len (sentinel p) else disk_items p d sid))"

text \<open>The slot of a height, and the item stored there.\<close>

definition sc_raw :: "'i persistable \<Rightarrow> disk \<Rightarrow> 'i segment_cache \<Rightarrow> u32 \<Rightarrow> 'i" where
  "sc_raw p d c h = seg_view p d c (height_to_segment_id h) ! unat (height_to_offset h)"

definition slot :: "'i persistable \<Rightarrow> 'i \<Rightarrow> 'i option" where
  "slot p x = (if item_eq p x (sentinel p) then None else Some x)"

definition sc_view :: "'i persistable \<Rightarrow> disk \<Rightarrow> 'i segment_cache \<Rightarrow> u32 \<Rightarrow> 'i option" where
  "sc_view p d c h = slot p (sc_raw p d c h)"

definition seg_ok :: "u32 \<Rightarrow> 'i segment \<Rightarrow> bool" where
  "seg_ok sid s \<longleftrightarrow> segment_id s = sid \<and> length (seg_items s) = seg_len"

definition active_ok :: "'i persistable \<Rightarrow> disk \<Rightarrow> u32 \<Rightarrow> 'i segment \<Rightarrow> bool" where
  "active_ok p d sid s \<longleftrightarrow> seg_ok sid s \<and> (seg_state s = Clean \<longrightarrow> seg_items s = disk_items p d sid)"

text \<open>
  The invariant: a segment is in one place only, a clean segment agrees with its file, an evicted
  one is dirty, and at most ten segments are active.
\<close>

definition sc_inv :: "'i persistable \<Rightarrow> disk \<Rightarrow> 'i segment_cache \<Rightarrow> bool" where
  "sc_inv p d c \<longleftrightarrow>
     hm_ok (segments c) \<and> hm_ok (evicted c) \<and> length (segments c) \<le> MAX_ACTIVE_SEGMENTS \<and>
     (\<forall>sid s. hm_get (segments c) sid = Some s \<longrightarrow>
        active_ok p d sid s \<and> sid \<notin> set (to_delete c) \<and> hm_get (evicted c) sid = None) \<and>
     (\<forall>sid s. hm_get (evicted c) sid = Some s \<longrightarrow>
        seg_ok sid s \<and> sid \<notin> set (to_delete c) \<and> seg_state s = Dirty)"

lemma seg_view_heights [simp]:
  "seg_view p d (c\<lparr>tip_height := t\<rparr>) = seg_view p d c"
  "seg_view p d (c\<lparr>start_height := t\<rparr>) = seg_view p d c"
  by (auto simp: seg_view_def fun_eq_iff split: option.split)

lemma sc_inv_heights [simp]:
  "sc_inv p d (c\<lparr>tip_height := t\<rparr>) = sc_inv p d c"
  "sc_inv p d (c\<lparr>start_height := t\<rparr>) = sc_inv p d c"
  by (simp_all add: sc_inv_def)

section \<open>Making a segment active\<close>

declare map_of_eq_Some_iff [simp del]

lemma length_resize [simp]: "length (resize n x xs) = n"
  by (simp add: resize_def)

lemma resize_full [simp]: "length xs = n \<Longrightarrow> resize n x xs = xs"
  by (simp add: resize_def)

lemma resize_Nil [simp]: "resize n x [] = replicate n x"
  by (simp add: resize_def)

lemma length_disk_items [simp]: "length (disk_items p d sid) = seg_len"
  by (simp add: disk_items_def split: option.split sum.split)

lemma length_seg_view: "sc_inv p d c \<Longrightarrow> length (seg_view p d c sid) = seg_len"
  by (auto simp: seg_view_def sc_inv_def active_ok_def seg_ok_def split: option.split)

lemma seg_load_Ok: "seg_load p d now sid = Ok s \<Longrightarrow> active_ok p d sid s \<and> seg_items s = disk_items p d sid"
  by (auto simp: seg_load_def active_ok_def seg_ok_def disk_items_def seg_new_def
      split: option.splits if_splits sum.splits)

lemma lru_entry_in: "lru_entry m = Some e \<Longrightarrow> e \<in> set m"
  by (induction m arbitrary: e) (auto split: option.splits if_splits)

lemma lru_entry_None: "lru_entry m = None \<longleftrightarrow> m = []"
  by (cases m) (auto split: option.splits)

lemma evict_one_spec:
  assumes inv: "sc_inv p d c" and full: "segments c \<noteq> []"
  shows "sc_inv p d (evict_one c)" "seg_view p d (evict_one c) = seg_view p d c"
    "Suc (length (segments (evict_one c))) = length (segments c)"
    "to_delete (evict_one c) = to_delete c" "tip_height (evict_one c) = tip_height c"
    "start_height (evict_one c) = start_height c"
    "hm_get (segments c) sid = None \<Longrightarrow> hm_get (segments (evict_one c)) sid = None"
proof -
  obtain k s where e: "lru_entry (segments c) = Some (k, s)"
    using full lru_entry_None [of "segments c"] by (metis option.exhaust surj_pair)
  have hm: "hm_ok (segments c)" "hm_ok (evicted c)" using inv by (auto simp: sc_inv_def)
  have ks: "hm_get (segments c) k = Some s" using lru_entry_in [OF e] hm by (simp add: map_of_eq_Some_iff)
  have act: "active_ok p d k s" "k \<notin> set (to_delete c)" "hm_get (evicted c) k = None"
    using inv ks by (auto simp: sc_inv_def)
  have eq: "evict_one c = c\<lparr>segments := hm_remove k (segments c),
      evicted := if seg_state s = Dirty then hm_insert k s (evicted c) else evicted c\<rparr>"
    by (simp add: evict_one_def e)
  show len: "Suc (length (segments (evict_one c))) = length (segments c)"
    using hm ks by (simp add: eq hm_length_remove)
  show "sc_inv p d (evict_one c)"
    using inv act len hm unfolding sc_inv_def
    by (auto simp: eq delete_conv' update_conv' active_ok_def distinct_delete distinct_update
        split: if_splits)
  show "seg_view p d (evict_one c) = seg_view p d c"
  proof
    fix sid
    show "seg_view p d (evict_one c) sid = seg_view p d c sid"
    proof (cases "sid = k")
      case True
      show ?thesis
        using act ks by (cases "seg_state s") (auto simp: True seg_view_def eq delete_conv' update_conv' active_ok_def)
    qed (auto simp: seg_view_def eq delete_conv' update_conv' split: option.split)
  qed
qed (auto simp: evict_one_def delete_conv' split: option.splits)

lemma activate_spec:
  assumes inv: "sc_inv p d c" and room: "length (segments c) < MAX_ACTIVE_SEGMENTS"
    and s: "active_ok p d sid s" "seg_items s = seg_view p d c sid"
    and new: "hm_get (segments c) sid = None"
    and c': "c' = c\<lparr>evicted := hm_remove sid (evicted c), to_delete := removeAll sid (to_delete c),
      segments := hm_insert sid s (segments c)\<rparr>"
  shows "sc_inv p d c' \<and> seg_view p d c' = seg_view p d c"
proof
  have "length (hm_insert sid s (segments c)) = Suc (length (segments c))"
    using new by (simp add: hm_length_insert)
  then show "sc_inv p d c'"
    using inv s room unfolding sc_inv_def
    by (auto simp: c' delete_conv' update_conv' distinct_delete distinct_update split: if_splits)
  show "seg_view p d c' = seg_view p d c"
  proof
    fix k
    show "seg_view p d c' k = seg_view p d c k"
    proof (cases "k = sid")
      case True
      then show ?thesis using s by (simp add: c' seg_view_def [of p d "c\<lparr>evicted := E, to_delete := D, segments := S\<rparr>" for E D S] update_conv')
    qed (auto simp: seg_view_def c' delete_conv' update_conv' split: option.split)
  qed
qed

lemma get_segment_mut_spec:
  assumes inv: "sc_inv p d c" and get: "get_segment_mut p d now sid c = (r, c')"
  shows "sc_inv p d c'" "seg_view p d c' = seg_view p d c" "tip_height c' = tip_height c"
    "start_height c' = start_height c" "set (to_delete c') \<subseteq> set (to_delete c)"
    "r = Ok s \<Longrightarrow> hm_get (segments c') sid = Some s \<and> active_ok p d sid s \<and> seg_items s = seg_view p d c sid"
proof -
  have *: "sc_inv p d c' \<and> seg_view p d c' = seg_view p d c \<and> tip_height c' = tip_height c \<and>
    start_height c' = start_height c \<and> set (to_delete c') \<subseteq> set (to_delete c) \<and>
    (\<forall>s. r = Ok s \<longrightarrow> hm_get (segments c') sid = Some s \<and> active_ok p d sid s \<and> seg_items s = seg_view p d c sid)"
  proof (cases "hm_get (segments c) sid")
    case (Some s)
    then show ?thesis using get inv by (auto simp: get_segment_mut_def seg_view_def sc_inv_def)
  next
    case None
    define c1 where "c1 = (if MAX_ACTIVE_SEGMENTS \<le> length (segments c) then evict_one c else c)"
    have ne: "MAX_ACTIVE_SEGMENTS \<le> length (segments c) \<Longrightarrow> segments c \<noteq> []"
      by (auto simp: MAX_ACTIVE_SEGMENTS_def)
    have c1: "sc_inv p d c1" "seg_view p d c1 = seg_view p d c" "tip_height c1 = tip_height c"
      "start_height c1 = start_height c" "to_delete c1 = to_delete c" "hm_get (segments c1) sid = None"
      using evict_one_spec [OF inv ne] inv None by (auto simp: c1_def)
    have room: "length (segments c1) < MAX_ACTIVE_SEGMENTS"
      using evict_one_spec(3) [OF inv ne] inv by (auto simp: c1_def sc_inv_def)
    have no_ev: "hm_get (evicted c1) sid = None \<Longrightarrow> hm_remove sid (evicted c1) = evicted c1"
      by (simp add: delete_id map_of_eq_None_iff dom_map_of_conv_image_fst)
    have act: ?thesis if s: "active_ok p d sid s" "seg_items s = seg_view p d c1 sid"
      and eq: "r = Ok s" "c' = c1\<lparr>evicted := hm_remove sid (evicted c1), to_delete := removeAll sid (to_delete c1),
        segments := hm_insert sid s (segments c1)\<rparr>" for s
      using activate_spec [OF c1(1) room s c1(6) eq(2)] c1 s eq by (auto simp: update_conv')
    have get': "load_segment p d now sid c1 = (r, c')"
      using get None by (simp add: get_segment_mut_def c1_def)
    note get' = get' [unfolded load_segment_def]
    show ?thesis
    proof (cases "hm_get (evicted c1) sid")
      case (Some s)
      have k: "active_ok p d sid s" "sid \<notin> set (to_delete c1)"
        using c1(1) Some by (auto simp: sc_inv_def active_ok_def)
      show ?thesis
        by (rule act [OF k(1)]) (use Some get' k c1(6) in \<open>simp_all add: seg_view_def removeAll_id\<close>)
    next
      case ev: None
      show ?thesis
      proof (cases "sid \<in> set (to_delete c1)")
        case True
        show ?thesis
          by (rule act [of "seg_new p now sid [] Dirty"])
            (use True get' ev c1(6) no_ev in
              \<open>simp_all add: seg_view_def active_ok_def seg_ok_def seg_new_def Let_def\<close>)
      next
        case False
        show ?thesis
        proof (cases "seg_load p d now sid")
          case (Inl e)
          then show ?thesis using get' ev False c1 by auto
        next
          case (Inr s)
          show ?thesis
            by (rule act [of s])
              (use seg_load_Ok [OF Inr] Inr False get' ev c1(6) no_ev in
                \<open>simp_all add: seg_view_def removeAll_id\<close>)
        qed
      qed
    qed
  qed
  then show "sc_inv p d c'" "seg_view p d c' = seg_view p d c" "tip_height c' = tip_height c"
    "start_height c' = start_height c" "set (to_delete c') \<subseteq> set (to_delete c)"
    "r = Ok s \<Longrightarrow> hm_get (segments c') sid = Some s \<and> active_ok p d sid s \<and> seg_items s = seg_view p d c sid"
    by blast+
qed

lemma put_segment_spec:
  assumes inv: "sc_inv p d c" and old: "hm_get (segments c) sid = Some s0" and s: "active_ok p d sid s"
  shows "sc_inv p d (put_segment sid s c)" "seg_view p d (put_segment sid s c) = (seg_view p d c)(sid := seg_items s)"
    "tip_height (put_segment sid s c) = tip_height c" "start_height (put_segment sid s c) = start_height c"
    "to_delete (put_segment sid s c) = to_delete c"
proof -
  have "length (hm_insert sid s (segments c)) = length (segments c)"
    using old by (simp add: hm_length_insert)
  then show "sc_inv p d (put_segment sid s c)"
    using inv old s unfolding sc_inv_def
    by (auto simp: put_segment_def update_conv' distinct_update split: if_splits)
  show "seg_view p d (put_segment sid s c) = (seg_view p d c)(sid := seg_items s)"
    by (auto simp: fun_eq_iff put_segment_def seg_view_def update_conv' split: option.split)
qed (simp_all add: put_segment_def)

section \<open>Heights, segments and offsets\<close>

lemma unat_segment_id: "unat (height_to_segment_id h) = unat h div seg_len"
  by (simp add: height_to_segment_id_def unat_div)

lemma unat_offset: "unat (height_to_offset h) = unat h mod seg_len"
  by (simp add: height_to_offset_def unat_mod)

lemma offset_less [simp]: "unat (height_to_offset h) < seg_len"
  by (simp add: unat_offset unat_ips)

lemma height_eq_iff:
  "h = k \<longleftrightarrow> height_to_segment_id h = height_to_segment_id k \<and> height_to_offset h = height_to_offset k"
proof
  assume "height_to_segment_id h = height_to_segment_id k \<and> height_to_offset h = height_to_offset k"
  then have "unat h div seg_len = unat k div seg_len" "unat h mod seg_len = unat k mod seg_len"
    by (metis unat_segment_id, metis unat_offset)
  then have "unat h = unat k" by (metis div_mult_mod_eq)
  then show "h = k" by (rule word_unat_eq_iff [THEN iffD2])
qed simp

lemma unat_u32_of_nat: "n < 2 ^ 32 \<Longrightarrow> unat (as_u32 n) = n"
  by (simp add: unat_of_nat take_bit_nat_eq_self)

lemma unat_u32_less: "unat (h :: u32) < 2 ^ 32"
  using unsigned_less [of h] by simp

lemma set_range_incl: "sid \<in> set (range_incl a b) \<longleftrightarrow> a \<le> sid \<and> sid \<le> b"
proof
  assume "a \<le> sid \<and> sid \<le> b"
  then have "unat sid \<in> set [unat a..<Suc (unat b)]" by (auto simp: word_le_nat_alt)
  then have "word_of_nat (unat sid) \<in> set (range_incl a b)" by (simp only: range_incl_def set_map) blast
  then show "sid \<in> set (range_incl a b)" by simp
next
  assume "sid \<in> set (range_incl a b)"
  then obtain n where n: "sid = word_of_nat n" "unat a \<le> n" "n \<le> unat b" by (auto simp: range_incl_def)
  then have "unat sid = n" using unat_u32_less [of b] by (simp add: unat_u32_of_nat)
  then show "a \<le> sid \<and> sid \<le> b" using n by (simp add: word_le_nat_alt)
qed

lemma segment_id_mono: "h \<le> k \<Longrightarrow> height_to_segment_id h \<le> height_to_segment_id k"
  by (simp add: word_le_nat_alt unat_segment_id div_le_mono)

section \<open>Reading and writing single slots\<close>

lemma get_single_active: "active_ok p d sid s \<Longrightarrow> active_ok p d sid (s\<lparr>last_accessed := now\<rparr>)"
  by (simp add: active_ok_def seg_ok_def)

lemma touch_spec:
  assumes inv: "sc_inv p d c" and get: "get_segment_mut p d now sid c = (Ok s, c1)"
  defines "c2 \<equiv> put_segment sid (s\<lparr>last_accessed := now\<rparr>) c1"
  shows "sc_inv p d c2" "seg_view p d c2 = seg_view p d c" "tip_height c2 = tip_height c"
    "start_height c2 = start_height c" "set (to_delete c2) \<subseteq> set (to_delete c)"
proof -
  note spec = get_segment_mut_spec [OF inv get]
  note s = spec(6) [OF refl]
  note put = put_segment_spec [OF spec(1) s [THEN conjunct1] get_single_active [OF s [THEN conjunct2, THEN conjunct1]]]
  show "sc_inv p d c2" unfolding c2_def by (rule put(1))
  show "seg_view p d c2 = seg_view p d c" unfolding c2_def put(2) by (simp add: s spec(2))
  show "tip_height c2 = tip_height c" "start_height c2 = start_height c" "set (to_delete c2) \<subseteq> set (to_delete c)"
    unfolding c2_def put(3,4,5) by (fact spec(3), fact spec(4), fact spec(5))
qed

lemma get_item_spec:
  assumes inv: "sc_inv p d c" and get: "get_item p d now h c = (r, c')"
    and refl: "item_eq p (sentinel p) (sentinel p)"
  shows "sc_inv p d c'" "seg_view p d c' = seg_view p d c" "tip_height c' = tip_height c"
    "start_height c' = start_height c" "set (to_delete c') \<subseteq> set (to_delete c)"
    "r = Ok x \<Longrightarrow> x = sc_view p d c h"
proof -
  let ?sid = "height_to_segment_id h"
  have "sc_inv p d c' \<and> seg_view p d c' = seg_view p d c \<and> tip_height c' = tip_height c \<and>
    start_height c' = start_height c \<and> set (to_delete c') \<subseteq> set (to_delete c) \<and>
    (r = Ok x \<longrightarrow> x = sc_view p d c h)" (is ?P)
  proof (cases "?sid \<in> set (to_delete c)")
    case True
    then have "seg_view p d c ?sid = replicate seg_len (sentinel p)"
      using inv by (auto simp: seg_view_def sc_inv_def split: option.split)
    then have "sc_view p d c h = None" using refl by (simp add: sc_view_def sc_raw_def slot_def)
    then show ?thesis using get inv True by (auto simp: get_item_def Let_def)
  next
    case False
    obtain q c1 where g: "get_segment_mut p d now ?sid c = (q, c1)" by fastforce
    note spec = get_segment_mut_spec [OF inv g]
    show ?thesis
    proof (cases q)
      case (Inl e)
      then show ?thesis using get g False spec by (auto simp: get_item_def Let_def)
    next
      case (Inr s)
      note s = spec(6) [OF Inr]
      have c': "c' = put_segment ?sid (s\<lparr>last_accessed := now\<rparr>) c1"
        and r: "r = Ok (slot p (seg_items s ! unat (height_to_offset h)))"
        using get g Inr False by (auto simp: get_item_def get_single_def slot_def Let_def)
      show ?thesis
        using touch_spec [OF inv, of now ?sid s c1] g Inr s r by (simp add: c' sc_view_def sc_raw_def)
    qed
  qed
  then show "sc_inv p d c'" "seg_view p d c' = seg_view p d c" "tip_height c' = tip_height c"
    "start_height c' = start_height c" "set (to_delete c') \<subseteq> set (to_delete c)"
    "r = Ok x \<Longrightarrow> x = sc_view p d c h"
    by blast+
qed

lemma seg_insert_active:
  "active_ok p d sid s \<Longrightarrow> active_ok p d sid (seg_insert now x offset s)"
  by (simp add: active_ok_def seg_ok_def seg_insert_def)

lemma insert_raw:
  assumes "seg_view p d c' = (seg_view p d c)(height_to_segment_id h := (seg_view p d c (height_to_segment_id h))[unat (height_to_offset h) := x])"
    and "sc_inv p d c"
  shows "sc_raw p d c' = (sc_raw p d c)(h := x)"
proof
  fix k
  show "sc_raw p d c' k = ((sc_raw p d c)(h := x)) k"
    using assms(1) height_eq_iff [of k h] word_unat_eq_iff [of "height_to_offset h" "height_to_offset k"]
      length_seg_view [OF assms(2), of "height_to_segment_id h"]
    by (auto simp: sc_raw_def nth_list_update)
qed

lemma store_loop_spec:
  assumes "sc_inv p d c" "store_loop p d now xs h c = (r, c')" "unat h + length xs \<le> 2 ^ 32"
  shows "sc_inv p d c' \<and> tip_height c' = tip_height c \<and> start_height c' = start_height c \<and>
    set (to_delete c') \<subseteq> set (to_delete c) \<and>
    (\<forall>h'. r = Ok h' \<longrightarrow> h' = h + word_of_nat (length xs) \<and>
       (\<forall>k. sc_raw p d c' k =
          (if unat h \<le> unat k \<and> unat k < unat h + length xs then xs ! (unat k - unat h) else sc_raw p d c k)))"
  using assms
proof (induction xs arbitrary: h c)
  case Nil
  then show ?case by auto
next
  case (Cons x xs)
  let ?sid = "height_to_segment_id h"
  obtain q c1 where g: "get_segment_mut p d now ?sid c = (q, c1)" by fastforce
  note spec = get_segment_mut_spec [OF Cons.prems(1) g]
  show ?case
  proof (cases q)
    case (Inl e)
    then show ?thesis using Cons.prems g spec by (auto simp: Let_def)
  next
    case (Inr s)
    note s = spec(6) [OF Inr]
    define c2 where "c2 = put_segment ?sid (seg_insert now x (height_to_offset h) s) c1"
    note put = put_segment_spec [OF spec(1) _ seg_insert_active, of ?sid s s now x "height_to_offset h", folded c2_def]
    have c2: "sc_inv p d c2" "tip_height c2 = tip_height c" "start_height c2 = start_height c"
      "set (to_delete c2) \<subseteq> set (to_delete c)"
      using put s spec by auto
    have raw: "sc_raw p d c2 = (sc_raw p d c)(h := x)"
      by (rule insert_raw [OF _ Cons.prems(1)]) (use put(2) s spec(2) in \<open>simp add: seg_insert_def\<close>)
    have loop: "store_loop p d now xs (h + 1) c2 = (r, c')"
      using Cons.prems(2) g Inr by (simp add: c2_def Let_def)
    show ?thesis
    proof (cases xs)
      case Nil
      then show ?thesis using loop c2 raw by (auto simp: word_unat_eq_iff le_less_Suc_eq)
    next
      case (Cons y ys)
      then have "unat h + 1 < 2 ^ 32" using \<open>unat h + length (x # xs) \<le> 2 ^ 32\<close> by simp
      then have h1: "unat (h + 1) = unat h + 1" by (simp add: unat_word_ariths)
      have IH: "sc_inv p d c' \<and> tip_height c' = tip_height c2 \<and> start_height c' = start_height c2 \<and>
        set (to_delete c') \<subseteq> set (to_delete c2) \<and>
        (\<forall>h'. r = Ok h' \<longrightarrow> h' = (h + 1) + word_of_nat (length xs) \<and>
         (\<forall>k. sc_raw p d c' k =
          (if unat (h + 1) \<le> unat k \<and> unat k < unat (h + 1) + length xs then xs ! (unat k - unat (h + 1)) else sc_raw p d c2 k)))"
        by (rule Cons.IH [OF c2(1) loop]) (use Cons.prems(3) h1 in simp)
      moreover have "(if unat (h + 1) \<le> unat k \<and> unat k < unat (h + 1) + length xs then xs ! (unat k - unat (h + 1)) else sc_raw p d c2 k)
        = (if unat h \<le> unat k \<and> unat k < unat h + length (x # xs) then (x # xs) ! (unat k - unat h) else sc_raw p d c k)" for k
        by (auto simp: h1 raw word_unat_eq_iff nth_Cons' not_le less_Suc_eq)
      ultimately show ?thesis using c2 by (auto simp: algebra_simps)
    qed
  qed
qed

definition disk_ok :: "'i persistable \<Rightarrow> disk \<Rightarrow> bool" where
  "disk_ok p d \<longleftrightarrow> (\<forall>sid bs. hm_get (dk_files d) sid = Some bs \<longrightarrow>
     dk_readable d sid \<and> (\<exists>xs. decode_items p (Suc (length bs)) bs = Ok xs))"

lemma get_segment_mut_Ok:
  assumes "disk_ok p d"
  shows "\<exists>s c'. get_segment_mut p d now sid c = (Ok s, c')"
proof -
  have "\<exists>s. seg_load p d now sid = Ok s"
    using assms by (fastforce simp: seg_load_def disk_ok_def split: option.split)
  then show ?thesis by (auto simp: get_segment_mut_def load_segment_def Let_def split: option.split)
qed

lemma slice_raw:
  assumes inv: "sc_inv p d c" and ab: "a \<le> b" "b \<le> seg_len" "i * seg_len + b \<le> 2 ^ 32"
  shows "take (b - a) (drop a (seg_view p d c (as_u32 i))) =
    map (\<lambda>h. sc_raw p d c (as_u32 h)) [i * seg_len + a..<i * seg_len + b]"
proof (rule nth_equalityI)
  show "length (take (b - a) (drop a (seg_view p d c (as_u32 i)))) =
    length (map (\<lambda>h. sc_raw p d c (as_u32 h)) [i * seg_len + a..<i * seg_len + b])"
    using ab by (simp add: length_seg_view [OF inv])
  fix j
  assume "j < length (take (b - a) (drop a (seg_view p d c (as_u32 i))))"
  then have j: "a + j < b" by (simp add: less_diff_conv add.commute)
  let ?h = "i * seg_len + (a + j)"
  have "?h < 2 ^ 32" using j ab by simp
  then have h: "unat (as_u32 ?h) = ?h" by (rule unat_u32_of_nat)
  have "unat (height_to_segment_id (as_u32 ?h)) = i" "unat (height_to_offset (as_u32 ?h)) = a + j"
    unfolding unat_segment_id unat_offset h using j ab by simp_all
  moreover have "height_to_segment_id (as_u32 ?h) = as_u32 (unat (height_to_segment_id (as_u32 ?h)))" by simp
  ultimately have "height_to_segment_id (as_u32 ?h) = as_u32 i" "unat (height_to_offset (as_u32 ?h)) = a + j"
    by simp_all
  then show "take (b - a) (drop a (seg_view p d c (as_u32 i))) ! j =
    map (\<lambda>h. sc_raw p d c (as_u32 h)) [i * seg_len + a..<i * seg_len + b] ! j"
    using j ab by (simp add: sc_raw_def length_seg_view [OF inv] add.assoc)
qed

text \<open>The bounds of the part of segment \<open>i\<close> that a range of heights covers.\<close>

lemma slice_bounds:
  fixes n :: nat
  assumes n: "0 < n" and se: "s < e" and i: "s div n \<le> i" "i \<le> (e - 1) div n"
  defines "a \<equiv> (if i = s div n then s mod n else 0)"
    and "b \<equiv> (if i = (e - 1) div n then (if e mod n = 0 then n else e mod n) else n)"
  shows "a \<le> b" "b \<le> n" "i * n + a = max s (i * n)" "i * n + b = min e (Suc i * n)" "i * n + a \<le> i * n + b"
proof -
  have e1: "e = Suc (e - 1)" using se by simp
  have s: "s div n * n + s mod n = s" by simp
  have lo: "i * n + a = max s (i * n)"
  proof (cases "i = s div n")
    case False
    then have "Suc (s div n) \<le> i" using i by simp
    then have "Suc (s div n) * n \<le> i * n" by (rule mult_le_mono1)
    moreover have "s < Suc (s div n) * n" using n by (simp add: dividend_less_div_times)
    ultimately show ?thesis using False by (simp add: a_def)
  qed (simp add: a_def)
  have hi: "i * n + b = min e (Suc i * n)"
  proof (cases "i = (e - 1) div n")
    case True
    have b: "b = Suc ((e - 1) mod n)"
    proof -
      have "e mod n = (if Suc ((e - 1) mod n) = n then 0 else Suc ((e - 1) mod n))"
        by (subst e1) (rule mod_Suc)
      then show ?thesis using True by (auto simp: b_def)
    qed
    have "Suc ((e - 1) mod n) \<le> n" using n by (simp add: Suc_le_eq)
    moreover have "i * n + Suc ((e - 1) mod n) = e" unfolding True using se by (simp add: div_mult_mod_eq)
    ultimately show ?thesis unfolding b by simp
  next
    case False
    then have "Suc i \<le> (e - 1) div n" using i by simp
    then have "Suc i * n \<le> (e - 1) div n * n" by (rule mult_le_mono1)
    also have "\<dots> \<le> e - 1" by simp
    finally show ?thesis using False by (simp add: b_def)
  qed
  have "i * n \<le> (e - 1) div n * n" using i by simp
  also have "\<dots> \<le> e - 1" by simp
  finally have "i * n < e" using se by simp
  moreover have "s < Suc i * n"
    using i n by (metis div_less_iff_less_mult le_imp_less_Suc)
  ultimately have "max s (i * n) \<le> min e (Suc i * n)" using se n by simp
  then show "i * n + a \<le> i * n + b" by (simp only: lo hi)
  then show "a \<le> b" by simp
  show "b \<le> n" using n by (auto simp: b_def intro: less_imp_le)
  show "i * n + a = max s (i * n)" "i * n + b = min e (Suc i * n)" by (fact lo, fact hi)
qed

lemma get_items_loop_spec:
  assumes "sc_inv p d c" and "disk_ok p d" and se: "start < end'"
    and "unat (height_to_segment_id start) \<le> i" "sids = map word_of_nat [i..<Suc (unat (height_to_segment_id (end' - 1)))]"
    and "\<forall>sid \<in> set sids. sid \<notin> set (to_delete c)"
  shows "\<exists>c'. get_items_loop p d now start end' sids acc c =
      Some (Ok (acc @ map (\<lambda>h. sc_raw p d c (as_u32 h)) [max (unat start) (i * seg_len)..<unat end']), c') \<and>
    sc_inv p d c' \<and> seg_view p d c' = seg_view p d c \<and> tip_height c' = tip_height c \<and>
    start_height c' = start_height c \<and> set (to_delete c') \<subseteq> set (to_delete c)"
  using assms(1,4-)
proof (induction sids arbitrary: i acc c)
  case Nil
  let ?e = "unat end'"
  have e1: "unat (end' - 1) = ?e - 1" using se by (intro unat_minus_one) auto
  have "Suc ((?e - 1) div seg_len) \<le> i" using Nil.prems by (auto simp: unat_segment_id e1 split: if_splits)
  then have "Suc ((?e - 1) div seg_len) * seg_len \<le> i * seg_len" by (rule mult_le_mono1)
  moreover have "?e - 1 < Suc ((?e - 1) div seg_len) * seg_len" by (simp add: dividend_less_div_times unat_ips)
  ultimately have "?e \<le> i * seg_len" by linarith
  then show ?case using Nil.prems by simp
next
  case (Cons sid sids)
  let ?s = "unat start" and ?e = "unat end'" and ?n = seg_len
  have e1: "unat (end' - 1) = ?e - 1" using se by (intro unat_minus_one) auto
  have last: "unat (height_to_segment_id (end' - 1)) = (?e - 1) div ?n" by (simp add: unat_segment_id e1)
  have first: "?s div ?n \<le> i" using Cons.prems(2) by (simp add: unat_segment_id)
  have "i < Suc ((?e - 1) div ?n)"
    using Cons.prems(3) unfolding last by (rule_tac ccontr) (simp del: upt_Suc)
  note up = upt_conv_Cons [OF this]
  have i: "i \<le> (?e - 1) div ?n" "sid = as_u32 i" and sids: "sids = map word_of_nat [Suc i..<Suc (unat (height_to_segment_id (end' - 1)))]"
    using Cons.prems(3) \<open>i < Suc ((?e - 1) div ?n)\<close> unfolding last up by simp_all
  have i32: "i < 2 ^ 32"
    using i(1) div_le_dividend [of "?e - 1" ?n] unat_u32_less [of end'] by linarith
  have eqs: "sid = height_to_segment_id start \<longleftrightarrow> i = ?s div ?n"
    "sid = height_to_segment_id (end' - 1) \<longleftrightarrow> i = (?e - 1) div ?n"
    using i32 by (auto simp: i(2) word_unat_eq_iff unat_u32_of_nat unat_segment_id e1)
  let ?a = "slice_start start sid" and ?b = "slice_end end' sid"
  have ua: "unat ?a = (if i = ?s div ?n then ?s mod ?n else 0)"
    by (simp add: slice_start_def eqs unat_offset)
  have "ITEMS_PER_SEGMENT \<noteq> 0" by (simp add: ITEMS_PER_SEGMENT_def)
  then have ub: "unat ?b = (if i = (?e - 1) div ?n then (if ?e mod ?n = 0 then ?n else ?e mod ?n) else ?n)"
    using word_unat_eq_iff [of "height_to_offset end'" 0] by (simp add: slice_end_def eqs unat_offset)
  have pos: "0 < ?n" by (simp add: unat_ips)
  have "?s < ?e" using se by (simp add: word_less_nat_alt)
  note bnd = slice_bounds [OF pos this first i(1), folded ua ub]
  obtain s c1 where g: "get_segment_mut p d now sid c = (Ok s, c1)"
    using get_segment_mut_Ok [OF \<open>disk_ok p d\<close>] by blast
  note spec = get_segment_mut_spec [OF Cons.prems(1) g]
  note s = spec(6) [OF refl]
  define c2 where "c2 = put_segment sid (s\<lparr>last_accessed := now\<rparr>) c1"
  note c2 = touch_spec [OF Cons.prems(1) g, folded c2_def]
  have len: "length (seg_items s) = ?n" using s length_seg_view [OF Cons.prems(1)] by simp
  have xs: "take (unat ?b - unat ?a) (drop (unat ?a) (seg_items s)) =
    map (\<lambda>h. sc_raw p d c (as_u32 h)) [max ?s (i * ?n)..<min ?e (Suc i * ?n)]"
    using slice_raw [OF Cons.prems(1) bnd(1,2), of i] bnd unat_u32_less [of end'] s
    by (simp add: i(2) min_def split: if_splits)
  have sg: "seg_get now ?a ?b s = Some (take (unat ?b - unat ?a) (drop (unat ?a) (seg_items s)), s\<lparr>last_accessed := now\<rparr>)"
    using bnd(1,2) len by (simp add: seg_get_def)
  have step: "get_items_loop p d now start end' (sid # sids) acc c =
    get_items_loop p d now start end' sids
      (acc @ map (\<lambda>h. sc_raw p d c (as_u32 h)) [max ?s (i * ?n)..<min ?e (Suc i * ?n)]) c2"
    using Cons.prems(4) g sg xs by (simp add: c2_def)
  have raw: "sc_raw p d c2 = sc_raw p d c" by (simp add: fun_eq_iff sc_raw_def c2)
  have first': "unat (height_to_segment_id start) \<le> Suc i" using Cons.prems(2) by simp
  have nd: "\<forall>sid \<in> set sids. sid \<notin> set (to_delete c2)" using Cons.prems(4) c2(5) by auto
  obtain c' where c': "get_items_loop p d now start end' (sid # sids) acc c =
      Some (Ok ((acc @ map (\<lambda>h. sc_raw p d c (as_u32 h)) [max ?s (i * ?n)..<min ?e (Suc i * ?n)]) @
        map (\<lambda>h. sc_raw p d c (as_u32 h)) [max ?s (Suc i * ?n)..<?e]), c')"
    "sc_inv p d c'" "seg_view p d c' = seg_view p d c2" "tip_height c' = tip_height c2"
    "start_height c' = start_height c2" "set (to_delete c') \<subseteq> set (to_delete c2)"
    using Cons.IH [OF c2(1) first' sids nd] unfolding step raw by blast
  have "[max ?s (i * ?n)..<?e] = [max ?s (i * ?n)..<min ?e (Suc i * ?n)] @ [max ?s (Suc i * ?n)..<?e]"
  proof (cases "?e \<le> Suc i * ?n")
    case False
    have le: "max ?s (i * ?n) \<le> Suc i * ?n" using bnd(3-5) False by simp
    then have "max ?s (Suc i * ?n) = Suc i * ?n" by simp
    then show ?thesis
      using False le upt_add_eq_append [of "max ?s (i * ?n)" "Suc i * ?n" "?e - Suc i * ?n"] by simp
  qed (simp add: min_def)
  then show ?case using c' c2 by (simp del: upt_Suc)
qed

lemma get_items_spec:
  assumes "sc_inv p d c" "disk_ok p d" "start < end'"
    and "\<forall>sid. height_to_segment_id start \<le> sid \<and> sid \<le> height_to_segment_id (end' - 1) \<longrightarrow> sid \<notin> set (to_delete c)"
  obtains c' where "get_items p d now start end' c =
      Some (Ok (map (\<lambda>h. sc_raw p d c (as_u32 h)) [unat start..<unat end']), c')"
    "sc_inv p d c'" "seg_view p d c' = seg_view p d c" "tip_height c' = tip_height c"
    "start_height c' = start_height c" "set (to_delete c') \<subseteq> set (to_delete c)"
proof -
  let ?sids = "range_incl (height_to_segment_id start) (height_to_segment_id (end' - 1))"
  have m: "max (unat start) (unat (height_to_segment_id start) * seg_len) = unat start"
    by (simp add: unat_segment_id)
  have "\<forall>sid \<in> set ?sids. sid \<notin> set (to_delete c)" using assms(4) by (simp add: set_range_incl)
  from get_items_loop_spec [OF assms(1-3) order_refl range_incl_def this, of now "[]", unfolded m]
  show ?thesis using that by (auto simp: get_items_def)
qed

lemma store_items_at_height_spec:
  assumes inv: "sc_inv p d c" and st: "store_items_at_height p d now xs h c = (Ok (), c')"
    and xs: "xs \<noteq> []" "unat h + length xs \<le> 2 ^ 32"
  shows "sc_inv p d c'"
    "sc_raw p d c' k =
      (if unat h \<le> unat k \<and> unat k < unat h + length xs then xs ! (unat k - unat h) else sc_raw p d c k)"
    "tip_height c' = Some (let t = h + word_of_nat (length xs) - 1 in case tip_height c of Some t' \<Rightarrow> max t' t | None \<Rightarrow> t)"
    "start_height c' = Some (case start_height c of Some s \<Rightarrow> min s h | None \<Rightarrow> h)"
    "set (to_delete c') \<subseteq> set (to_delete c)"
proof -
  obtain q c1 where l: "store_loop p d now xs h c = (q, c1)" by fastforce
  note spec = store_loop_spec [OF inv l xs(2)]
  obtain h' where q: "q = Ok h'"
    using st l xs(1) by (cases q) (auto simp: store_items_at_height_def)
  have c': "c' = c1\<lparr>tip_height := Some (case tip_height c1 of Some current \<Rightarrow> max current (h' - 1) | None \<Rightarrow> h' - 1),
    start_height := Some (case start_height c1 of Some current \<Rightarrow> min current h | None \<Rightarrow> h)\<rparr>"
    using st l xs(1) q by (simp add: store_items_at_height_def)
  have v: "seg_view p d c' = seg_view p d c1" by (simp add: c')
  show "sc_inv p d c'" using spec by (simp add: c')
  show "sc_raw p d c' k =
      (if unat h \<le> unat k \<and> unat k < unat h + length xs then xs ! (unat k - unat h) else sc_raw p d c k)"
    using spec q by (simp add: sc_raw_def v)
  show "tip_height c' = Some (let t = h + word_of_nat (length xs) - 1 in case tip_height c of Some t' \<Rightarrow> max t' t | None \<Rightarrow> t)"
    "start_height c' = Some (case start_height c of Some s \<Rightarrow> min s h | None \<Rightarrow> h)"
    "set (to_delete c') \<subseteq> set (to_delete c)"
    using spec q by (simp_all add: c' Let_def cong: option.case_cong)
qed

lemma store_loop_Ok: "disk_ok p d \<Longrightarrow> \<exists>h' c'. store_loop p d now xs h c = (Ok h', c')"
proof (induction xs arbitrary: h c)
  case (Cons x xs)
  obtain s c1 where "get_segment_mut p d now (height_to_segment_id h) c = (Ok s, c1)"
    using get_segment_mut_Ok [OF Cons.prems] by blast
  then show ?case using Cons by (simp add: Let_def)
qed simp

lemma store_items_at_height_Ok: "disk_ok p d \<Longrightarrow> \<exists>c'. store_items_at_height p d now xs h c = (Ok (), c')"
  using store_loop_Ok [of p d now xs h c] by (auto simp: store_items_at_height_def)

section \<open>Truncation\<close>

lemma drop_segment_spec:
  assumes "sc_inv p d c"
  shows "sc_inv p d (drop_segment sid c)"
    "seg_view p d (drop_segment sid c) = (seg_view p d c)(sid := replicate seg_len (sentinel p))"
proof -
  have "length (hm_remove sid (segments c)) \<le> length (segments c)" by (rule length_delete_le)
  then show "sc_inv p d (drop_segment sid c)"
    using assms unfolding sc_inv_def
    by (auto simp: drop_segment_def delete_conv' distinct_delete split: if_splits)
  show "seg_view p d (drop_segment sid c) = (seg_view p d c)(sid := replicate seg_len (sentinel p))"
    by (auto simp: fun_eq_iff drop_segment_def seg_view_def delete_conv' split: option.split)
qed

lemma drop_segments_spec:
  assumes "sc_inv p d c"
  shows "sc_inv p d (fold drop_segment sids c) \<and>
    seg_view p d (fold drop_segment sids c) =
      (\<lambda>sid. if sid \<in> set sids then replicate seg_len (sentinel p) else seg_view p d c sid)"
  using assms
proof (induction sids arbitrary: c)
  case (Cons sid sids)
  then show ?case
    using drop_segment_spec [OF Cons.prems, of sid] Cons.IH [of "drop_segment sid c"] by (auto simp: fun_eq_iff)
qed simp

lemma drop_segments_simps:
  "tip_height (fold drop_segment sids c) = tip_height c"
  "start_height (fold drop_segment sids c) = start_height c"
  "set (to_delete (fold drop_segment sids c)) = set sids \<union> set (to_delete c)"
  by (induction sids arbitrary: c) (auto simp: drop_segment_def)

lemma reset_above_active:
  assumes "active_ok p d sid s"
  shows "active_ok p d sid (reset_above p now offset s)"
proof -
  have "map (\<lambda>x. if valid_item p x then sentinel p else x) ys = ys" if "\<not> list_ex (valid_item p) ys" for ys
    using that by (induction ys) auto
  then show ?thesis
    using assms append_take_drop_id [of "unat offset + 1" "seg_items s"]
    by (auto simp: active_ok_def seg_ok_def reset_above_def Let_def simp del: append_take_drop_id)
qed

lemma reset_above_nth:
  assumes "item_eq p (sentinel p) (sentinel p)" "i < length (seg_items s)"
  shows "slot p (seg_items (reset_above p now offset s) ! i) = (if i \<le> unat offset then slot p (seg_items s ! i) else None)"
  using assms by (auto simp: reset_above_def Let_def nth_append slot_def)

text \<open>No item lies outside the recorded heights.\<close>

definition sc_bounded :: "'i persistable \<Rightarrow> disk \<Rightarrow> 'i segment_cache \<Rightarrow> bool" where
  "sc_bounded p d c \<longleftrightarrow>
     (\<forall>k. sc_view p d c k \<noteq> None \<longrightarrow>
        (\<exists>a b. start_height c = Some a \<and> tip_height c = Some b \<and> a \<le> k \<and> k \<le> b))"

lemma slot_sentinel [simp]: "item_eq p (sentinel p) (sentinel p) \<Longrightarrow> slot p (sentinel p) = None"
  by (simp add: slot_def)

lemma height_le_iff:
  "h \<le> k \<longleftrightarrow> height_to_segment_id h < height_to_segment_id k \<or>
     height_to_segment_id h = height_to_segment_id k \<and> height_to_offset h \<le> height_to_offset k"
proof -
  let ?n = seg_len and ?h = "unat h" and ?k = "unat k"
  have n: "0 < ?n" by (simp add: unat_ips)
  have "?h \<le> ?k \<longleftrightarrow> ?h div ?n < ?k div ?n \<or> ?h div ?n = ?k div ?n \<and> ?h mod ?n \<le> ?k mod ?n"
  proof (cases "?h div ?n" "?k div ?n" rule: linorder_cases)
    case less
    then have "\<not> ?k \<le> ?h" by (meson div_le_mono not_less)
    then show ?thesis using less by simp
  next
    case equal
    have "?h = ?k div ?n * ?n + ?h mod ?n" "?k = ?k div ?n * ?n + ?k mod ?n"
      using equal by (metis div_mult_mod_eq)+
    then show ?thesis using equal by (metis nat_add_left_cancel_le less_irrefl)
  next
    case greater
    then have "\<not> ?h \<le> ?k" by (meson div_le_mono not_less)
    then show ?thesis using greater by simp
  qed
  then show ?thesis
    by (simp add: word_le_nat_alt word_less_nat_alt word_unat_eq_iff [of "height_to_segment_id h"]
        unat_segment_id unat_offset)
qed

text \<open>The step that resets the tail of the segment that holds the new tip.\<close>

lemma reset_boundary:
  assumes inv: "sc_inv p d c" and refl: "item_eq p (sentinel p) (sentinel p)"
    and get: "get_segment_mut p d now (height_to_segment_id target) c = (Ok s, c1)"
  defines "c2 \<equiv> put_segment (height_to_segment_id target) (reset_above p now (height_to_offset target) s) c1"
  shows "sc_inv p d c2" "tip_height c2 = tip_height c" "start_height c2 = start_height c"
    "set (to_delete c2) \<subseteq> set (to_delete c)"
    "sc_view p d c2 k = (if height_to_segment_id k = height_to_segment_id target \<and> target < k then None else sc_view p d c k)"
proof -
  note spec = get_segment_mut_spec [OF inv get]
  note s = spec(6) [OF HOL.refl]
  note put = put_segment_spec [OF spec(1) s [THEN conjunct1] reset_above_active [OF s [THEN conjunct2, THEN conjunct1]]]
  show "sc_inv p d c2" unfolding c2_def by (rule put(1))
  show "tip_height c2 = tip_height c" "start_height c2 = start_height c" "set (to_delete c2) \<subseteq> set (to_delete c)"
    unfolding c2_def put(3,4,5) by (fact spec(3), fact spec(4), fact spec(5))
  have len: "unat (height_to_offset k) < length (seg_items s)"
    using s length_seg_view [OF inv] by simp
  show "sc_view p d c2 k = (if height_to_segment_id k = height_to_segment_id target \<and> target < k then None else sc_view p d c k)"
  proof (cases "height_to_segment_id k = height_to_segment_id target")
    case True
    then have "target < k \<longleftrightarrow> \<not> unat (height_to_offset k) \<le> unat (height_to_offset target)"
      using height_le_iff [of k target] by (simp add: not_le [symmetric] word_le_nat_alt [of "height_to_offset k"])
    then show ?thesis
      using reset_above_nth [OF refl len, of now "height_to_offset target"] s True
      by (simp add: sc_view_def sc_raw_def c2_def put(2) spec(2))
  qed (simp add: sc_view_def sc_raw_def c2_def put(2) spec(2))
qed

lemma drop_tail:
  assumes inv: "sc_inv p d c" and refl: "item_eq p (sentinel p) (sentinel p)"
    and v: "\<And>k. sc_view p d c k = (if height_to_segment_id k = height_to_segment_id target \<and> target < k then None else V k)"
    and bnd: "\<And>k. tip < k \<Longrightarrow> V k = None" and lt: "target < tip"
  defines "c' \<equiv> (fold drop_segment (range_incl (height_to_segment_id target + 1) (height_to_segment_id tip)) c)
     \<lparr>tip_height := Some target\<rparr>"
  shows "sc_inv p d c'" "sc_view p d c' k = (if k \<le> target then V k else None)"
    "start_height c' = start_height c"
    "set (to_delete c') \<subseteq> set (to_delete c) \<union> {sid. height_to_segment_id target < sid \<and> sid \<le> height_to_segment_id tip}"
proof -
  let ?B = "height_to_segment_id target" and ?M = "height_to_segment_id tip"
  have "unat target < unat tip" using lt by (simp add: word_less_nat_alt)
  then have "unat ?B + 1 < 2 ^ 32"
    using div_le_dividend [of "unat target" seg_len] unat_u32_less [of tip] unfolding unat_segment_id by linarith
  then have B1: "unat (?B + 1) = unat ?B + 1" by (simp add: unat_word_ariths)
  have mem: "sid \<in> set (range_incl (?B + 1) ?M) \<longleftrightarrow> ?B < sid \<and> sid \<le> ?M" for sid
    by (simp add: set_range_incl word_le_nat_alt word_less_nat_alt B1 Suc_le_eq)
  note drop = drop_segments_spec [OF inv, of "range_incl (?B + 1) ?M"]
  show "sc_inv p d c'" "start_height c' = start_height c" using drop by (simp_all add: c'_def drop_segments_simps)
  show "set (to_delete c') \<subseteq> set (to_delete c) \<union> {sid. ?B < sid \<and> sid \<le> ?M}"
    using mem by (auto simp: c'_def drop_segments_simps)
  have raw: "sc_view p d c' k = (if ?B < height_to_segment_id k \<and> height_to_segment_id k \<le> ?M then None else sc_view p d c k)"
    using drop refl by (simp add: c'_def sc_view_def sc_raw_def mem)
  show "sc_view p d c' k = (if k \<le> target then V k else None)"
  proof (cases "k \<le> target")
    case True
    then show ?thesis using height_le_iff [of k target] raw v [of k] by auto
  next
    case False
    then have "?B < height_to_segment_id k \<or> height_to_segment_id k = ?B"
      using height_le_iff [of target k] by (auto simp: not_le dest: less_imp_le)
    moreover have "V k = None" if "?M < height_to_segment_id k"
      using that segment_id_mono [of k tip] bnd [of k] by (meson not_le)
    ultimately show ?thesis using raw v [of k] False by (auto simp: not_le)
  qed
qed

lemma truncate_spec:
  assumes inv: "sc_inv p d c" and refl: "item_eq p (sentinel p) (sentinel p)" and bnd: "sc_bounded p d c"
    and tip: "tip_height c = Some tip" and lt: "target < tip"
    and tr: "sc_truncate_above p d now target c = (Ok (), c')"
  shows "sc_inv p d c'" "sc_view p d c' k = (if k \<le> target then sc_view p d c k else None)"
    "tip_height c' = Some target" "start_height c' = start_height c"
    "set (to_delete c') \<subseteq> set (to_delete c) \<union> {sid. height_to_segment_id target < sid \<and> sid \<le> height_to_segment_id tip}"
proof -
  let ?B = "height_to_segment_id target" and ?o = "height_to_offset target"
  let ?fin = "\<lambda>c. (fold drop_segment (range_incl (?B + 1) (height_to_segment_id tip)) c)\<lparr>tip_height := Some target\<rparr>"
  have above: "sc_view p d c k = None" if "tip < k" for k
    using bnd that tip unfolding sc_bounded_def by (metis not_le option.sel)
  obtain c2 where c2: "sc_inv p d c2" "start_height c2 = start_height c" "set (to_delete c2) \<subseteq> set (to_delete c)"
    "\<And>k. sc_view p d c2 k = (if height_to_segment_id k = ?B \<and> target < k then None else sc_view p d c k)"
    "c' = ?fin c2"
  proof (cases "?o + 1 < ITEMS_PER_SEGMENT")
    case True
    obtain q c1 where g: "get_segment_mut p d now ?B c = (q, c1)" by fastforce
    obtain s where q: "q = Ok s"
      using tr tip lt True g by (cases q) (auto simp: sc_truncate_above_def Let_def split: if_splits)
    have "c' = ?fin (put_segment ?B (reset_above p now ?o s) c1)"
      using tr tip lt True g q by (auto simp: sc_truncate_above_def Let_def split: if_splits)
    then show ?thesis using reset_boundary [OF inv refl g [unfolded q]] that by blast
  next
    case False
    have "unat (?o + 1) = unat ?o + 1"
      using offset_less [of target] by (simp add: unat_word_ariths unat_ips)
    then have "height_to_offset k \<le> ?o" for k
      using False offset_less [of k] unfolding word_le_nat_alt word_less_nat_alt by linarith
    then have last: "k \<le> target" if "height_to_segment_id k = ?B" for k
      using that height_le_iff [of k target] by simp
    have "c' = ?fin c"
      using tr tip lt False by (auto simp: sc_truncate_above_def Let_def split: if_splits)
    then show ?thesis using that [of c] inv last by force
  qed
  note tail = drop_tail [OF c2(1) refl c2(4) above lt, folded c2(5)]
  show "sc_inv p d c'" "sc_view p d c' k = (if k \<le> target then sc_view p d c k else None)"
    "start_height c' = start_height c" using tail c2(2) by simp_all
  show "tip_height c' = Some target" by (simp add: c2(5))
  show "set (to_delete c') \<subseteq> set (to_delete c) \<union> {sid. ?B < sid \<and> sid \<le> height_to_segment_id tip}"
    using tail(4) c2(3) by blast
qed

lemma clear_all_spec:
  assumes inv: "sc_inv p d c" and refl: "item_eq p (sentinel p) (sentinel p)" and bnd: "sc_bounded p d c"
  shows "sc_inv p d (sc_clear_all c)" "sc_view p d (sc_clear_all c) k = None"
    "tip_height (sc_clear_all c) = None" "start_height (sc_clear_all c) = None"
proof -
  define ids where "ids = (case (start_height c, tip_height c) of
      (Some start, Some tip) \<Rightarrow> range_incl (height_to_segment_id start) (height_to_segment_id tip)
    | _ \<Rightarrow> hm_keys (segments c) @ hm_keys (evicted c))"
  have c': "sc_clear_all c = (fold drop_segment ids c)\<lparr>tip_height := None, start_height := None\<rparr>"
    by (simp add: sc_clear_all_def ids_def)
  show "sc_inv p d (sc_clear_all c)" "tip_height (sc_clear_all c) = None" "start_height (sc_clear_all c) = None"
    using drop_segments_spec [OF inv] by (simp_all add: c')
  have v: "sc_view p d (sc_clear_all c) k = (if height_to_segment_id k \<in> set ids then None else sc_view p d c k)"
    using drop_segments_spec [OF inv, of ids] refl by (simp add: c' sc_view_def sc_raw_def)
  show "sc_view p d (sc_clear_all c) k = None"
  proof (cases "sc_view p d c k")
    case (Some x)
    then obtain a b where "start_height c = Some a" "tip_height c = Some b" "a \<le> k" "k \<le> b"
      using bnd by (auto simp: sc_bounded_def)
    then have "height_to_segment_id k \<in> set ids" by (simp add: ids_def set_range_incl segment_id_mono)
    then show ?thesis using v by simp
  qed (use v in simp)
qed

section \<open>Segments with a file\<close>

definition sc_known :: "disk \<Rightarrow> 'i segment_cache \<Rightarrow> u32 set" where
  "sc_known d c = fst ` set (segments c) \<union> fst ` set (evicted c) \<union> (fst ` set (dk_files d) - set (to_delete c))"

lemma evict_one_known: "sc_known d (evict_one c) \<subseteq> sc_known d c"
proof (cases "lru_entry (segments c)")
  case (Some e)
  obtain k s where "e = (k, s)" by fastforce
  then have "k \<in> fst ` set (segments c)" using lru_entry_in [of "segments c" "(k, s)"] Some by force
  then show ?thesis
    using Some \<open>e = (k, s)\<close> by (auto simp: sc_known_def evict_one_def hm_keys_remove hm_keys_insert)
qed (simp add: evict_one_def)

lemma load_segment_known: "sc_known d (snd (load_segment p d now sid c)) \<subseteq> insert sid (sc_known d c)"
  by (auto simp: load_segment_def Let_def sc_known_def hm_keys_insert hm_keys_remove split: option.split sum.split)

lemma get_segment_mut_known: "sc_known d (snd (get_segment_mut p d now sid c)) \<subseteq> insert sid (sc_known d c)"
  using load_segment_known [of d p now sid "evict_one c"] load_segment_known [of d p now sid c] evict_one_known [of d c]
  by (auto simp: get_segment_mut_def split: option.split)

lemma put_segment_known: "sc_known d (put_segment sid s c) = insert sid (sc_known d c)"
  by (auto simp: put_segment_def sc_known_def hm_keys_insert)

lemma drop_segments_known: "sc_known d (fold drop_segment sids c) = sc_known d c - set sids"
  by (induction sids arbitrary: c) (auto simp: drop_segment_def sc_known_def hm_keys_remove)

lemma sc_known_heights [simp]:
  "sc_known d (c\<lparr>tip_height := t\<rparr>) = sc_known d c" "sc_known d (c\<lparr>start_height := t\<rparr>) = sc_known d c"
  by (simp_all add: sc_known_def)

lemma store_loop_known:
  "store_loop p d now xs h c = (r, c') \<Longrightarrow> unat h + length xs \<le> 2 ^ 32 \<Longrightarrow>
   sc_known d c' \<subseteq> sc_known d c \<union> {height_to_segment_id k | k. unat h \<le> unat k \<and> unat k < unat h + length xs}"
proof (induction xs arbitrary: h c)
  case (Cons x xs)
  let ?sid = "height_to_segment_id h"
  obtain q c1 where g: "get_segment_mut p d now ?sid c = (q, c1)" by fastforce
  have k1: "sc_known d c1 \<subseteq> insert ?sid (sc_known d c)" using get_segment_mut_known [of d p now ?sid c] g by simp
  have here: "?sid \<in> {height_to_segment_id k | k. unat h \<le> unat k \<and> unat k < unat h + length (x # xs)}" by force
  show ?case
  proof (cases q)
    case (Inl e)
    then show ?thesis using Cons.prems g k1 here by (auto simp: Let_def)
  next
    case (Inr s)
    define c2 where "c2 = put_segment ?sid (seg_insert now x (height_to_offset h) s) c1"
    have loop: "store_loop p d now xs (h + 1) c2 = (r, c')" using Cons.prems(1) g Inr by (simp add: c2_def Let_def)
    have k2: "sc_known d c2 \<subseteq> insert ?sid (sc_known d c)" using k1 by (auto simp: c2_def put_segment_known)
    show ?thesis
    proof (cases xs)
      case Nil
      then show ?thesis using loop k2 here by auto
    next
      case (Cons y ys)
      then have h1: "unat (h + 1) = unat h + 1"
        using \<open>unat h + length (x # xs) \<le> 2 ^ 32\<close> by (simp add: unat_word_ariths)
      have "sc_known d c' \<subseteq> sc_known d c2 \<union> {height_to_segment_id k | k. unat (h + 1) \<le> unat k \<and> unat k < unat (h + 1) + length xs}"
        by (rule Cons.IH [OF loop]) (use Cons.prems(2) h1 in simp)
      moreover have "{height_to_segment_id k | k. unat (h + 1) \<le> unat k \<and> unat k < unat (h + 1) + length xs} \<subseteq>
        {height_to_segment_id k | k. unat h \<le> unat k \<and> unat k < unat h + length (x # xs)}"
        by (auto simp: h1)
      ultimately show ?thesis using k2 here by blast
    qed
  qed
qed simp

text \<open>A segment that no file and no cached segment holds is created by looking it up.\<close>

lemma get_segment_mut_fresh:
  assumes inv: "sc_inv p d c" and "sid \<notin> sc_known d c"
  obtains s c1 where "get_segment_mut p d now sid c = (Ok s, c1)" "seg_state s = Dirty"
proof -
  let ?c = "if MAX_ACTIVE_SEGMENTS \<le> length (segments c) then evict_one c else c"
  have none: "sid \<notin> sc_known d ?c" using assms(2) evict_one_known [of d c] by auto
  then have "hm_get (evicted ?c) sid = None" by (simp add: sc_known_def map_of_eq_None_iff)
  moreover have "hm_get (segments c) sid = None" using assms(2) by (simp add: sc_known_def map_of_eq_None_iff)
  moreover have "sid \<in> set (to_delete ?c) \<or> hm_get (dk_files d) sid = None"
    using none by (auto simp: sc_known_def map_of_eq_None_iff)
  ultimately have "\<exists>s c1. get_segment_mut p d now sid c = (Ok s, c1) \<and> seg_state s = Dirty"
    by (auto simp: get_segment_mut_def load_segment_def seg_load_def seg_new_def Let_def)
  then show ?thesis using that by blast
qed

section \<open>Persisting and opening again\<close>

definition items_valid :: "('i \<Rightarrow> bool) \<Rightarrow> 'i persistable \<Rightarrow> disk \<Rightarrow> 'i segment_cache \<Rightarrow> bool" where
  "items_valid valid p d c \<longleftrightarrow> (\<forall>sid. list_all valid (seg_view p d c sid))"

text \<open>
  What the store relies on of an item type: the sentinel equals itself, valid items read back
  whatever follows them, and the end of the data reads as an end of file.
\<close>

locale persistable_item =
  fixes p :: "'i persistable" and valid :: "'i \<Rightarrow> bool"
  assumes eq_sentinel: "item_eq p (sentinel p) (sentinel p)"
    and valid_sentinel: "valid (sentinel p)"
    and item_round_trip: "valid x \<Longrightarrow> \<exists>bs. item_encode p x = Ok bs \<and> (\<forall>rest. item_decode p (bs @ rest) = Ok (x, rest))"
    and at_end: "item_decode p [] = Err Io_UnexpectedEof"
begin

lemma items_round_trip:
  "list_all valid xs \<Longrightarrow> \<exists>bs. encode_items p xs = Ok bs \<and> (\<forall>n. length bs < n \<longrightarrow> decode_items p n bs = Ok xs)"
proof (induction xs)
  case Nil
  have "decode_items p n [] = Ok []" if "0 < n" for n using that at_end by (cases n) simp_all
  then show ?case by simp
next
  case (Cons x xs)
  then obtain bs where bs: "encode_items p xs = Ok bs" "\<And>n. length bs < n \<Longrightarrow> decode_items p n bs = Ok xs" by auto
  obtain b where b: "item_encode p x = Ok b" "\<And>rest. item_decode p (b @ rest) = Ok (x, rest)"
    using item_round_trip [of x] Cons.prems by auto
  have "b \<noteq> []" using b(2) [of "[]"] at_end by auto
  then have len: "length bs < length (b @ bs)" by simp
  have "decode_items p n (b @ bs) = Ok (x # xs)" if n: "length (b @ bs) < n" for n
  proof (cases n)
    case (Suc m)
    then have "length bs < m" using n len by linarith
    then show ?thesis using bs(2) b(2) Suc by simp
  qed (use n in simp)
  then show ?case using bs(1) b(1) by simp
qed

lemma seg_persist_spec:
  assumes s: "active_ok p d sid s" "list_all valid (seg_items s)" and io: "dk_writable d sid" "dk_readable d sid"
    and d: "disk_ok p d"
  obtains d' where "seg_persist p d s = (Ok (), d', s\<lparr>seg_state := Clean\<rparr>)"
    "dk_readable d' = dk_readable d" "dk_writable d' = dk_writable d" "disk_ok p d'"
    "disk_items p d' = (disk_items p d)(sid := seg_items s)"
    "fst ` set (dk_files d') = (if seg_state s = Dirty then insert sid (fst ` set (dk_files d)) else fst ` set (dk_files d))"
proof (cases "seg_state s")
  case Clean
  then have "disk_items p d = (disk_items p d)(sid := seg_items s)" using s by (simp add: active_ok_def)
  then show ?thesis using that [of d] Clean d by (simp add: seg_persist_def)
next
  case Dirty
  obtain bs where bs: "encode_items p (seg_items s) = Ok bs" "\<And>n. length bs < n \<Longrightarrow> decode_items p n bs = Ok (seg_items s)"
    using items_round_trip [OF s(2)] by auto
  have dec: "decode_items p (Suc (length bs)) bs = Ok (seg_items s)" by (rule bs(2)) simp
  have sid: "segment_id s = sid" "length (seg_items s) = seg_len" using s by (simp_all add: active_ok_def seg_ok_def)
  let ?d = "d\<lparr>dk_files := hm_insert sid bs (dk_files d)\<rparr>"
  have "seg_persist p d s = (Ok (), ?d, s\<lparr>seg_state := Clean\<rparr>)"
    using Dirty bs io sid by (simp add: seg_persist_def)
  moreover have "disk_items p ?d = (disk_items p d)(sid := seg_items s)"
    using dec sid by (auto simp: fun_eq_iff disk_items_def update_conv' simp del: decode_items.simps)
  moreover have "disk_ok p ?d"
    using d io dec by (auto simp: disk_ok_def update_conv' simp del: decode_items.simps split: if_splits)
  ultimately show ?thesis using that [of ?d] Dirty by (simp add: hm_keys_insert)
qed

lemma dirty_keys: "{sid. \<exists>s. (sid, s) \<in> set m \<and> seg_state s = Dirty} \<subseteq> fst ` set m"
  by force

lemma persist_all_spec:
  assumes "hm_ok m" "\<And>sid s. (sid, s) \<in> set m \<Longrightarrow> active_ok p d sid s \<and> list_all valid (seg_items s)"
    and "\<And>sid. dk_writable d sid" "\<And>sid. dk_readable d sid" "disk_ok p d"
  shows "\<exists>d'. persist_all p d m = (d', map (\<lambda>(sid, s). (sid, s\<lparr>seg_state := Clean\<rparr>)) m) \<and>
    dk_readable d' = dk_readable d \<and> dk_writable d' = dk_writable d \<and> disk_ok p d' \<and>
    disk_items p d' = (\<lambda>sid. case hm_get m sid of Some s \<Rightarrow> seg_items s | None \<Rightarrow> disk_items p d sid) \<and>
    fst ` set (dk_files d') = fst ` set (dk_files d) \<union> {sid. \<exists>s. (sid, s) \<in> set m \<and> seg_state s = Dirty}"
  using assms
proof (induction m arbitrary: d)
  case (Cons e m)
  obtain sid s where e: "e = (sid, s)" by fastforce
  have s: "active_ok p d sid s" "list_all valid (seg_items s)" using Cons.prems(2) e by auto
  obtain d1 where d1: "seg_persist p d s = (Ok (), d1, s\<lparr>seg_state := Clean\<rparr>)"
    "dk_readable d1 = dk_readable d" "dk_writable d1 = dk_writable d" "disk_ok p d1"
    "disk_items p d1 = (disk_items p d)(sid := seg_items s)"
    "fst ` set (dk_files d1) = (if seg_state s = Dirty then insert sid (fst ` set (dk_files d)) else fst ` set (dk_files d))"
    using seg_persist_spec [OF s Cons.prems(3,4,5)] .
  have "sid \<notin> fst ` set m" using Cons.prems(1) e by simp
  then have m: "active_ok p d1 k t \<and> list_all valid (seg_items t)" if "(k, t) \<in> set m" for k t
    using Cons.prems(2) [of k t] that d1(5) by (force simp: active_ok_def)
  have ok: "hm_ok m" using Cons.prems(1) e by simp
  have w: "\<And>sid. dk_writable d1 sid" and r: "\<And>sid. dk_readable d1 sid" unfolding d1(2,3) by (fact Cons.prems)+
  obtain d2 where d2: "persist_all p d1 m = (d2, map (\<lambda>(sid, s). (sid, s\<lparr>seg_state := Clean\<rparr>)) m)"
    "dk_readable d2 = dk_readable d1" "dk_writable d2 = dk_writable d1" "disk_ok p d2"
    "disk_items p d2 = (\<lambda>sid. case hm_get m sid of Some s \<Rightarrow> seg_items s | None \<Rightarrow> disk_items p d1 sid)"
    "fst ` set (dk_files d2) = fst ` set (dk_files d1) \<union> {sid. \<exists>s. (sid, s) \<in> set m \<and> seg_state s = Dirty}"
    using Cons.IH [OF ok m w r d1(4)] by blast
  have "hm_get m sid = None" using \<open>sid \<notin> fst ` set m\<close> by (simp add: map_of_eq_None_iff)
  then have "disk_items p d2 = (\<lambda>k. case hm_get (e # m) k of Some s \<Rightarrow> seg_items s | None \<Rightarrow> disk_items p d k)"
    by (auto simp: fun_eq_iff e d2(5) d1(5) split: option.split)
  moreover have "fst ` set (dk_files d2) = fst ` set (dk_files d) \<union> {k. \<exists>t. (k, t) \<in> set (e # m) \<and> seg_state t = Dirty}"
    by (auto simp: d2(6) d1(6) e)
  moreover have "persist_all p d (e # m) = (d2, map (\<lambda>(sid, s). (sid, s\<lparr>seg_state := Clean\<rparr>)) (e # m))"
    by (simp add: e d1(1) d2(1))
  ultimately show ?case using d1(2,3) d2(2,3,4) by auto
qed simp

lemma delete_files_spec:
  assumes "\<And>sid. dk_writable d sid" "disk_ok p d"
  shows "\<exists>d'. delete_files d sids = (d', []) \<and> dk_readable d' = dk_readable d \<and> dk_writable d' = dk_writable d \<and>
    disk_ok p d' \<and>
    disk_items p d' = (\<lambda>sid. if sid \<in> set sids then replicate seg_len (sentinel p) else disk_items p d sid) \<and>
    fst ` set (dk_files d') = fst ` set (dk_files d) - set sids"
  using assms
proof (induction sids arbitrary: d)
  case (Cons sid sids)
  let ?d = "d\<lparr>dk_files := hm_remove sid (dk_files d)\<rparr>"
  have ok: "disk_ok p ?d"
    using Cons.prems(2) by (auto simp: disk_ok_def delete_conv' split: if_splits)
  have it: "disk_items p ?d = (disk_items p d)(sid := replicate seg_len (sentinel p))"
    by (auto simp: fun_eq_iff disk_items_def delete_conv')
  have w: "\<And>sid. dk_writable ?d sid" using Cons.prems(1) by simp
  obtain d' where "delete_files ?d sids = (d', [])" "dk_readable d' = dk_readable ?d" "dk_writable d' = dk_writable ?d"
    "disk_ok p d'"
    "disk_items p d' = (\<lambda>sid. if sid \<in> set sids then replicate seg_len (sentinel p) else disk_items p ?d sid)"
    "fst ` set (dk_files d') = fst ` set (dk_files ?d) - set sids"
    using Cons.IH [OF w ok] by blast
  then show ?case using Cons.prems(1) it by (auto simp: hm_keys_remove fun_eq_iff)
qed simp

end

context persistable_item
begin

lemma sc_persist_spec:
  assumes inv: "sc_inv p d c" and v: "items_valid valid p d c" and d: "disk_ok p d"
    and w: "\<And>sid. dk_writable d sid" and r: "\<And>sid. dk_readable d sid"
  obtains d' c' where "sc_persist p d c = (d', c')" "disk_items p d' = seg_view p d c" "disk_ok p d'"
    "dk_readable d' = dk_readable d" "dk_writable d' = dk_writable d"
    "fst ` set (dk_files d') \<subseteq> sc_known d c"
    "\<forall>sid s. hm_get (segments c) sid = Some s \<longrightarrow> seg_state s = Dirty \<longrightarrow> sid \<in> fst ` set (dk_files d')"
    "sc_inv p d' c'" "seg_view p d' c' = seg_view p d c" "tip_height c' = tip_height c"
    "start_height c' = start_height c" "to_delete c' = []" "evicted c' = []"
proof -
  have hm: "hm_ok (segments c)" "hm_ok (evicted c)" using inv by (auto simp: sc_inv_def)
  have sv: "list_all valid (seg_items s)" if "hm_get (segments c) sid = Some s \<or> hm_get (segments c) sid = None \<and> hm_get (evicted c) sid = Some s" for sid s
  proof -
    have "seg_view p d c sid = seg_items s" using that by (auto simp: seg_view_def)
    then show ?thesis using v unfolding items_valid_def by metis
  qed
  obtain d1 where d1: "delete_files d (to_delete c) = (d1, [])" "dk_readable d1 = dk_readable d" "dk_writable d1 = dk_writable d"
    "disk_ok p d1"
    "disk_items p d1 = (\<lambda>sid. if sid \<in> set (to_delete c) then replicate seg_len (sentinel p) else disk_items p d sid)"
    "fst ` set (dk_files d1) = fst ` set (dk_files d) - set (to_delete c)"
    using delete_files_spec [OF w d] by blast
  have w1: "\<And>sid. dk_writable d1 sid" and r1: "\<And>sid. dk_readable d1 sid" unfolding d1(2,3) by (fact w, fact r)
  have ev: "active_ok p d1 sid s \<and> list_all valid (seg_items s)" if "(sid, s) \<in> set (evicted c)" for sid s
  proof -
    have g: "hm_get (evicted c) sid = Some s" using that hm by (simp add: map_of_eq_Some_iff)
    then have "hm_get (segments c) sid = None" using inv unfolding sc_inv_def by (metis not_None_eq)
    then show ?thesis using g inv sv [of sid s] by (simp add: sc_inv_def active_ok_def)
  qed
  obtain d2 m2 where d2: "persist_all p d1 (evicted c) = (d2, m2)"
    "dk_readable d2 = dk_readable d1" "dk_writable d2 = dk_writable d1" "disk_ok p d2"
    "disk_items p d2 = (\<lambda>sid. case hm_get (evicted c) sid of Some s \<Rightarrow> seg_items s | None \<Rightarrow> disk_items p d1 sid)"
    "fst ` set (dk_files d2) = fst ` set (dk_files d1) \<union> {sid. \<exists>s. (sid, s) \<in> set (evicted c) \<and> seg_state s = Dirty}"
    using persist_all_spec [OF hm(2) ev w1 r1 d1(4)] by blast
  have w2: "\<And>sid. dk_writable d2 sid" and r2: "\<And>sid. dk_readable d2 sid" unfolding d2(2,3) by (fact w1, fact r1)
  have act: "active_ok p d2 sid s \<and> list_all valid (seg_items s)" if "(sid, s) \<in> set (segments c)" for sid s
  proof -
    have g: "hm_get (segments c) sid = Some s" using that hm by (simp add: map_of_eq_Some_iff)
    then have "hm_get (evicted c) sid = None" "sid \<notin> set (to_delete c)" "active_ok p d sid s"
      using inv unfolding sc_inv_def by blast+
    then show ?thesis using sv [of sid s] g by (simp add: active_ok_def d2(5) d1(5))
  qed
  define m3 where "m3 = map (\<lambda>(sid, s). (sid, s\<lparr>seg_state := Clean\<rparr>)) (segments c)"
  obtain d3 where d3: "persist_all p d2 (segments c) = (d3, m3)"
    "dk_readable d3 = dk_readable d2" "dk_writable d3 = dk_writable d2" "disk_ok p d3"
    "disk_items p d3 = (\<lambda>sid. case hm_get (segments c) sid of Some s \<Rightarrow> seg_items s | None \<Rightarrow> disk_items p d2 sid)"
    "fst ` set (dk_files d3) = fst ` set (dk_files d2) \<union> {sid. \<exists>s. (sid, s) \<in> set (segments c) \<and> seg_state s = Dirty}"
    using persist_all_spec [OF hm(1) act w2 r2 d2(4)] unfolding m3_def by blast
  let ?c = "c\<lparr>to_delete := [], evicted := [], segments := m3\<rparr>"
  have items: "disk_items p d3 = seg_view p d c"
    by (auto simp: fun_eq_iff d3(5) d2(5) d1(5) seg_view_def split: option.split)
  have m3: "hm_get m3 sid = map_option (\<lambda>s. s\<lparr>seg_state := Clean\<rparr>) (hm_get (segments c) sid)" for sid
    by (simp add: m3_def map_of_map)
  have keys: "map fst m3 = map fst (segments c)" "length m3 = length (segments c)" by (auto simp: m3_def)
  have view: "seg_view p d3 ?c = seg_view p d c"
    by (auto simp: fun_eq_iff seg_view_def m3 items [symmetric] d3(5) split: option.split)
  have inv': "sc_inv p d3 ?c"
    unfolding sc_inv_def
  proof (intro conjI allI impI)
    fix sid s
    assume "hm_get (segments ?c) sid = Some s"
    then obtain t where t: "hm_get (segments c) sid = Some t" "s = t\<lparr>seg_state := Clean\<rparr>" by (auto simp: m3)
    then have "seg_ok sid t" using inv by (auto simp: sc_inv_def active_ok_def)
    then show "active_ok p d3 sid s" using t by (simp add: active_ok_def seg_ok_def d3(5))
  qed (use inv keys in \<open>simp_all add: sc_inv_def\<close>)
  show ?thesis
  proof (rule that [of d3 ?c])
    show "sc_persist p d c = (d3, ?c)" by (simp add: sc_persist_def d1(1) d2(1) d3(1))
    show "fst ` set (dk_files d3) \<subseteq> sc_known d c"
      using dirty_keys [of "segments c"] dirty_keys [of "evicted c"] unfolding d3(6) d2(6) d1(6) sc_known_def by blast
    show "\<forall>sid s. hm_get (segments c) sid = Some s \<longrightarrow> seg_state s = Dirty \<longrightarrow> sid \<in> fst ` set (dk_files d3)"
      by (auto simp: d3(6) dest: map_of_SomeD)
  qed (use items d1 d2 d3 inv' view in simp_all)
qed

end

section \<open>Opening\<close>

lemma listed_id_small: "sid < 10000 \<Longrightarrow> listed_id sid = sid"
  by (simp add: listed_id.simps)

lemma seg_view_empty: "seg_view p d sc_empty = disk_items p d"
  by (simp add: fun_eq_iff seg_view_def sc_empty_def)

lemma sc_inv_empty: "sc_inv p d sc_empty"
  by (simp add: sc_inv_def sc_empty_def)

lemma find_upt:
  "i < n \<Longrightarrow> P i \<Longrightarrow> (\<And>j. j < i \<Longrightarrow> \<not> P j) \<Longrightarrow> find P [0..<n] = Some i"
  by (auto simp: find_Some_iff)

lemma find_rev_upt:
  assumes "i < n" "P i" "\<And>j. i < j \<Longrightarrow> j < n \<Longrightarrow> \<not> P j"
  shows "find P (rev [0..<n]) = Some i"
  unfolding find_Some_iff using assms by (intro exI [of _ "n - Suc i"]) (auto simp: rev_nth)

lemma sorted_last_Max: "sorted xs \<Longrightarrow> xs \<noteq> [] \<Longrightarrow> last xs = Max (set xs)"
  by (cases xs rule: rev_cases) (auto simp: sorted_append intro!: Max_eqI [symmetric])

lemma sorted_hd_Min: "sorted xs \<Longrightarrow> xs \<noteq> [] \<Longrightarrow> hd xs = Min (set xs)"
  by (cases xs) (auto intro!: Min_eqI [symmetric])

definition first_height :: "'i persistable \<Rightarrow> u32 \<Rightarrow> 'i list \<Rightarrow> u32 option" where
  "first_height p sid xs =
     map_option (\<lambda>i. segment_id_to_start_height sid + as_u32 i) (find (\<lambda>i. valid_item p (xs ! i)) [0..<length xs])"

definition last_height :: "'i persistable \<Rightarrow> u32 \<Rightarrow> 'i list \<Rightarrow> u32 option" where
  "last_height p sid xs =
     map_option (\<lambda>i. segment_id_to_start_height sid + as_u32 i) (find (\<lambda>i. valid_item p (xs ! i)) (rev [0..<length xs]))"

lemma load_or_new_spec:
  assumes d: "disk_ok p d" and small: "\<And>sid. sid \<in> fst ` set (dk_files d) \<Longrightarrow> sid < 10000"
  obtains c where "load_or_new p d now = Ok c" "sc_inv p d c" "seg_view p d c = disk_items p d" "to_delete c = []"
    "sc_known d c = fst ` set (dk_files d)"
    "tip_height c = (if dk_files d = [] then None
       else let m = Max (fst ` set (dk_files d)) in last_height p m (disk_items p d m))"
    "start_height c = (if dk_files d = [] then None
       else let m = Min (fst ` set (dk_files d)) in first_height p m (disk_items p d m))"
proof (cases "dk_files d = []")
  case True
  then have "load_or_new p d now = Ok sc_empty" by (simp add: load_or_new_def)
  then show ?thesis
    by (rule that) (use True in \<open>simp_all add: sc_inv_empty seg_view_empty\<close>, simp_all add: sc_empty_def sc_known_def True)
next
  case False
  let ?K = "fst ` set (dk_files d)"
  have "map listed_id (hm_keys (dk_files d)) = hm_keys (dk_files d)"
    using small by (intro map_idI) (auto simp: listed_id_small)
  then have ids: "sort (map listed_id (hm_keys (dk_files d))) = sort (hm_keys (dk_files d))" by (rule arg_cong)
  define ids where "ids = sort (hm_keys (dk_files d))"
  have set_ids: "set ids = ?K" by (simp add: ids_def)
  have ne: "ids \<noteq> []" using False set_ids by auto
  define M where "M = last ids"
  define m where "m = hd ids"
  have srt: "sorted ids" by (simp add: ids_def)
  have M: "M = Max ?K" "M \<in> ?K" using sorted_last_Max [OF srt ne] last_in_set [OF ne] by (simp_all add: M_def set_ids)
  have m: "m = Min ?K" "m \<in> ?K" using sorted_hd_Min [OF srt ne] hd_in_set [OF ne] by (simp_all add: m_def set_ids)
  have mM: "m \<le> M" using m M by simp
  obtain s1 c1 where g1: "get_segment_mut p d now M sc_empty = (Ok s1, c1)" using get_segment_mut_Ok [OF d] by blast
  obtain s2 c2 where g2: "get_segment_mut p d now M c1 = (Ok s2, c2)" using get_segment_mut_Ok [OF d] by blast
  define c2' where "c2' = c2\<lparr>tip_height := last_height p M (disk_items p d M)\<rparr>"
  obtain s3 c3 where g3: "get_segment_mut p d now m c2' = (Ok s3, c3)" using get_segment_mut_Ok [OF d] by blast
  obtain s4 c4 where g4: "get_segment_mut p d now m c3 = (Ok s4, c4)" using get_segment_mut_Ok [OF d] by blast
  note p1 = get_segment_mut_spec [OF sc_inv_empty g1]
  note p2 = get_segment_mut_spec [OF p1(1) g2]
  have i2: "sc_inv p d c2'" using p2(1) by (simp add: c2'_def)
  note p3 = get_segment_mut_spec [OF i2 g3]
  note p4 = get_segment_mut_spec [OF p3(1) g4]
  have v2: "seg_view p d c2 = disk_items p d" "seg_view p d c2' = disk_items p d" "seg_view p d c4 = disk_items p d"
    unfolding p4(2) p3(2) c2'_def seg_view_heights p2(2) p1(2) seg_view_empty by simp_all
  have s2: "seg_items s2 = disk_items p d M"
    using p2(6) [OF refl] unfolding p1(2) seg_view_empty by blast
  have s4: "seg_items s4 = disk_items p d m"
    using p4(6) [OF refl] unfolding p3(2) v2(2) by blast
  have max: "find_max_readable p d now (rev ids) sc_empty = (Some M, c1)"
    using ne g1 by (cases ids rule: rev_cases) (simp_all add: M_def)
  have min: "find_min_readable p d now (Some M) ids c2' = (Some m, c3)"
    using ne g3 mM by (cases ids) (simp_all add: m_def not_less)
  define c where "c = c4\<lparr>start_height := first_height p m (disk_items p d m)\<rparr>"
  have lst: "map_option ((+) (segment_id_to_start_height M)) (last_valid_offset p s2) = last_height p M (disk_items p d M)"
    and fst: "map_option ((+) (segment_id_to_start_height m)) (first_valid_offset p s4) = first_height p m (disk_items p d m)"
    by (simp_all add: last_valid_offset_def first_valid_offset_def last_height_def first_height_def s2 s4 option.map_comp comp_def)
  have load: "load_or_new p d now = Ok c"
    unfolding load_or_new_def ids ids_def [symmetric] Let_def max
    by (simp add: g2 lst c2'_def [symmetric] min g4 fst c_def)
  have "set (to_delete c4) \<subseteq> set (to_delete (sc_empty :: 'a segment_cache))"
    using p1(5) p2(5) p3(5) [unfolded c2'_def] p4(5) by simp
  then have del: "to_delete c4 = []" by (simp add: sc_empty_def)
  have "sc_known d c4 \<subseteq> insert m (sc_known d c3)" "sc_known d c3 \<subseteq> insert m (sc_known d c2')"
    "sc_known d c2 \<subseteq> insert M (sc_known d c1)" "sc_known d c1 \<subseteq> insert M (sc_known d (sc_empty :: 'a segment_cache))"
    using get_segment_mut_known [of d p now m c3] get_segment_mut_known [of d p now m c2']
      get_segment_mut_known [of d p now M c1] get_segment_mut_known [of d p now M sc_empty] g1 g2 g3 g4 by simp_all
  moreover have "sc_known d (sc_empty :: 'a segment_cache) = ?K" by (simp add: sc_known_def sc_empty_def)
  moreover have "sc_known d c2' = sc_known d c2" by (simp add: c2'_def)
  ultimately have "sc_known d c4 \<subseteq> ?K" using M(2) m(2) by blast
  moreover have "?K \<subseteq> sc_known d c4" using del by (simp add: sc_known_def)
  ultimately have known: "sc_known d c = ?K" by (simp add: c_def)
  show ?thesis
  proof (rule that [OF load])
    show "sc_inv p d c" using p4(1) by (simp add: c_def)
    show "seg_view p d c = disk_items p d" using v2 by (simp add: c_def)
    show "to_delete c = []" using del by (simp add: c_def)
    show "sc_known d c = ?K" by (fact known)
    show "tip_height c = (if dk_files d = [] then None else let m = Max ?K in last_height p m (disk_items p d m))"
      using False p3(3) p4(3) M(1) by (simp add: c_def c2'_def)
    show "start_height c = (if dk_files d = [] then None else let m = Min ?K in first_height p m (disk_items p d m))"
      using False m(1) by (simp add: c_def)
  qed
qed

section \<open>The heights found when the store is opened\<close>

definition sc_tight :: "disk \<Rightarrow> 'i segment_cache \<Rightarrow> bool" where
  "sc_tight d c \<longleftrightarrow>
     (\<forall>sid \<in> sc_known d c. \<exists>a b. start_height c = Some a \<and> tip_height c = Some b \<and>
        height_to_segment_id a \<le> sid \<and> sid \<le> height_to_segment_id b)"

lemma height_of_slot:
  assumes "sid < 10000" "j < seg_len"
  shows "height_to_segment_id (segment_id_to_start_height sid + as_u32 j) = sid"
    "unat (height_to_offset (segment_id_to_start_height sid + as_u32 j)) = j"
proof -
  have sid: "unat sid < 10000" using assms(1) by (simp add: word_less_nat_alt)
  have j: "j < 50000" using assms(2) by (simp add: unat_ips)
  have "unat (sid * ITEMS_PER_SEGMENT) = unat sid * seg_len"
    using sid by (simp add: unat_word_ariths unat_ips)
  moreover have "unat (as_u32 j) = j" using j by (simp add: unat_u32_of_nat)
  ultimately have "unat (segment_id_to_start_height sid + as_u32 j) = unat sid * seg_len + j"
    using sid j by (simp add: segment_id_to_start_height_def unat_word_ariths unat_ips)
  then show "height_to_segment_id (segment_id_to_start_height sid + as_u32 j) = sid"
    "unat (height_to_offset (segment_id_to_start_height sid + as_u32 j)) = j"
    using assms(2) by (simp_all add: word_unat_eq_iff [of _ sid] unat_segment_id unat_offset)
qed

lemma slot_height:
  assumes "height_to_segment_id k < 10000"
  shows "segment_id_to_start_height (height_to_segment_id k) + as_u32 (unat (height_to_offset k)) = k"
  using height_of_slot [OF assms offset_less [of k]] height_eq_iff word_unat_eq_iff by blast

lemma last_height_at:
  assumes inv: "sc_inv p d c" and v: "sc_view p d c t \<noteq> None" and small: "height_to_segment_id t < 10000"
    and above: "\<And>k. t < k \<Longrightarrow> sc_view p d c k = None"
  shows "last_height p (height_to_segment_id t) (seg_view p d c (height_to_segment_id t)) = Some t"
proof -
  let ?sid = "height_to_segment_id t" and ?i = "unat (height_to_offset t)"
  have "valid_item p (seg_view p d c ?sid ! ?i)"
    using v by (auto simp: sc_view_def sc_raw_def slot_def)
  moreover have "\<not> valid_item p (seg_view p d c ?sid ! j)" if j: "?i < j" "j < seg_len" for j
  proof -
    let ?k = "segment_id_to_start_height ?sid + as_u32 j"
    note k = height_of_slot [OF small j(2)]
    have "\<not> ?k \<le> t" using height_le_iff [of ?k t] k j by (simp add: word_le_nat_alt)
    then have "sc_view p d c ?k = None" using above by (simp add: not_le)
    then show ?thesis using k by (simp add: sc_view_def sc_raw_def slot_def split: if_splits)
  qed
  ultimately have "find (\<lambda>i. valid_item p (seg_view p d c ?sid ! i)) (rev [0..<seg_len]) = Some ?i"
    by (intro find_rev_upt) simp_all
  then show ?thesis using slot_height [OF small] by (simp add: last_height_def length_seg_view [OF inv])
qed

lemma first_height_at:
  assumes inv: "sc_inv p d c" and v: "sc_view p d c t \<noteq> None" and small: "height_to_segment_id t < 10000"
    and below: "\<And>k. k < t \<Longrightarrow> sc_view p d c k = None"
  shows "first_height p (height_to_segment_id t) (seg_view p d c (height_to_segment_id t)) = Some t"
proof -
  let ?sid = "height_to_segment_id t" and ?i = "unat (height_to_offset t)"
  have "valid_item p (seg_view p d c ?sid ! ?i)"
    using v by (auto simp: sc_view_def sc_raw_def slot_def)
  moreover have "\<not> valid_item p (seg_view p d c ?sid ! j)" if j: "j < ?i" for j
  proof -
    have "j < seg_len" using j offset_less [of t] by linarith
    let ?k = "segment_id_to_start_height ?sid + as_u32 j"
    note k = height_of_slot [OF small \<open>j < seg_len\<close>]
    have "\<not> t \<le> ?k" using height_le_iff [of t ?k] k j by (simp add: word_le_nat_alt)
    then have "sc_view p d c ?k = None" using below by (simp add: not_le)
    then show ?thesis using k by (simp add: sc_view_def sc_raw_def slot_def split: if_splits)
  qed
  ultimately have "find (\<lambda>i. valid_item p (seg_view p d c ?sid ! i)) [0..<seg_len] = Some ?i"
    by (intro find_upt) simp_all
  then show ?thesis using slot_height [OF small] by (simp add: first_height_def length_seg_view [OF inv])
qed

lemma no_file_no_item:
  assumes "item_eq p (sentinel p) (sentinel p)" "height_to_segment_id k \<notin> fst ` set (dk_files d)"
    and "seg_view p d c = disk_items p d"
  shows "sc_view p d c k = None"
proof -
  have "hm_get (dk_files d) (height_to_segment_id k) = None" using assms(2) by (simp add: map_of_eq_None_iff)
  then show ?thesis using assms(1,3) by (simp add: sc_view_def sc_raw_def disk_items_def)
qed

lemma view_of_segments:
  "seg_view p d c = seg_view p d' c' \<Longrightarrow> sc_view p d c = sc_view p d' c'"
  by (simp add: fun_eq_iff sc_view_def sc_raw_def)

context persistable_item
begin

text \<open>What persisting and opening gives, whatever the highest segment with a file holds.\<close>

lemma persist_load:
  assumes inv: "sc_inv p d c" and v: "items_valid valid p d c" and d: "disk_ok p d"
    and w: "\<And>sid. dk_writable d sid" and r: "\<And>sid. dk_readable d sid"
    and small: "\<And>sid. sid \<in> sc_known d c \<Longrightarrow> sid < 10000"
  obtains d' c' c2 where "sc_persist p d c = (d', c')" "load_or_new p d' now = Ok c2"
    "sc_inv p d' c2" "seg_view p d' c2 = seg_view p d c" "to_delete c2 = []" "disk_ok p d'"
    "dk_readable d' = dk_readable d" "dk_writable d' = dk_writable d"
    "sc_known d' c2 = fst ` set (dk_files d')" "fst ` set (dk_files d') \<subseteq> sc_known d c"
    "\<forall>sid s. hm_get (segments c) sid = Some s \<longrightarrow> seg_state s = Dirty \<longrightarrow> sid \<in> fst ` set (dk_files d')"
    "\<forall>k. sc_view p d c k \<noteq> None \<longrightarrow> height_to_segment_id k \<in> fst ` set (dk_files d')"
    "dk_files d' \<noteq> [] \<longrightarrow>
       tip_height c2 = (let m = Max (fst ` set (dk_files d')) in last_height p m (seg_view p d c m)) \<and>
       start_height c2 = (let m = Min (fst ` set (dk_files d')) in first_height p m (seg_view p d c m))"
    "dk_files d' = [] \<longrightarrow> tip_height c2 = None \<and> start_height c2 = None"
proof -
  obtain d' c' where 1: "sc_persist p d c = (d', c')" "disk_items p d' = seg_view p d c" "disk_ok p d'"
    "dk_readable d' = dk_readable d" "dk_writable d' = dk_writable d" "fst ` set (dk_files d') \<subseteq> sc_known d c"
    "\<forall>sid s. hm_get (segments c) sid = Some s \<longrightarrow> seg_state s = Dirty \<longrightarrow> sid \<in> fst ` set (dk_files d')"
    "sc_inv p d' c'" "seg_view p d' c' = seg_view p d c" "tip_height c' = tip_height c"
    "start_height c' = start_height c" "to_delete c' = []" "evicted c' = []"
    using sc_persist_spec [OF inv v d w r] .
  have s': "sid < 10000" if "sid \<in> fst ` set (dk_files d')" for sid using that 1(6) small by blast
  obtain c2 where 2: "load_or_new p d' now = Ok c2" "sc_inv p d' c2" "seg_view p d' c2 = disk_items p d'" "to_delete c2 = []"
    "sc_known d' c2 = fst ` set (dk_files d')"
    "tip_height c2 = (if dk_files d' = [] then None
       else let m = Max (fst ` set (dk_files d')) in last_height p m (disk_items p d' m))"
    "start_height c2 = (if dk_files d' = [] then None
       else let m = Min (fst ` set (dk_files d')) in first_height p m (disk_items p d' m))"
    using load_or_new_spec [OF 1(3) s'] .
  have "sc_view p d c = sc_view p d' c2" by (rule view_of_segments) (simp add: 2(3) 1(2))
  then have files: "\<forall>k. sc_view p d c k \<noteq> None \<longrightarrow> height_to_segment_id k \<in> fst ` set (dk_files d')"
    using no_file_no_item [OF eq_sentinel _ 2(3)] by metis
  show ?thesis
    by (rule that [OF 1(1) 2(1,2) _ 2(4) 1(3,4,5) 2(5) 1(6,7) files]) (use 1(2) 2(3,6,7) in simp_all)
qed

lemma persist_load_heights:
  assumes inv: "sc_inv p d c" and v: "items_valid valid p d c" and d: "disk_ok p d"
    and w: "\<And>sid. dk_writable d sid" and r: "\<And>sid. dk_readable d sid"
    and bnd: "sc_bounded p d c" and tight: "sc_tight d c"
    and a: "start_height c = Some a" "sc_view p d c a \<noteq> None" and t: "tip_height c = Some t" "sc_view p d c t \<noteq> None"
    and small: "height_to_segment_id t < 10000"
  obtains d' c' c2 where "sc_persist p d c = (d', c')" "load_or_new p d' now = Ok c2" "sc_inv p d' c2"
    "seg_view p d' c2 = seg_view p d c" "tip_height c2 = Some t" "start_height c2 = Some a"
    "to_delete c2 = []" "disk_ok p d'" "dk_readable d' = dk_readable d" "dk_writable d' = dk_writable d" "sc_tight d' c2"
proof -
  have known: "height_to_segment_id a \<le> sid" "sid \<le> height_to_segment_id t" if "sid \<in> sc_known d c" for sid
    using tight that a(1) t(1) by (auto simp: sc_tight_def)
  have sm: "sid < 10000" if "sid \<in> sc_known d c" for sid using known(2) [OF that] small by simp
  obtain d' c' c2 where 1: "sc_persist p d c = (d', c')" "load_or_new p d' now = Ok c2"
    "sc_inv p d' c2" "seg_view p d' c2 = seg_view p d c" "to_delete c2 = []" "disk_ok p d'"
    "dk_readable d' = dk_readable d" "dk_writable d' = dk_writable d"
    "sc_known d' c2 = fst ` set (dk_files d')" "fst ` set (dk_files d') \<subseteq> sc_known d c"
    "\<forall>sid s. hm_get (segments c) sid = Some s \<longrightarrow> seg_state s = Dirty \<longrightarrow> sid \<in> fst ` set (dk_files d')"
    "\<forall>k. sc_view p d c k \<noteq> None \<longrightarrow> height_to_segment_id k \<in> fst ` set (dk_files d')"
    "dk_files d' \<noteq> [] \<longrightarrow>
       tip_height c2 = (let m = Max (fst ` set (dk_files d')) in last_height p m (seg_view p d c m)) \<and>
       start_height c2 = (let m = Min (fst ` set (dk_files d')) in first_height p m (seg_view p d c m))"
    "dk_files d' = [] \<longrightarrow> tip_height c2 = None \<and> start_height c2 = None"
    using persist_load [OF inv v d w r sm, where now = now] .
  let ?K = "fst ` set (dk_files d')"
  have in_K: "height_to_segment_id t \<in> ?K" "height_to_segment_id a \<in> ?K" using 1(12) a(2) t(2) by blast+
  have Mx: "Max ?K = height_to_segment_id t" using in_K(1) known(2) 1(10) by (intro Max_eqI) auto
  have Mn: "Min ?K = height_to_segment_id a" using in_K(2) known(1) 1(10) by (intro Min_eqI) auto
  have out: "sc_view p d c k = None" if "t < k \<or> k < a" for k
    using bnd that a(1) t(1) unfolding sc_bounded_def by (metis not_le option.sel)
  have small_a: "height_to_segment_id a < 10000" using sm 1(10) in_K by blast
  have "dk_files d' \<noteq> []" using in_K by auto
  then have tip: "tip_height c2 = Some t" and start: "start_height c2 = Some a"
    using 1(13) last_height_at [OF inv t(2) small] first_height_at [OF inv a(2) small_a] out
    by (auto simp: Mx Mn Let_def)
  have "sc_tight d' c2" using known 1(9,10) tip start by (auto simp: sc_tight_def)
  then show ?thesis using that 1 tip start by blast
qed

end

section \<open>Item types\<close>

lemma codec_persistable:
  assumes "codec enc dec valid" "item_eq p (sentinel p) (sentinel p)" "valid (sentinel p)"
    and "item_encode p = (\<lambda>x. Ok (enc x))" "item_decode p = dec" "dec [] = Err Io_UnexpectedEof"
  shows "persistable_item p valid"
  using assms by unfold_locales (auto simp: codec.round_trip)

interpretation pi_bytes: persistable_item bytes_item
  "\<lambda>bs. length bs < 2 ^ 64 \<and> length (consensus_encode_with_size bs) \<le> MAX_VEC_SIZE"
proof (rule codec_persistable)
  show "codec consensus_encode_with_size (consensus_decode bytes_decode)
    (\<lambda>bs. length bs < 2 ^ 64 \<and> length (consensus_encode_with_size bs) \<le> MAX_VEC_SIZE)"
    by (rule canonical_codec.axioms(1) [OF c_bytes.limited_canonical_codec])
qed (simp_all add: bytes_item_def consensus_encode_with_size_def varint_encode_def emit_u8_def MAX_VEC_SIZE_def
    consensus_decode_def bytes_decode_def varint_decode_def read_u8_def read_slice_def dbind_def)

interpretation pi_filter_header: persistable_item filter_header_item "\<lambda>h. length h = 32"
proof (rule codec_persistable)
  show "codec array_encode (read_slice 32) (\<lambda>h. length h = 32)"
    by (rule canonical_codec.axioms(1) [OF array_canonical_codec])
qed (simp_all add: filter_header_item_def read_slice_def)

section \<open>Properties\<close>

lemma get_item_Ok:
  assumes "disk_ok p d"
  shows "\<exists>x c'. get_item p d now h c = (Ok x, c')"
proof -
  obtain s c1 where "get_segment_mut p d now (height_to_segment_id h) c = (Ok s, c1)"
    using get_segment_mut_Ok [OF assms] by blast
  then show ?thesis by (auto simp: get_item_def get_single_def Let_def)
qed

lemma truncate_Ok:
  assumes "disk_ok p d" "tip_height c = Some t" "start_height c = Some a" "a \<le> target"
  shows "\<exists>c'. sc_truncate_above p d now target c = (Ok (), c')"
proof -
  obtain s c1 where "get_segment_mut p d now (height_to_segment_id target) c = (Ok s, c1)"
    using get_segment_mut_Ok [OF assms(1)] by blast
  then show ?thesis using assms by (auto simp: sc_truncate_above_def Let_def not_less)
qed

text \<open>
  C6: A segment cache behaves as one function from heights to items, whatever segments are active,
  evicted, queued for deletion or only on disk, provided the files of the directory can be read.
  Reading a height returns what the function has there and changes nothing, storing a batch
  updates the heights of the batch and no other, and truncating keeps the heights up to the
  target, for every target between the first and the last height.
\<close>

theorem cache_refines:
  assumes inv: "sc_inv p d c" and bnd: "sc_bounded p d c" and d: "disk_ok p d"
    and eq: "item_eq p (sentinel p) (sentinel p)"
  shows "(\<exists>c'. get_item p d now h c = (Ok (sc_view p d c h), c') \<and> sc_inv p d c' \<and> sc_view p d c' = sc_view p d c) \<and>
    (xs \<noteq> [] \<and> unat h + length xs \<le> 2 ^ 32 \<longrightarrow>
      (\<exists>c'. store_items_at_height p d now xs h c = (Ok (), c') \<and> sc_inv p d c' \<and>
        sc_view p d c' = (\<lambda>k. if unat h \<le> unat k \<and> unat k < unat h + length xs
          then slot p (xs ! (unat k - unat h)) else sc_view p d c k))) \<and>
    (start_height c = Some a \<and> tip_height c = Some t \<and> target < t \<longrightarrow>
      (if target < a then fst (sc_truncate_above p d now target c) = Err (InvalidArgument ''below start_height'')
       else \<exists>c'. sc_truncate_above p d now target c = (Ok (), c') \<and> sc_inv p d c' \<and> sc_bounded p d c' \<and>
        tip_height c' = Some target \<and> start_height c' = Some a \<and>
        sc_view p d c' = (\<lambda>k. if k \<le> target then sc_view p d c k else None)))"
proof (intro conjI impI)
  obtain x c' where g: "get_item p d now h c = (Ok x, c')" using get_item_Ok [OF d] by blast
  note get = get_item_spec [OF inv g eq]
  show "\<exists>c'. get_item p d now h c = (Ok (sc_view p d c h), c') \<and> sc_inv p d c' \<and> sc_view p d c' = sc_view p d c"
    using g get(1) get(6) [OF refl] view_of_segments [OF get(2)] by blast
next
  assume xs: "xs \<noteq> [] \<and> unat h + length xs \<le> 2 ^ 32"
  obtain c' where s: "store_items_at_height p d now xs h c = (Ok (), c')" using store_items_at_height_Ok [OF d] by blast
  note st = store_items_at_height_spec [OF inv s xs [THEN conjunct1] xs [THEN conjunct2]]
  have "sc_view p d c' = (\<lambda>k. if unat h \<le> unat k \<and> unat k < unat h + length xs
      then slot p (xs ! (unat k - unat h)) else sc_view p d c k)"
    by (auto simp: fun_eq_iff sc_view_def st(2))
  then show "\<exists>c'. store_items_at_height p d now xs h c = (Ok (), c') \<and> sc_inv p d c' \<and>
    sc_view p d c' = (\<lambda>k. if unat h \<le> unat k \<and> unat k < unat h + length xs
      then slot p (xs ! (unat k - unat h)) else sc_view p d c k)"
    using s st(1) by blast
next
  assume h: "start_height c = Some a \<and> tip_height c = Some t \<and> target < t"
  show "if target < a then fst (sc_truncate_above p d now target c) = Err (InvalidArgument ''below start_height'')
    else \<exists>c'. sc_truncate_above p d now target c = (Ok (), c') \<and> sc_inv p d c' \<and> sc_bounded p d c' \<and>
      tip_height c' = Some target \<and> start_height c' = Some a \<and>
      sc_view p d c' = (\<lambda>k. if k \<le> target then sc_view p d c k else None)"
  proof (cases "target < a")
    case True
    then show ?thesis using h by (simp add: sc_truncate_above_def not_le [symmetric])
  next
    case False
    then have h': "tip_height c = Some t" "start_height c = Some a" "a \<le> target" "target < t" using h by simp_all
    obtain c' where tr: "sc_truncate_above p d now target c = (Ok (), c')"
      using truncate_Ok [OF d h'(1,2,3)] by blast
    note ts = truncate_spec [OF inv eq bnd h'(1,4) tr]
    have v: "sc_view p d c' = (\<lambda>k. if k \<le> target then sc_view p d c k else None)" by (simp add: fun_eq_iff ts(2))
    have "sc_bounded p d c'" using bnd h' by (auto simp: sc_bounded_def v ts(3,4))
    then show ?thesis using False tr ts(1,3,4) h' v by simp
  qed
qed

theorem cache_refines_witness:
  "\<exists>c'. store_items_at_height filter_header_item \<lparr>dk_files = [], dk_readable = \<lambda>_. True, dk_writable = \<lambda>_. True\<rparr> 0
        [replicate 32 7] 5 sc_empty = (Ok (), c') \<and>
     sc_view filter_header_item \<lparr>dk_files = [], dk_readable = \<lambda>_. True, dk_writable = \<lambda>_. True\<rparr> c' 5 = Some (replicate 32 7)"
proof -
  let ?d = "\<lparr>dk_files = [], dk_readable = \<lambda>_. True, dk_writable = \<lambda>_. True\<rparr>"
  have "sc_view filter_header_item ?d sc_empty k = None" for k
    by (simp add: no_file_no_item pi_filter_header.eq_sentinel seg_view_empty)
  then have "sc_bounded filter_header_item ?d sc_empty" by (simp add: sc_bounded_def)
  moreover have "disk_ok filter_header_item ?d" by (simp add: disk_ok_def)
  ultimately obtain c' where "store_items_at_height filter_header_item ?d 0 [replicate 32 7] 5 sc_empty = (Ok (), c')"
    "sc_view filter_header_item ?d c' 5 = slot filter_header_item (replicate 32 7)"
    using cache_refines [OF sc_inv_empty _ _ pi_filter_header.eq_sentinel, of ?d 0 5 "[replicate 32 7]" 0 0 0] by auto
  then show ?thesis by (auto simp: slot_def filter_header_item_def)
qed

lemma persist_all_kept:
  "\<not> dk_writable d sid \<Longrightarrow> persist_all p d m = (d', m') \<Longrightarrow>
   hm_get (dk_files d') sid = hm_get (dk_files d) sid \<and> \<not> dk_writable d' sid \<and> map fst m' = map fst m"
proof (induction m arbitrary: d m')
  case (Cons e m)
  obtain k s where e: "e = (k, s)" by fastforce
  obtain r d1 s1 where s: "seg_persist p d s = (r, d1, s1)" by (metis prod_cases3)
  have d1: "hm_get (dk_files d1) sid = hm_get (dk_files d) sid" "\<not> dk_writable d1 sid"
    using s Cons.prems(1) by (auto simp: seg_persist_def update_conv' split: if_splits sum.splits)
  obtain m2 where m2: "persist_all p d1 m = (d', m2)" "m' = (k, s1) # m2"
    using Cons.prems(2) e s by (auto split: prod.splits)
  show ?case using Cons.IH [OF d1(2) m2(1)] d1(1) m2(2) e by simp
qed simp

lemma delete_files_kept:
  "delete_files d sids = (d', failed) \<Longrightarrow> sid \<notin> set sids \<Longrightarrow>
   hm_get (dk_files d') sid = hm_get (dk_files d) sid \<and> dk_writable d' = dk_writable d \<and> sid \<notin> set failed"
proof (induction sids arbitrary: d failed)
  case (Cons k sids)
  show ?case
  proof (cases "hm_contains (dk_files d) k \<and> \<not> dk_writable d k")
    case True
    obtain d1 f1 where r: "delete_files d sids = (d1, f1)" by fastforce
    have eq: "delete_files d (k # sids) = (let (d', failed) = delete_files d sids in (d', k # failed))"
      using True by (subst delete_files.simps) (rule if_P)
    have "d' = d1" "failed = k # f1" using Cons.prems(1) unfolding eq r by simp_all
    then show ?thesis using Cons.IH [OF r [folded \<open>d' = d1\<close>]] Cons.prems(2) by simp
  next
    case False
    have "delete_files d (k # sids) = delete_files (d\<lparr>dk_files := hm_remove k (dk_files d)\<rparr>) sids"
      using False by (subst delete_files.simps) (rule if_not_P)
    then have r: "delete_files (d\<lparr>dk_files := hm_remove k (dk_files d)\<rparr>) sids = (d', failed)" using Cons.prems(1) by simp
    have "sid \<notin> set sids" using Cons.prems(2) by simp
    from Cons.IH [OF r this] show ?thesis using Cons.prems(2) by (simp add: delete_conv')
  qed
qed simp

text \<open>
  C10: A changed segment that is not active is lost when its file cannot be written: persisting
  drops it from memory all the same, reports nothing, and from then on its heights read as what
  the old file holds, or as empty, while the recorded tip is unchanged.
\<close>

theorem evicted_lost:
  assumes inv: "sc_inv p d c" and ev: "hm_get (evicted c) sid = Some s" and fail: "\<not> dk_writable d sid"
    and persist: "sc_persist p d c = (d', c')"
  shows "seg_view p d c sid = seg_items s \<and> seg_view p d' c' sid = disk_items p d sid \<and> tip_height c' = tip_height c"
proof -
  have no: "hm_get (segments c) sid = None" "sid \<notin> set (to_delete c)"
    using inv ev unfolding sc_inv_def by (metis not_None_eq option.distinct(1))+
  obtain d1 failed where 1: "delete_files d (to_delete c) = (d1, failed)" by fastforce
  obtain d2 m2 where 2: "persist_all p d1 (evicted c) = (d2, m2)" by fastforce
  obtain d3 m3 where 3: "persist_all p d2 (segments c) = (d3, m3)" by fastforce
  have r: "d' = d3" "c' = c\<lparr>to_delete := failed, evicted := [], segments := m3\<rparr>"
    using persist 1 2 3 by (simp_all add: sc_persist_def)
  note k1 = delete_files_kept [OF 1 no(2)]
  have w1: "\<not> dk_writable d1 sid" using k1 fail by simp
  note k2 = persist_all_kept [OF w1 2]
  note k3 = persist_all_kept [OF k2 [THEN conjunct2, THEN conjunct1] 3]
  have "hm_get (dk_files d') sid = hm_get (dk_files d) sid" using k1 k2 k3 r(1) by simp
  then have items: "disk_items p d' sid = disk_items p d sid" by (simp add: disk_items_def)
  have "fst ` set m3 = fst ` set (segments c)" using k3 by (metis list.set_map)
  then have "hm_get m3 sid = None" using no(1) by (simp add: map_of_eq_None_iff)
  then show ?thesis using ev no(1) items k1 by (simp add: r(2) seg_view_def)
qed

theorem evicted_lost_witness:
  "let d = \<lparr>dk_files = [], dk_readable = \<lambda>_. True, dk_writable = \<lambda>_. False\<rparr>;
       c = sc_empty\<lparr>evicted := [(0, seg_new filter_header_item 0 0 [replicate 32 7] Dirty)], tip_height := Some 0, start_height := Some 0\<rparr>;
       (d', c') = sc_persist filter_header_item d c
   in sc_view filter_header_item d c 0 = Some (replicate 32 7) \<and> sc_view filter_header_item d' c' 0 = None"
proof -
  define d where "d = \<lparr>dk_files = [], dk_readable = \<lambda>_::u32. True, dk_writable = \<lambda>_::u32. False\<rparr>"
  define s where "s = seg_new filter_header_item 0 0 [replicate 32 7] Dirty"
  define c where "c = sc_empty\<lparr>evicted := [(0, s)], tip_height := Some 0, start_height := Some 0\<rparr>"
  obtain d' c' where p: "sc_persist filter_header_item d c = (d', c')" by fastforce
  have "sc_inv filter_header_item d c"
    by (simp add: c_def sc_inv_def sc_empty_def s_def seg_ok_def seg_new_def)
  from evicted_lost [OF this _ _ p, of 0 s]
  have v: "seg_view filter_header_item d c 0 = seg_items s" "seg_view filter_header_item d' c' 0 = disk_items filter_header_item d 0"
    by (simp_all add: c_def d_def)
  have z: "height_to_segment_id 0 = 0" "height_to_offset 0 = 0" by (simp_all add: height_to_segment_id_def height_to_offset_def)
  have "0 < seg_len" by (simp add: unat_ips)
  then have "seg_items s ! 0 = replicate 32 7" "disk_items filter_header_item d 0 ! 0 = sentinel filter_header_item"
    by (simp_all add: s_def seg_new_def resize_def nth_append disk_items_def d_def)
  then have "sc_view filter_header_item d c 0 = Some (replicate 32 7)" "sc_view filter_header_item d' c' 0 = None"
    by (simp_all add: sc_view_def sc_raw_def z v slot_def) (simp_all add: filter_header_item_def)
  then show ?thesis using p by (simp add: d_def c_def s_def Let_def)
qed

end
