(* ===== verification/Segment_List.thy ===== *)
theory Segment_List
  imports Segment_Cache
begin

text \<open>
  A segment cache used densely, as the stores of block headers and filter headers use it: the
  items are a list from a start height on. Storing at the next height appends, truncating takes
  a prefix, a range of heights reads a slice, and persisting and opening again gives the same
  list. The bound of 500 million heights is where segment ids outgrow the four digits of a file
  name.
\<close>

section \<open>Lists of items\<close>

abbreviation in_list :: "u32 \<Rightarrow> 'i list \<Rightarrow> u32 \<Rightarrow> bool" where
  "in_list b xs k \<equiv> unat b \<le> unat k \<and> unat k < unat b + length xs"

definition list_view :: "u32 \<Rightarrow> 'i list \<Rightarrow> u32 \<Rightarrow> 'i option" where
  "list_view b xs k = (if in_list b xs k then Some (xs ! (unat k - unat b)) else None)"

definition list_tip :: "u32 \<Rightarrow> 'i list \<Rightarrow> u32" where
  "list_tip b xs = b + as_u32 (length xs) - 1"

definition sc_list :: "('i \<Rightarrow> bool) \<Rightarrow> 'i persistable \<Rightarrow> disk \<Rightarrow> 'i segment_cache \<Rightarrow> u32 \<Rightarrow> 'i list \<Rightarrow> bool" where
  "sc_list valid p d c b xs \<longleftrightarrow>
     sc_inv p d c \<and> disk_ok p d \<and> items_valid valid p d c \<and> sc_tight d c \<and>
     unat b + length xs \<le> 500000000 \<and> sc_view p d c = list_view b xs \<and>
     start_height c = (if xs = [] then None else Some b) \<and>
     tip_height c = (if xs = [] then None else Some (list_tip b xs))"

lemma unat_list_tip:
  assumes "xs \<noteq> []" "unat b + length xs \<le> 500000000"
  shows "unat (list_tip b xs) = unat b + length xs - 1"
proof -
  have l: "unat (as_u32 (length xs)) = length xs" using assms(2) by (intro unat_u32_of_nat) simp
  have "unat (b + as_u32 (length xs)) = unat b + length xs"
    using assms(2) by (simp add: unat_word_ariths l)
  moreover from this have "b + as_u32 (length xs) \<noteq> 0" using assms(1) by (metis add_is_0 length_0_conv unat_0)
  ultimately show ?thesis by (simp add: list_tip_def unat_minus_one)
qed

lemma sc_list_bounded:
  assumes "sc_list valid p d c b xs"
  shows "sc_bounded p d c"
  unfolding sc_bounded_def
proof (intro allI impI)
  fix k
  assume "sc_view p d c k \<noteq> None"
  then have k: "in_list b xs k" using assms by (auto simp: sc_list_def list_view_def split: if_splits)
  then have "xs \<noteq> []" by auto
  moreover from this have "unat (list_tip b xs) = unat b + length xs - 1"
    using assms by (intro unat_list_tip) (simp_all add: sc_list_def)
  ultimately show "\<exists>a t. start_height c = Some a \<and> tip_height c = Some t \<and> a \<le> k \<and> k \<le> t"
    using assms k by (auto simp: sc_list_def word_le_nat_alt)
qed

lemma sc_empty_simps:
  "segments sc_empty = []" "evicted sc_empty = []" "to_delete sc_empty = []"
  "start_height sc_empty = None" "tip_height sc_empty = None"
  by (simp_all add: sc_empty_def)

lemma sc_list_empty: "dk_files d = [] \<Longrightarrow> persistable_item p valid \<Longrightarrow> sc_list valid p d sc_empty 0 []"
proof -
  assume d: "dk_files d = []" and p: "persistable_item p valid"
  have "sc_view p d sc_empty k = None" for k
    using d persistable_item.eq_sentinel [OF p] by (simp add: no_file_no_item seg_view_empty)
  then show ?thesis
    using d persistable_item.valid_sentinel [OF p]
    by (simp add: sc_list_def sc_inv_empty disk_ok_def items_valid_def seg_view_empty disk_items_def
        list_all_iff sc_tight_def sc_known_def list_view_def fun_eq_iff sc_empty_simps)
qed

section \<open>Valid items\<close>

lemma items_valid_put:
  assumes "items_valid valid p d c" "seg_view p d c' = (seg_view p d c)(sid := xs)" "list_all valid xs"
  shows "items_valid valid p d c'"
  using assms by (simp add: items_valid_def)

lemma items_valid_same: "items_valid valid p d c \<Longrightarrow> seg_view p d' c' = seg_view p d c \<Longrightarrow> items_valid valid p d' c'"
  by (simp add: items_valid_def)

lemma store_loop_valid:
  "sc_inv p d c \<Longrightarrow> store_loop p d now xs h c = (r, c') \<Longrightarrow> items_valid valid p d c \<Longrightarrow> list_all valid xs \<Longrightarrow>
   items_valid valid p d c'"
proof (induction xs arbitrary: h c)
  case (Cons x xs)
  let ?sid = "height_to_segment_id h"
  obtain q c1 where g: "get_segment_mut p d now ?sid c = (q, c1)" by fastforce
  note spec = get_segment_mut_spec [OF Cons.prems(1) g]
  show ?case
  proof (cases q)
    case (Inl e)
    then show ?thesis using Cons.prems g spec(2) by (auto simp: items_valid_def Let_def)
  next
    case (Inr s)
    note s = spec(6) [OF Inr]
    let ?s = "seg_insert now x (height_to_offset h) s"
    note put = put_segment_spec [OF spec(1) s [THEN conjunct1] seg_insert_active [OF s [THEN conjunct2, THEN conjunct1]], of now x "height_to_offset h"]
    have "list_all valid (seg_items s)" using s Cons.prems(3) by (simp add: items_valid_def)
    then have "list_all valid (seg_items ?s)"
      using Cons.prems(4) set_update_subset_insert [of "seg_items s" "unat (height_to_offset h)" x]
      by (auto simp: seg_insert_def list_all_iff)
    moreover have "items_valid valid p d c1" using Cons.prems(3) spec(2) by (simp add: items_valid_def)
    ultimately have "items_valid valid p d (put_segment ?sid ?s c1)" using items_valid_put put(2) by blast
    moreover have "store_loop p d now xs (h + 1) (put_segment ?sid ?s c1) = (r, c')"
      using Cons.prems(2) g Inr by (simp add: Let_def)
    ultimately show ?thesis using Cons.IH [OF put(1)] Cons.prems(4) by simp
  qed
qed simp

lemma reset_above_valid:
  "valid (sentinel p) \<Longrightarrow> list_all valid (seg_items s) \<Longrightarrow> list_all valid (seg_items (reset_above p now offset s))"
  by (auto simp: reset_above_def Let_def list_all_iff dest: in_set_takeD in_set_dropD)

text \<open>What a truncation does to the segments with a file and to the items.\<close>

lemma truncate_valid_known:
  assumes inv: "sc_inv p d c" and v: "items_valid valid p d c" "valid (sentinel p)"
    and tip: "tip_height c = Some tip" and lt: "target < tip"
    and tr: "sc_truncate_above p d now target c = (Ok (), c')"
  shows "items_valid valid p d c'"
    "sc_known d c' \<subseteq> insert (height_to_segment_id target) (sc_known d c) - {sid. height_to_segment_id target < sid \<and> sid \<le> height_to_segment_id tip}"
proof -
  let ?B = "height_to_segment_id target" and ?o = "height_to_offset target" and ?M = "height_to_segment_id tip"
  let ?fin = "\<lambda>c. (fold drop_segment (range_incl (?B + 1) ?M) c)\<lparr>tip_height := Some target\<rparr>"
  have "\<exists>c2. sc_inv p d c2 \<and> items_valid valid p d c2 \<and> sc_known d c2 \<subseteq> insert ?B (sc_known d c) \<and> c' = ?fin c2"
  proof (cases "?o + 1 < ITEMS_PER_SEGMENT")
    case True
    obtain q c1 where g: "get_segment_mut p d now ?B c = (q, c1)" by fastforce
    obtain s where q: "q = Ok s"
      using tr tip lt True g by (cases q) (auto simp: sc_truncate_above_def Let_def split: if_splits)
    note spec = get_segment_mut_spec [OF inv g]
    note s = spec(6) [OF q]
    let ?s = "reset_above p now ?o s"
    note put = put_segment_spec [OF spec(1) s [THEN conjunct1] reset_above_active [OF s [THEN conjunct2, THEN conjunct1]], of now ?o]
    have "list_all valid (seg_items ?s)"
      using v s by (intro reset_above_valid) (simp_all add: items_valid_def)
    then have "items_valid valid p d (put_segment ?B ?s c1)"
      using items_valid_put [OF items_valid_same [OF v(1) spec(2)] put(2)] by blast
    moreover have "sc_known d (put_segment ?B ?s c1) \<subseteq> insert ?B (sc_known d c)"
      using get_segment_mut_known [of d p now ?B c] g by (auto simp: put_segment_known)
    moreover have "c' = ?fin (put_segment ?B ?s c1)"
      using tr tip lt True g q by (auto simp: sc_truncate_above_def Let_def split: if_splits)
    ultimately show ?thesis using put(1) by blast
  next
    case False
    then have "c' = ?fin c"
      using tr tip lt by (auto simp: sc_truncate_above_def Let_def split: if_splits)
    then show ?thesis using inv v by blast
  qed
  then obtain c2 where c2: "sc_inv p d c2" "items_valid valid p d c2" "sc_known d c2 \<subseteq> insert ?B (sc_known d c)" "c' = ?fin c2"
    by blast
  show "items_valid valid p d c'"
    using drop_segments_spec [OF c2(1)] c2(2) v(2) by (simp add: c2(4) items_valid_def list_all_iff)
  have "unat target < unat tip" using lt by (simp add: word_less_nat_alt)
  then have "unat ?B + 1 < 2 ^ 32"
    using div_le_dividend [of "unat target" seg_len] unat_u32_less [of tip] unfolding unat_segment_id by linarith
  then have "unat (?B + 1) = unat ?B + 1" by (simp add: unat_word_ariths)
  then have "sid \<in> set (range_incl (?B + 1) ?M) \<longleftrightarrow> ?B < sid \<and> sid \<le> ?M" for sid
    by (simp add: set_range_incl word_le_nat_alt word_less_nat_alt Suc_le_eq)
  then show "sc_known d c' \<subseteq> insert ?B (sc_known d c) - {sid. ?B < sid \<and> sid \<le> ?M}"
    using c2(3) by (auto simp: c2(4) drop_segments_known)
qed

section \<open>Operations on the list\<close>

lemma seg_id_between:
  "unat a \<le> unat k \<Longrightarrow> unat k \<le> unat t \<Longrightarrow>
   height_to_segment_id a \<le> height_to_segment_id k \<and> height_to_segment_id k \<le> height_to_segment_id t"
  by (simp add: segment_id_mono word_le_nat_alt [symmetric])

lemma list_view_append:
  assumes "xs \<noteq> [] \<Longrightarrow> unat h = unat b + length xs"
  shows "list_view (if xs = [] then h else b) (xs @ ys) k =
    (if in_list h ys k then Some (ys ! (unat k - unat h)) else list_view b xs k)"
  using assms by (auto simp: list_view_def nth_append)

lemma list_tip_append: "(xs \<noteq> [] \<Longrightarrow> h = list_tip b xs + 1) \<Longrightarrow>
    h + as_u32 (length ys) - 1 = list_tip (if xs = [] then h else b) (xs @ ys)"
  by (simp add: list_tip_def)

lemma store_tight:
  assumes tight: "sc_tight d c" and loop: "store_loop p d now ys h c = (r, c')" and f32: "unat h + length ys \<le> 2 ^ 32"
    and old: "\<And>s t. start_height c = Some s \<Longrightarrow> tip_height c = Some t \<Longrightarrow> unat a \<le> unat s \<and> unat t \<le> unat z"
    and new: "unat a \<le> unat h" "unat h + length ys \<le> Suc (unat z)"
  shows "sid \<in> sc_known d c' \<Longrightarrow> height_to_segment_id a \<le> sid \<and> sid \<le> height_to_segment_id z"
proof -
  assume "sid \<in> sc_known d c'"
  then consider "sid \<in> sc_known d c" | k where "sid = height_to_segment_id k" "unat h \<le> unat k" "unat k < unat h + length ys"
    using store_loop_known [OF loop f32] by blast
  then show ?thesis
  proof cases
    case 1
    then obtain s t where st: "start_height c = Some s" "tip_height c = Some t" "height_to_segment_id s \<le> sid" "sid \<le> height_to_segment_id t"
      using tight by (auto simp: sc_tight_def)
    have "a \<le> s" "t \<le> z" using old [OF st(1,2)] by (simp_all add: word_le_nat_alt)
    then show ?thesis using st(3,4) segment_id_mono by (meson order_trans)
  next
    case (2 k)
    then show ?thesis using seg_id_between [of a k z] new by auto
  qed
qed

lemma sc_list_store:
  assumes l: "sc_list valid p d c b xs" and ys: "ys \<noteq> []" "list_all valid ys" "list_all (valid_item p) ys"
    and h: "xs \<noteq> [] \<Longrightarrow> h = list_tip b xs + 1" and fits: "unat h + length ys \<le> 500000000"
  obtains c' where "store_items_at_height p d now ys h c = (Ok (), c')"
    "sc_list valid p d c' (if xs = [] then h else b) (xs @ ys)"
proof -
  have inv: "sc_inv p d c" and d: "disk_ok p d" and v: "items_valid valid p d c" and tight: "sc_tight d c"
    and view: "sc_view p d c = list_view b xs" and bx: "unat b + length xs \<le> 500000000"
    and st: "start_height c = (if xs = [] then None else Some b)" and tp: "tip_height c = (if xs = [] then None else Some (list_tip b xs))"
    using l by (simp_all add: sc_list_def)
  let ?b = "if xs = [] then h else b" and ?t = "list_tip (if xs = [] then h else b) (xs @ ys)"
  have old: "xs \<noteq> [] \<Longrightarrow> unat (list_tip b xs) = unat b + length xs - 1" by (rule unat_list_tip [OF _ bx])
  have hb: "xs \<noteq> [] \<Longrightarrow> unat h = unat b + length xs"
    using h old bx by (auto simp: unat_word_ariths Suc_le_eq)
  have total: "unat ?b + length (xs @ ys) \<le> 500000000" using fits hb by auto
  have utip: "unat ?t = unat ?b + length (xs @ ys) - 1"
    using ys(1) total by (intro unat_list_tip) simp_all
  obtain c' where s: "store_items_at_height p d now ys h c = (Ok (), c')" using store_items_at_height_Ok [OF d] by blast
  have f32: "unat h + length ys \<le> 2 ^ 32" using fits by simp
  note spec = store_items_at_height_spec [OF inv s ys(1) f32]
  obtain r c1 where loop: "store_loop p d now ys h c = (r, c1)" by fastforce
  have c': "seg_view p d c' = seg_view p d c1" "sc_known d c' = sc_known d c1"
    using s loop ys(1) by (auto simp: store_items_at_height_def split: sum.splits)
  have val: "items_valid valid p d c'"
    using store_loop_valid [OF inv loop v ys(2)] c'(1) by (simp add: items_valid_def)
  have sl: "slot p (ys ! i) = Some (ys ! i)" if "i < length ys" for i
    using ys(3) that by (simp add: slot_def list_all_length)
  have "list_view ?b (xs @ ys) k = (if in_list h ys k then Some (ys ! (unat k - unat h)) else list_view b xs k)" for k
    by (rule list_view_append) (rule hb)
  then have "sc_view p d c' k = list_view ?b (xs @ ys) k" for k
    unfolding sc_view_def spec(2) using sl by (auto simp: view [symmetric] sc_view_def)
  then have view': "sc_view p d c' = list_view ?b (xs @ ys)" ..
  have tip': "tip_height c' = Some ?t"
    using spec(3) tp list_tip_append [where xs = xs and ys = ys, OF h] old utip by (auto simp: Let_def max_def word_le_nat_alt)
  have start': "start_height c' = Some ?b"
    using spec(4) st hb by (auto simp: min_def word_le_nat_alt)
  have "height_to_segment_id ?b \<le> sid \<and> sid \<le> height_to_segment_id ?t" if "sid \<in> sc_known d c'" for sid
    by (rule store_tight [OF tight loop f32 _ _ _ that [unfolded c'(2)]])
      (use st tp old hb utip ys(1) in \<open>auto split: if_splits\<close>)
  then have "sc_tight d c'" using start' tip' by (auto simp: sc_tight_def)
  then have "sc_list valid p d c' ?b (xs @ ys)"
    using spec(1) d val view' total ys(1) tip' start' by (simp add: sc_list_def)
  then show ?thesis using that s by blast
qed

lemma sc_list_truncate:
  assumes p: "persistable_item p valid" and l: "sc_list valid p d c b xs"
    and t: "unat b \<le> unat target" "Suc (unat target) < unat b + length xs"
  obtains c' where "sc_truncate_above p d now target c = (Ok (), c')"
    "sc_list valid p d c' b (take (Suc (unat target - unat b)) xs)"
proof -
  have inv: "sc_inv p d c" and d: "disk_ok p d" and v: "items_valid valid p d c" and tight: "sc_tight d c"
    and view: "sc_view p d c = list_view b xs" and bx: "unat b + length xs \<le> 500000000"
    using l by (simp_all add: sc_list_def)
  have ne: "xs \<noteq> []" using t by auto
  have st: "start_height c = Some b" and tp: "tip_height c = Some (list_tip b xs)" using l ne by (simp_all add: sc_list_def)
  have lt: "target < list_tip b xs" "b \<le> target"
    using unat_list_tip [OF ne bx] t by (simp_all add: word_less_nat_alt word_le_nat_alt)
  note eq = persistable_item.eq_sentinel [OF p] and vs = persistable_item.valid_sentinel [OF p]
  obtain c' where tr: "sc_truncate_above p d now target c = (Ok (), c')"
    using truncate_Ok [OF d tp st lt(2)] by blast
  note spec = truncate_spec [OF inv eq sc_list_bounded [OF l] tp lt(1) tr]
  note known = truncate_valid_known [OF inv v vs tp lt(1) tr]
  let ?ys = "take (Suc (unat target - unat b)) xs"
  have len: "length ?ys = Suc (unat target - unat b)" using t by simp
  have "sc_view p d c' k = list_view b ?ys k" for k
    using t by (auto simp: spec(2) view list_view_def word_le_nat_alt)
  then have view': "sc_view p d c' = list_view b ?ys" ..
  have ne': "?ys \<noteq> []" using ne by simp
  have "unat (list_tip b ?ys) = unat target" using unat_list_tip [OF ne'] bx t len by simp
  then have tip: "list_tip b ?ys = target" by (simp add: word_unat_eq_iff)
  have "height_to_segment_id b \<le> sid \<and> sid \<le> height_to_segment_id target" if "sid \<in> sc_known d c'" for sid
    using that known(2) tight st tp segment_id_mono [OF lt(2)] by (auto simp: sc_tight_def not_less)
  then have "sc_tight d c'" using spec(3,4) st by (auto simp: sc_tight_def)
  then have "sc_list valid p d c' b ?ys"
    using spec(1,3,4) st d known(1) view' tip ne' bx t by (auto simp: sc_list_def)
  then show ?thesis using that tr by blast
qed

lemma sc_list_truncate_error:
  assumes "sc_list valid p d c b xs"
  shows "xs = [] \<or> unat b + length xs \<le> Suc (unat target) \<Longrightarrow> sc_truncate_above p d now target c = (Ok (), c)"
    "xs \<noteq> [] \<Longrightarrow> Suc (unat target) < unat b + length xs \<Longrightarrow> unat target < unat b \<Longrightarrow>
      sc_truncate_above p d now target c = (Err (InvalidArgument ''below start_height''), c)"
  using assms unat_list_tip [of xs b]
  by (auto simp: sc_list_def sc_truncate_above_def word_le_nat_alt word_less_nat_alt)

section \<open>Reading ranges\<close>

lemma get_items_loop_known:
  "get_items_loop p d now start end' sids acc c = Some (r, c') \<Longrightarrow> sc_known d c' \<subseteq> sc_known d c \<union> set sids"
proof (induction sids arbitrary: acc c)
  case (Cons sid sids)
  obtain q c1 where g: "get_segment_mut p d now sid c = (q, c1)" by fastforce
  have k: "sc_known d c1 \<subseteq> insert sid (sc_known d c)" using get_segment_mut_known [of d p now sid c] g by simp
  show ?case
  proof (cases "sid \<in> set (to_delete c) \<or> (\<exists>e. q = Err e)")
    case True
    then show ?thesis using Cons.prems g k by (auto split: if_splits)
  next
    case False
    then obtain s where q: "q = Ok s" by (cases q) auto
    then obtain xs s' where sg: "seg_get now (slice_start start sid) (slice_end end' sid) s = Some (xs, s')"
      and rest: "get_items_loop p d now start end' sids (acc @ xs) (put_segment sid s' c1) = Some (r, c')"
      using Cons.prems g False by (auto split: option.splits)
    show ?thesis using Cons.IH [OF rest] k by (auto simp: put_segment_known)
  qed
qed simp

lemma to_delete_view:
  assumes "sc_inv p d c" "item_eq p (sentinel p) (sentinel p)" "height_to_segment_id k \<in> set (to_delete c)"
  shows "sc_view p d c k = None"
proof -
  have "seg_view p d c (height_to_segment_id k) = replicate seg_len (sentinel p)"
    using assms by (auto simp: seg_view_def sc_inv_def split: option.split)
  then show ?thesis using assms(2) by (simp add: sc_view_def sc_raw_def)
qed

lemma segment_in_range:
  assumes "height_to_segment_id a \<le> sid" "sid \<le> height_to_segment_id z" and az: "a \<le> z"
  obtains k where "height_to_segment_id k = sid" "a \<le> k" "k \<le> z"
proof -
  let ?n = "max (unat a) (unat sid * seg_len)"
  have pos: "0 < seg_len" by (simp add: unat_ips)
  have sid: "unat a div seg_len \<le> unat sid" "unat sid \<le> unat z div seg_len"
    using assms by (simp_all add: word_le_nat_alt unat_segment_id)
  have "unat sid * seg_len \<le> unat z div seg_len * seg_len" using sid(2) by (rule mult_le_mono1)
  also have "\<dots> \<le> unat z" by simp
  finally have n: "?n \<le> unat z" using az by (simp add: word_le_nat_alt)
  then have u: "unat (as_u32 ?n) = ?n" using unat_u32_less [of z] by (intro unat_u32_of_nat) linarith
  have "?n div seg_len = unat sid"
  proof (cases "unat a \<le> unat sid * seg_len")
    case False
    then have "unat sid * seg_len div seg_len \<le> unat a div seg_len" by (intro div_le_mono) simp
    then have "unat sid \<le> unat a div seg_len" using pos by simp
    then show ?thesis using sid(1) False by (simp add: max_def)
  qed (use pos in \<open>simp add: max_def\<close>)
  then have "height_to_segment_id (as_u32 ?n) = sid"
    by (simp add: word_unat_eq_iff [of _ sid] unat_segment_id u)
  then show ?thesis by (rule that) (use u n in \<open>simp_all add: word_le_nat_alt\<close>)
qed

lemma sc_list_get:
  assumes p: "persistable_item p valid" and l: "sc_list valid p d c b xs"
    and r: "unat b \<le> unat a" "a < e" "unat e \<le> unat b + length xs"
  obtains c' where "get_items p d now a e c = Some (Ok (take (unat e - unat a) (drop (unat a - unat b) xs)), c')"
    "sc_list valid p d c' b xs"
proof -
  have inv: "sc_inv p d c" and d: "disk_ok p d" and v: "items_valid valid p d c" and tight: "sc_tight d c"
    and view: "sc_view p d c = list_view b xs"
    using l by (simp_all add: sc_list_def)
  have ae: "unat a < unat e" using r(2) by (simp add: word_less_nat_alt)
  then have e1: "unat (e - 1) = unat e - 1" by (intro unat_minus_one) auto
  then have le: "a \<le> e - 1" using ae by (simp add: word_le_nat_alt)
  have inl: "in_list b xs k" if "a \<le> k" "k \<le> e - 1" for k
    using that r ae unfolding word_le_nat_alt e1 by auto
  have cov: "sid \<notin> set (to_delete c)" "\<exists>k. in_list b xs k \<and> height_to_segment_id k = sid"
    if sid: "height_to_segment_id a \<le> sid" "sid \<le> height_to_segment_id (e - 1)" for sid
  proof -
    obtain k where k: "height_to_segment_id k = sid" "a \<le> k" "k \<le> e - 1"
      using segment_in_range [OF sid le] .
    then have "sc_view p d c k \<noteq> None" using inl view by (simp add: list_view_def)
    then show "sid \<notin> set (to_delete c)" using to_delete_view [OF inv persistable_item.eq_sentinel [OF p]] k(1) by metis
    show "\<exists>k. in_list b xs k \<and> height_to_segment_id k = sid" using inl k by blast
  qed
  obtain c' where g: "get_items p d now a e c = Some (Ok (map (\<lambda>h. sc_raw p d c (as_u32 h)) [unat a..<unat e]), c')"
    and c': "sc_inv p d c'" "seg_view p d c' = seg_view p d c" "tip_height c' = tip_height c"
      "start_height c' = start_height c" "set (to_delete c') \<subseteq> set (to_delete c)"
    using get_items_spec [OF inv d r(2)] cov(1) by blast
  have raw: "sc_raw p d c k = xs ! (unat k - unat b)" if "in_list b xs k" for k
    using fun_cong [OF view, of k] that by (simp add: sc_view_def slot_def list_view_def split: if_splits)
  have "map (\<lambda>h. sc_raw p d c (as_u32 h)) [unat a..<unat e] = take (unat e - unat a) (drop (unat a - unat b) xs)"
  proof (rule nth_equalityI)
    fix i
    assume "i < length (map (\<lambda>h. sc_raw p d c (as_u32 h)) [unat a..<unat e])"
    then have i: "unat a + i < unat e" by simp
    then have "unat (as_u32 (unat a + i)) = unat a + i" using unat_u32_less [of e] by (intro unat_u32_of_nat) linarith
    then show "map (\<lambda>h. sc_raw p d c (as_u32 h)) [unat a..<unat e] ! i = take (unat e - unat a) (drop (unat a - unat b) xs) ! i"
      using i r by (simp add: raw less_diff_conv add.commute)
  qed (use r ae in simp)
  moreover have "sc_list valid p d c' b xs"
  proof -
    have "sc_known d c' \<subseteq> sc_known d c \<union> {sid. height_to_segment_id a \<le> sid \<and> sid \<le> height_to_segment_id (e - 1)}"
      using get_items_loop_known g by (fastforce simp: get_items_def set_range_incl)
    moreover have "height_to_segment_id b \<le> sid \<and> sid \<le> height_to_segment_id (list_tip b xs)"
      if rng: "height_to_segment_id a \<le> sid" "sid \<le> height_to_segment_id (e - 1)" for sid
    proof -
      obtain k where "in_list b xs k" "height_to_segment_id k = sid" using cov(2) [OF rng] by blast
      then show ?thesis using seg_id_between [of b k "list_tip b xs"] unat_list_tip [of xs b] l by (force simp: sc_list_def)
    qed
    moreover have "xs \<noteq> []" using r ae by auto
    ultimately have "sc_tight d c'"
      using tight l c'(3,4) by (auto simp: sc_tight_def sc_list_def)
    then show ?thesis
      using l c' v view items_valid_same view_of_segments [OF c'(2)] by (simp add: sc_list_def items_valid_def)
  qed
  ultimately show ?thesis using that g by simp
qed

section \<open>Persisting and opening again\<close>

lemma sc_list_reopen:
  assumes p: "persistable_item p valid" and l: "sc_list valid p d c b xs" and ne: "xs \<noteq> []"
    and w: "\<And>sid. dk_writable d sid" and r: "\<And>sid. dk_readable d sid"
  obtains d' c' c2 where "sc_persist p d c = (d', c')" "load_or_new p d' now = Ok c2"
    "sc_list valid p d' c2 b xs" "dk_readable d' = dk_readable d" "dk_writable d' = dk_writable d"
proof -
  have inv: "sc_inv p d c" and d: "disk_ok p d" and v: "items_valid valid p d c" and tight: "sc_tight d c"
    and view: "sc_view p d c = list_view b xs" and bx: "unat b + length xs \<le> 500000000"
    and st: "start_height c = Some b" and tp: "tip_height c = Some (list_tip b xs)"
    using l ne by (simp_all add: sc_list_def)
  note ut = unat_list_tip [OF ne bx]
  have len: "0 < length xs" using ne by simp
  have vs: "sc_view p d c b \<noteq> None" using ne by (simp add: view list_view_def)
  have "in_list b xs (list_tip b xs)" unfolding ut using len by linarith
  then have vt: "sc_view p d c (list_tip b xs) \<noteq> None" by (simp add: view list_view_def)
  have "unat (list_tip b xs) < 500000000" using ut bx len by linarith
  then have small: "height_to_segment_id (list_tip b xs) < 10000"
    by (simp add: word_less_nat_alt unat_segment_id unat_ips div_less_iff_less_mult)
  obtain d' c' c2 where 1: "sc_persist p d c = (d', c')" "load_or_new p d' now = Ok c2" "sc_inv p d' c2"
    "seg_view p d' c2 = seg_view p d c" "tip_height c2 = Some (list_tip b xs)" "start_height c2 = Some b"
    "to_delete c2 = []" "disk_ok p d'" "dk_readable d' = dk_readable d" "dk_writable d' = dk_writable d" "sc_tight d' c2"
    using persistable_item.persist_load_heights [OF p inv v d w r sc_list_bounded [OF l] tight st vs tp vt small, where now = now] .
  have "sc_list valid p d' c2 b xs"
    using 1 v view bx ne view_of_segments [OF 1(4)] by (simp add: sc_list_def items_valid_def)
  then show ?thesis using that 1 by blast
qed

end
