(* ===== verification/Storage.thy ===== *)
theory Storage
  imports Segment_List Chain_Types Block
begin

text \<open>
  The stores on top of segment caches: block headers with their index by hash, from
  \<open>src/dash-spv/src/storage/block_headers.rs\<close>, filter headers, filters and blocks, from
  \<open>filter_headers.rs\<close>, \<open>filters.rs\<close> and \<open>blocks.rs\<close> beside it, and the item types of headers and
  blocks, from \<open>segments.rs\<close>. The locks around a cache are left out: an operation that takes one
  runs on the cache alone. The folder of a store is taken to exist. \<open>HB\<close> is the hash function of block headers. \<open>None\<close> is a panic of the
  read of a range.

  The header store is shown to implement a list of headers from a start height on, kept by
  persisting and opening again, with an index that finds exactly the stored headers.
\<close>

section \<open>Items\<close>

definition sentinel_header :: header where
  "sentinel_header =
     \<lparr>h_version = Version 0x7FFFFFFF, prev_blockhash = replicate 32 0xFF, merkle_root = replicate 32 0xFF,
      h_time = 0xFFFFFFFF, bits = CompactTarget 0xFFFFFFFF, nonce = 0xFFFFFFFF\<rparr>"

definition header_item :: "(u8 list \<Rightarrow> block_hash) \<Rightarrow> hashed_header persistable" where
  "header_item HB =
     \<lparr>sentinel = hashed_from HB sentinel_header, item_eq = (\<lambda>x y. hh_header x = hh_header y),
      item_encode = (\<lambda>x. Ok (hashed_encode x)), item_decode = hashed_decode\<rparr>"

definition hashed_block_encode :: "hashed_block \<Rightarrow> (u8 list, enc_error) result" where
  "hashed_block_encode b =
     (case block_encode (hb_block b) of Err e \<Rightarrow> Err e | Ok bs \<Rightarrow> Ok (array_encode (hb_hash b) @ bs))"

definition hashed_block_decode :: "hashed_block decoder" where
  "hashed_block_decode = dbind (read_slice 32) (\<lambda>x. dbind (consensus_decode block_decode) (\<lambda>b.
     dret \<lparr>hb_hash = x, hb_block = b\<rparr>))"

definition block_item :: "(u8 list \<Rightarrow> block_hash) \<Rightarrow> hashed_block persistable" where
  "block_item HB =
     \<lparr>sentinel = hashed_block_from HB \<lparr>b_header = sentinel_header, txdata = []\<rparr>,
      item_eq = (\<lambda>x y. hb_block x = hb_block y),
      item_encode = hashed_block_encode, item_decode = hashed_block_decode\<rparr>"

section \<open>Block headers\<close>

record header_storage =
  block_headers :: "hashed_header segment_cache"
  header_hash_index :: "(block_hash, u32) hash_map"

record block_header_tip =
  bt_height :: u32
  bt_header :: header
  bt_hash :: block_hash

definition block_header_tip_new :: "u32 \<Rightarrow> hashed_header \<Rightarrow> block_header_tip" where
  "block_header_tip_new height x = \<lparr>bt_height = height, bt_header = hh_header x, bt_hash = hh_hash x\<rparr>"

text \<open>The loop that enters a batch of headers into the index.\<close>

fun index_headers :: "hashed_header list \<Rightarrow> u32 \<Rightarrow> (block_hash, u32) hash_map \<Rightarrow> (block_hash, u32) hash_map" where
  "index_headers [] height m = m"
| "index_headers (x # xs) height m = index_headers xs (height + 1) (hm_insert (hh_hash x) height m)"

definition hs_open ::
  "(u8 list \<Rightarrow> block_hash) \<Rightarrow> disk \<Rightarrow> instant \<Rightarrow> header_storage storage_result option"
where
  "hs_open HB d now =
     (case load_or_new (header_item HB) d now of
        Err e \<Rightarrow> Some (Err e)
      | Ok c \<Rightarrow>
          (case (start_height c, tip_height c) of
             (Some start, Some end') \<Rightarrow>
               (case get_items (header_item HB) d now start (end' + 1) c of
                  None \<Rightarrow> None
                | Some (Err e, _) \<Rightarrow> Some (Err e)
                | Some (Ok xs, c') \<Rightarrow>
                    Some (Ok \<lparr>block_headers = c', header_hash_index = index_headers xs start []\<rparr>))
           | _ \<Rightarrow> Some (Ok \<lparr>block_headers = c, header_hash_index = []\<rparr>)))"

definition hs_persist :: "(u8 list \<Rightarrow> block_hash) \<Rightarrow> disk \<Rightarrow> header_storage \<Rightarrow> disk \<times> header_storage" where
  "hs_persist HB d s =
     (let (d', c) = sc_persist (header_item HB) d (block_headers s) in (d', s\<lparr>block_headers := c\<rparr>))"

definition hs_store_hashed_headers_at_height ::
  "(u8 list \<Rightarrow> block_hash) \<Rightarrow> disk \<Rightarrow> instant \<Rightarrow> hashed_header list \<Rightarrow> u32 \<Rightarrow> header_storage \<Rightarrow>
     unit storage_result \<times> header_storage"
where
  "hs_store_hashed_headers_at_height HB d now xs height s =
     (case store_items_at_height (header_item HB) d now xs height (block_headers s) of
        (Err e, c) \<Rightarrow> (Err e, s\<lparr>block_headers := c\<rparr>)
      | (Ok _, c) \<Rightarrow>
          (Ok (), s\<lparr>block_headers := c, header_hash_index := index_headers xs height (header_hash_index s)\<rparr>))"

definition hs_store_hashed_headers ::
  "(u8 list \<Rightarrow> block_hash) \<Rightarrow> disk \<Rightarrow> instant \<Rightarrow> hashed_header list \<Rightarrow> header_storage \<Rightarrow> unit storage_result \<times> header_storage"
where
  "hs_store_hashed_headers HB d now xs s =
     hs_store_hashed_headers_at_height HB d now xs (next_height (block_headers s)) s"

definition hs_store_headers_at_height ::
  "(u8 list \<Rightarrow> block_hash) \<Rightarrow> disk \<Rightarrow> instant \<Rightarrow> header list \<Rightarrow> u32 \<Rightarrow> header_storage \<Rightarrow> unit storage_result \<times> header_storage"
where
  "hs_store_headers_at_height HB d now hs height s =
     hs_store_hashed_headers_at_height HB d now (map (hashed_from HB) hs) height s"

definition hs_store_headers ::
  "(u8 list \<Rightarrow> block_hash) \<Rightarrow> disk \<Rightarrow> instant \<Rightarrow> header list \<Rightarrow> header_storage \<Rightarrow> unit storage_result \<times> header_storage"
where
  "hs_store_headers HB d now hs s = hs_store_headers_at_height HB d now hs (next_height (block_headers s)) s"

definition hs_load_headers ::
  "(u8 list \<Rightarrow> block_hash) \<Rightarrow> disk \<Rightarrow> instant \<Rightarrow> u32 \<Rightarrow> u32 \<Rightarrow> header_storage \<Rightarrow>
     (header list storage_result \<times> header_storage) option"
where
  "hs_load_headers HB d now a b s =
     (case get_items (header_item HB) d now a b (block_headers s) of
        None \<Rightarrow> None
      | Some (Err e, c) \<Rightarrow> Some (Err e, s\<lparr>block_headers := c\<rparr>)
      | Some (Ok xs, c) \<Rightarrow> Some (Ok (map hh_header xs), s\<lparr>block_headers := c\<rparr>))"

definition hs_get_header ::
  "(u8 list \<Rightarrow> block_hash) \<Rightarrow> disk \<Rightarrow> instant \<Rightarrow> u32 \<Rightarrow> header_storage \<Rightarrow>
     (header option storage_result \<times> header_storage) option"
where
  "hs_get_header HB d now height s =
     (case tip_height (block_headers s) of
        None \<Rightarrow> Some (Ok None, s)
      | Some tip \<Rightarrow>
          if tip < height then Some (Ok None, s)
          else
            (case start_height (block_headers s) of
               None \<Rightarrow> Some (Ok None, s)
             | Some start \<Rightarrow>
                 if height < start then Some (Ok None, s)
                 else
                   (case hs_load_headers HB d now height (height + 1) s of
                      None \<Rightarrow> None
                    | Some (Err e, s') \<Rightarrow> Some (Err e, s')
                    | Some (Ok hs, s') \<Rightarrow> Some (Ok (case hs of [] \<Rightarrow> None | h # _ \<Rightarrow> Some h), s'))))"

definition hs_get_tip ::
  "(u8 list \<Rightarrow> block_hash) \<Rightarrow> disk \<Rightarrow> instant \<Rightarrow> header_storage \<Rightarrow> (block_header_tip option \<times> header_storage) option"
where
  "hs_get_tip HB d now s =
     (case tip_height (block_headers s) of
        None \<Rightarrow> Some (None, s)
      | Some tip \<Rightarrow>
          (case get_items (header_item HB) d now tip (tip + 1) (block_headers s) of
             None \<Rightarrow> None
           | Some (Err e, c) \<Rightarrow> Some (None, s\<lparr>block_headers := c\<rparr>)
           | Some (Ok xs, c) \<Rightarrow>
               Some (case xs of [] \<Rightarrow> None | x # _ \<Rightarrow> Some (block_header_tip_new tip x), s\<lparr>block_headers := c\<rparr>)))"

definition hs_get_stored_headers_len :: "header_storage \<Rightarrow> u32" where
  "hs_get_stored_headers_len s =
     (case start_height (block_headers s) of
        None \<Rightarrow> 0
      | Some start \<Rightarrow>
          (case tip_height (block_headers s) of None \<Rightarrow> 0 | Some tip \<Rightarrow> tip - start + 1))"

definition hs_get_header_height_by_hash :: "block_hash \<Rightarrow> header_storage \<Rightarrow> u32 option storage_result" where
  "hs_get_header_height_by_hash x s = Ok (hm_get (header_hash_index s) x)"

definition hs_truncate_above ::
  "(u8 list \<Rightarrow> block_hash) \<Rightarrow> disk \<Rightarrow> instant \<Rightarrow> u32 \<Rightarrow> header_storage \<Rightarrow> unit storage_result \<times> header_storage"
where
  "hs_truncate_above HB d now target s =
     (let needs_index_prune = (case tip_height (block_headers s) of Some tip \<Rightarrow> target < tip | None \<Rightarrow> False) in
      case sc_truncate_above (header_item HB) d now target (block_headers s) of
        (Err e, c) \<Rightarrow> (Err e, s\<lparr>block_headers := c\<rparr>)
      | (Ok _, c) \<Rightarrow>
          (Ok (),
           s\<lparr>block_headers := c,
             header_hash_index :=
               if needs_index_prune then hm_retain (\<lambda>_ h. h \<le> target) (header_hash_index s)
               else header_hash_index s\<rparr>))"

text \<open>
  The backward walk of \<open>highest_valid_tip\<close>. It stops at the start height, so it makes at most
  \<open>tip - start\<close> steps when the start is not above the tip, and at height zero otherwise.
\<close>

function highest_valid_loop ::
  "(u8 list \<Rightarrow> block_hash) \<Rightarrow> disk \<Rightarrow> instant \<Rightarrow> u32 \<Rightarrow> u32 \<Rightarrow> header_storage \<Rightarrow> u32 option \<times> header_storage"
where
  "highest_valid_loop HB d now start height s =
     (if height = start then (Some start, s)
      else
        (let (r, c) = get_item (header_item HB) d now height (block_headers s);
             s' = s\<lparr>block_headers := c\<rparr>;
             lower = (if height = 0 then (None, s') else highest_valid_loop HB d now start (height - 1) s')
         in case r of
              Ok (Some current) \<Rightarrow>
                if hm_get (header_hash_index s) (prev_blockhash (hh_header current)) = Some (height - 1)
                then (Some height, s') else lower
            | _ \<Rightarrow> lower))"
  by auto
termination
  by (relation "measure (\<lambda>(HB, d, now, start, height, s). unat height)")
    (auto simp: unat_minus_one word_less_nat_alt unat_gt_0)

declare highest_valid_loop.simps [simp del]

definition highest_valid_tip ::
  "(u8 list \<Rightarrow> block_hash) \<Rightarrow> disk \<Rightarrow> instant \<Rightarrow> header_storage \<Rightarrow> u32 option \<times> header_storage"
where
  "highest_valid_tip HB d now s =
     (case tip_height (block_headers s) of
        None \<Rightarrow> (None, s)
      | Some tip \<Rightarrow>
          (case start_height (block_headers s) of
             None \<Rightarrow> (None, s)
           | Some start \<Rightarrow> highest_valid_loop HB d now start tip s))"

section \<open>Filter headers, filters and blocks\<close>

definition fh_get_filter_header ::
  "disk \<Rightarrow> instant \<Rightarrow> u32 \<Rightarrow> u8 list segment_cache \<Rightarrow> (u8 list option storage_result \<times> u8 list segment_cache) option"
where
  "fh_get_filter_header d now height c =
     (case tip_height c of
        None \<Rightarrow> Some (Ok None, c)
      | Some tip \<Rightarrow>
          if tip < height then Some (Ok None, c)
          else
            (case start_height c of
               None \<Rightarrow> Some (Ok None, c)
             | Some start \<Rightarrow>
                 if height < start then Some (Ok None, c)
                 else
                   (case get_items filter_header_item d now height (height + 1) c of
                      None \<Rightarrow> None
                    | Some (Err e, c') \<Rightarrow> Some (Err e, c')
                    | Some (Ok xs, c') \<Rightarrow> Some (Ok (case xs of [] \<Rightarrow> None | x # _ \<Rightarrow> Some x), c'))))"

definition fs_store_filter ::
  "disk \<Rightarrow> instant \<Rightarrow> u32 \<Rightarrow> u8 list \<Rightarrow> u8 list segment_cache \<Rightarrow> unit storage_result \<times> u8 list segment_cache"
where
  "fs_store_filter d now height f c = store_items_at_height bytes_item d now [f] height c"

definition fs_filter_tip_height :: "u8 list segment_cache \<Rightarrow> u32 storage_result" where
  "fs_filter_tip_height c = Ok (case tip_height c of Some h \<Rightarrow> h | None \<Rightarrow> 0)"

definition bs_store_block ::
  "(u8 list \<Rightarrow> block_hash) \<Rightarrow> disk \<Rightarrow> instant \<Rightarrow> u32 \<Rightarrow> hashed_block \<Rightarrow> hashed_block segment_cache \<Rightarrow>
     unit storage_result \<times> hashed_block segment_cache"
where
  "bs_store_block HB d now height b c = store_items_at_height (block_item HB) d now [b] height c"

definition bs_load_block ::
  "(u8 list \<Rightarrow> block_hash) \<Rightarrow> disk \<Rightarrow> instant \<Rightarrow> u32 \<Rightarrow> hashed_block segment_cache \<Rightarrow>
     hashed_block option storage_result \<times> hashed_block segment_cache"
where
  "bs_load_block HB d now height c = get_item (block_item HB) d now height c"

definition bs_truncate_above ::
  "(u8 list \<Rightarrow> block_hash) \<Rightarrow> disk \<Rightarrow> instant \<Rightarrow> u32 \<Rightarrow> hashed_block segment_cache \<Rightarrow>
     unit storage_result \<times> hashed_block segment_cache"
where
  "bs_truncate_above HB d now target c = sc_truncate_above (block_item HB) d now target c"

section \<open>The item types persist\<close>

definition hashed_ok :: "hashed_header \<Rightarrow> bool" where
  "hashed_ok x \<longleftrightarrow> header_valid (hh_header x) \<and> length (hh_hash x) = 32"

definition hashed_block_ok :: "hashed_block \<Rightarrow> bool" where
  "hashed_block_ok b \<longleftrightarrow> length (hb_hash b) = 32 \<and> block_ok (hb_block b) \<and>
     length (ok_bytes block_encode (hb_block b)) \<le> MAX_VEC_SIZE"

lemma sentinel_header_valid: "header_valid sentinel_header"
  by (simp add: sentinel_header_def header_valid_def)

lemma header_item_persistable:
  assumes "\<And>bs. length (HB bs) = 32"
  shows "persistable_item (header_item HB) hashed_ok"
proof (rule codec_persistable)
  show "codec hashed_encode hashed_decode hashed_ok"
    using canonical_codec.axioms(1) [OF c_hashed.canonical_codec_axioms]
    by (simp add: hashed_ok_def [abs_def])
  show "hashed_decode [] = Err Io_UnexpectedEof"
    by (simp add: hashed_decode_def header_decode_def version_decode_def read_int_def read_slice_def dbind_def)
qed (simp_all add: header_item_def hashed_ok_def hashed_from_def block_hash_def sentinel_header_valid assms)

lemma block_item_persistable:
  assumes "\<And>bs. length (HB bs) = 32"
  shows "persistable_item (block_item HB) hashed_block_ok"
proof
  show "item_eq (block_item HB) (sentinel (block_item HB)) (sentinel (block_item HB))" by (simp add: block_item_def)
  let ?b = "\<lparr>b_header = sentinel_header, txdata = []\<rparr>"
  have ok: "block_ok ?b" by (simp add: block_ok_def sentinel_header_valid)
  have "length (ok_bytes block_encode ?b) \<le> MAX_VEC_SIZE"
    using block_encode_ok [OF ok]
    by (simp add: ok_bytes_def vec_encode_def varint_encode_def emit_u8_def header_encode_def version_encode_def
        compact_encode_def emit_int_def length_to_le_bytes array_encode_def sentinel_header_def MAX_VEC_SIZE_def)
  then show "hashed_block_ok (sentinel (block_item HB))"
    using ok assms by (simp add: hashed_block_ok_def block_item_def hashed_block_from_def block_hash_of_def block_hash_def)
  show "item_decode (block_item HB) [] = Err Io_UnexpectedEof"
    by (simp add: block_item_def hashed_block_decode_def read_slice_def dbind_def)
  fix b
  assume b: "hashed_block_ok b"
  have lim: "consensus_decode block_decode (ok_bytes block_encode (hb_block b) @ rest) = Ok (hb_block b, rest)" for rest
    using codec.round_trip [OF c_block.limited_codec] b by (simp add: hashed_block_ok_def)
  have enc: "block_encode (hb_block b) = Ok (ok_bytes block_encode (hb_block b))"
    using b block_encode_ok [of "hb_block b"] by (simp add: hashed_block_ok_def ok_bytes_def)
  show "\<exists>bs. item_encode (block_item HB) b = Ok bs \<and> (\<forall>rest. item_decode (block_item HB) (bs @ rest) = Ok (b, rest))"
    using b lim by (simp add: block_item_def hashed_block_encode_def hashed_block_decode_def enc c_hash.bind_enc
        hashed_block_ok_def dbind_def [of "consensus_decode block_decode"] dret_def)
qed

section \<open>The index\<close>

definition index_ok :: "(block_hash, u32) hash_map \<Rightarrow> u32 \<Rightarrow> hashed_header list \<Rightarrow> bool" where
  "index_ok m b xs \<longleftrightarrow>
     hm_ok m \<and> (\<forall>x k. hm_get m x = Some k \<longleftrightarrow> (\<exists>i<length xs. hh_hash (xs ! i) = x \<and> k = b + as_u32 i))"

lemma index_ok_Nil: "index_ok m b [] \<longleftrightarrow> m = []"
  by (cases m) (auto simp: index_ok_def)

lemma index_ok_snoc:
  assumes "index_ok m b xs" "hh_hash y \<notin> hh_hash ` set xs"
  shows "index_ok (hm_insert (hh_hash y) (b + as_u32 (length xs)) m) b (xs @ [y])"
proof -
  have "hh_hash (xs ! i) \<noteq> hh_hash y" if "i < length xs" for i using assms(2) that by (metis image_eqI nth_mem)
  then show ?thesis
    using assms(1) unfolding index_ok_def
    by (auto simp: update_conv' distinct_update nth_append less_Suc_eq simp del: map_of_eq_Some_iff split: if_splits)
qed

lemma index_headers_ok:
  "index_ok m b xs \<Longrightarrow> distinct (map hh_hash (xs @ ys)) \<Longrightarrow>
   index_ok (index_headers ys (b + as_u32 (length xs)) m) b (xs @ ys)"
proof (induction ys arbitrary: xs m)
  case (Cons y ys)
  have "index_ok (hm_insert (hh_hash y) (b + as_u32 (length xs)) m) b (xs @ [y])"
    using Cons.prems by (intro index_ok_snoc) auto
  from Cons.IH [OF this] Cons.prems(2) show ?case by (simp add: algebra_simps)
qed simp

lemma index_ok_retain:
  assumes m: "index_ok m b xs" and b: "unat b + length xs \<le> 500000000" and t: "unat b \<le> unat target"
  shows "index_ok (hm_retain (\<lambda>_ h. h \<le> target) m) b (take (Suc (unat target - unat b)) xs)"
proof -
  have u: "unat (b + as_u32 i) = unat b + i" if "i < length xs" for i
    using that b by (simp add: unat_word_ariths unat_u32_of_nat)
  have hm: "hm_ok m" using m by (simp add: index_ok_def)
  have "hm_get (hm_retain (\<lambda>_ h. h \<le> target) m) x = Some k \<longleftrightarrow>
    (\<exists>i<length (take (Suc (unat target - unat b)) xs). hh_hash (take (Suc (unat target - unat b)) xs ! i) = x \<and> k = b + as_u32 i)" for x k
  proof -
    have "b + as_u32 i \<le> target \<longleftrightarrow> i < Suc (unat target - unat b)" if "i < length xs" for i
      using u [OF that] t by (auto simp: word_le_nat_alt)
    then show ?thesis using m unfolding hm_retain_get [OF hm] index_ok_def by auto
  qed
  then show ?thesis using hm unfolding index_ok_def by (simp add: hm_ok_retain del: map_of_eq_Some_iff)
qed

section \<open>The header store as a list\<close>

definition hs_repr :: "(u8 list \<Rightarrow> block_hash) \<Rightarrow> disk \<Rightarrow> header_storage \<Rightarrow> u32 \<Rightarrow> hashed_header list \<Rightarrow> bool" where
  "hs_repr HB d s b xs \<longleftrightarrow>
     sc_list hashed_ok (header_item HB) d (block_headers s) b xs \<and>
     index_ok (header_hash_index s) b xs \<and> distinct (map hh_hash xs)"

text \<open>Headers that can be stored: well-formed, not the sentinel, and with hashes of their own.\<close>

definition storable :: "hashed_header list \<Rightarrow> hashed_header list \<Rightarrow> bool" where
  "storable xs ys \<longleftrightarrow> list_all hashed_ok ys \<and> list_all (\<lambda>y. hh_header y \<noteq> sentinel_header) ys \<and>
     distinct (map hh_hash (xs @ ys))"

lemma hs_repr_same:
  "hs_repr HB d s b xs \<Longrightarrow> sc_list hashed_ok (header_item HB) d c b xs \<Longrightarrow> hs_repr HB d (s\<lparr>block_headers := c\<rparr>) b xs"
  by (simp add: hs_repr_def)

lemma next_height_list:
  "sc_list valid p d c b xs \<Longrightarrow> next_height c = (if xs = [] then 0 else b + as_u32 (length xs))"
  by (simp add: sc_list_def next_height_def list_tip_def)

lemma hs_store:
  assumes r: "hs_repr HB d s b xs" and ys: "ys \<noteq> []" "storable xs ys"
    and h: "xs \<noteq> [] \<Longrightarrow> h = b + as_u32 (length xs)" and fits: "unat h + length ys \<le> 500000000"
  obtains s' where "hs_store_hashed_headers_at_height HB d now ys h s = (Ok (), s')"
    "hs_repr HB d s' (if xs = [] then h else b) (xs @ ys)"
proof -
  let ?p = "header_item HB"
  have l: "sc_list hashed_ok ?p d (block_headers s) b xs" and ix: "index_ok (header_hash_index s) b xs"
    using r by (simp_all add: hs_repr_def)
  have v: "list_all hashed_ok ys" "list_all (valid_item ?p) ys" and dist: "distinct (map hh_hash (xs @ ys))"
    using ys(2) by (simp_all add: storable_def header_item_def hashed_from_def)
  have h': "xs \<noteq> [] \<Longrightarrow> h = list_tip b xs + 1" using h by (simp add: list_tip_def)
  obtain c' where c': "store_items_at_height ?p d now ys h (block_headers s) = (Ok (), c')"
    "sc_list hashed_ok ?p d c' (if xs = [] then h else b) (xs @ ys)"
    using sc_list_store [OF l ys(1) v h' fits] .
  have "index_ok (index_headers ys h (header_hash_index s)) (if xs = [] then h else b) (xs @ ys)"
  proof (cases "xs = []")
    case True
    then have "index_ok (header_hash_index s) h []" using ix by (simp add: index_ok_Nil)
    then show ?thesis using index_headers_ok [of "header_hash_index s" h "[]" ys] dist True by simp
  next
    case False
    then show ?thesis using index_headers_ok [OF ix dist] h by simp
  qed
  then show ?thesis
    using that c' dist by (simp add: hs_store_hashed_headers_at_height_def hs_repr_def)
qed

lemma hs_truncate:
  assumes HB: "\<And>bs. length (HB bs) = 32" and r: "hs_repr HB d s b xs" and t: "xs \<noteq> []" "unat b \<le> unat target"
  obtains s' where "hs_truncate_above HB d now target s = (Ok (), s')"
    "hs_repr HB d s' b (take (Suc (unat target - unat b)) xs)"
proof -
  let ?p = "header_item HB" and ?c = "block_headers s"
  have l: "sc_list hashed_ok ?p d ?c b xs" and ix: "index_ok (header_hash_index s) b xs"
    using r by (simp_all add: hs_repr_def)
  have bx: "unat b + length xs \<le> 500000000" and tp: "tip_height ?c = Some (list_tip b xs)"
    using l t(1) by (simp_all add: sc_list_def)
  have dist: "distinct (map hh_hash (take n xs))" for n
    using r unfolding hs_repr_def take_map [symmetric] by (intro distinct_take) simp
  show ?thesis
  proof (cases "Suc (unat target) < unat b + length xs")
    case True
    obtain c' where c': "sc_truncate_above ?p d now target ?c = (Ok (), c')"
      "sc_list hashed_ok ?p d c' b (take (Suc (unat target - unat b)) xs)"
      using sc_list_truncate [OF header_item_persistable [OF HB] l t(2) True] .
    have "target < list_tip b xs" using True unat_list_tip [OF t(1) bx] by (simp add: word_less_nat_alt)
    then show ?thesis
      using that c' tp index_ok_retain [OF ix bx t(2)] dist by (simp add: hs_truncate_above_def hs_repr_def)
  next
    case False
    then have "sc_truncate_above ?p d now target ?c = (Ok (), ?c)" using sc_list_truncate_error(1) [OF l] by simp
    moreover have "\<not> target < list_tip b xs" using False unat_list_tip [OF t(1) bx] by (simp add: word_less_nat_alt)
    moreover have "take (Suc (unat target - unat b)) xs = xs" using False by simp
    ultimately show ?thesis using that r tp by (simp add: hs_truncate_above_def)
  qed
qed

lemma sc_list_one:
  assumes HB: "\<And>bs. length (HB bs) = 32" and r: "hs_repr HB d s b xs" and k: "in_list b xs k"
  obtains c' where "get_items (header_item HB) d now k (k + 1) (block_headers s) = Some (Ok [xs ! (unat k - unat b)], c')"
    "hs_repr HB d (s\<lparr>block_headers := c'\<rparr>) b xs"
proof -
  have l: "sc_list hashed_ok (header_item HB) d (block_headers s) b xs" using r by (simp add: hs_repr_def)
  then have "unat b + length xs \<le> 500000000" by (simp add: sc_list_def)
  then have k1: "unat (k + 1) = unat k + 1" using k by (simp add: unat_word_ariths)
  then have lt: "k < k + 1" "unat (k + 1) \<le> unat b + length xs" using k by (simp_all add: word_less_nat_alt)
  obtain c' where "get_items (header_item HB) d now k (k + 1) (block_headers s) =
      Some (Ok (take (unat (k + 1) - unat k) (drop (unat k - unat b) xs)), c')"
    "sc_list hashed_ok (header_item HB) d c' b xs"
    using sc_list_get [OF header_item_persistable [OF HB] l _ lt] k by blast
  moreover have "take 1 (drop (unat k - unat b) xs) = [xs ! (unat k - unat b)]"
    using k by (subst Cons_nth_drop_Suc [symmetric]) auto
  ultimately show ?thesis using that k1 hs_repr_same [OF r] by simp
qed

lemma hs_get_header_list:
  assumes HB: "\<And>bs. length (HB bs) = 32" and r: "hs_repr HB d s b xs"
  obtains s' where "hs_get_header HB d now k s = Some (Ok (map_option hh_header (list_view b xs k)), s')" "hs_repr HB d s' b xs"
proof -
  have l: "sc_list hashed_ok (header_item HB) d (block_headers s) b xs" using r by (simp add: hs_repr_def)
  then have bx: "unat b + length xs \<le> 500000000" by (simp add: sc_list_def)
  show ?thesis
  proof (cases "in_list b xs k")
    case True
    then have ne: "xs \<noteq> []" by auto
    have "\<not> list_tip b xs < k" "\<not> k < b"
      using True unat_list_tip [OF ne bx] by (auto simp: word_less_nat_alt)
    moreover obtain c' where "get_items (header_item HB) d now k (k + 1) (block_headers s) = Some (Ok [xs ! (unat k - unat b)], c')"
      "hs_repr HB d (s\<lparr>block_headers := c'\<rparr>) b xs" using sc_list_one [OF HB r True] .
    ultimately show ?thesis
      using that l ne True by (simp add: hs_get_header_def hs_load_headers_def sc_list_def list_view_def)
  next
    case False
    have "hs_get_header HB d now k s = Some (Ok None, s)"
    proof (cases "xs = []")
      case ne: False
      then have "0 < length xs" by simp
      then have "unat (list_tip b xs) < unat k \<or> unat k < unat b" unfolding unat_list_tip [OF ne bx] using False by linarith
      then have "list_tip b xs < k \<or> k < b" by (simp add: word_less_nat_alt)
      then show ?thesis using l ne by (auto simp: hs_get_header_def sc_list_def)
    qed (use l in \<open>simp add: hs_get_header_def sc_list_def\<close>)
    then show ?thesis using that r False by (simp add: list_view_def)
  qed
qed

lemma hs_get_tip_list:
  assumes HB: "\<And>bs. length (HB bs) = 32" and r: "hs_repr HB d s b xs"
  obtains s' where "hs_get_tip HB d now s =
      Some (if xs = [] then None else Some (block_header_tip_new (list_tip b xs) (last xs)), s')" "hs_repr HB d s' b xs"
proof (cases "xs = []")
  case True
  then show ?thesis using that [of s] r by (simp add: hs_repr_def sc_list_def hs_get_tip_def)
next
  case False
  have tp: "tip_height (block_headers s) = Some (list_tip b xs)" and bx: "unat b + length xs \<le> 500000000"
    using r False by (simp_all add: hs_repr_def sc_list_def)
  note ut = unat_list_tip [OF False bx]
  have "0 < length xs" using False by simp
  then have k: "in_list b xs (list_tip b xs)" "unat (list_tip b xs) - unat b = length xs - 1" unfolding ut by linarith+
  obtain c' where "get_items (header_item HB) d now (list_tip b xs) (list_tip b xs + 1) (block_headers s) =
      Some (Ok [xs ! (unat (list_tip b xs) - unat b)], c')" "hs_repr HB d (s\<lparr>block_headers := c'\<rparr>) b xs"
    using sc_list_one [OF HB r k(1)] .
  then show ?thesis using that False tp k(2) by (simp add: hs_get_tip_def last_conv_nth)
qed

lemma index_lookup:
  assumes "hs_repr HB d s b xs"
  shows "i < length xs \<Longrightarrow> hs_get_header_height_by_hash (hh_hash (xs ! i)) s = Ok (Some (b + as_u32 i))"
    "x \<notin> hh_hash ` set xs \<Longrightarrow> hs_get_header_height_by_hash x s = Ok None"
proof -
  have ix: "hm_get (header_hash_index s) x = Some k \<longleftrightarrow> (\<exists>i<length xs. hh_hash (xs ! i) = x \<and> k = b + as_u32 i)" for x k
    using assms unfolding hs_repr_def index_ok_def by blast
  show "i < length xs \<Longrightarrow> hs_get_header_height_by_hash (hh_hash (xs ! i)) s = Ok (Some (b + as_u32 i))"
    using ix unfolding hs_get_header_height_by_hash_def by blast
  assume "x \<notin> hh_hash ` set xs"
  then have "hm_get (header_hash_index s) x \<noteq> Some k" for k using ix by (metis image_eqI nth_mem)
  then show "hs_get_header_height_by_hash x s = Ok None"
    unfolding hs_get_header_height_by_hash_def by (metis not_None_eq)
qed

section \<open>Properties\<close>

text \<open>
  C4: The header store is a list of headers from a start height on. Storing a batch appends it,
  truncating above a height keeps the prefix up to that height, reading a height gives the header
  of the list there or nothing outside the list, the tip is the last header, and the index finds
  the height of every stored header and of no other hash. This holds whatever segments are in
  memory, for lists below 500 million headers with distinct hashes and a directory whose files
  can be read.
\<close>

theorem header_store_list:
  assumes HB: "\<forall>bs. length (HB bs) = 32" and r: "hs_repr HB d s b xs"
  shows "(ys \<noteq> [] \<and> storable xs ys \<and> (xs = [] \<longrightarrow> b = 0) \<and> unat b + length (xs @ ys) \<le> 500000000 \<longrightarrow>
      (\<exists>s'. hs_store_hashed_headers HB d now ys s = (Ok (), s') \<and> hs_repr HB d s' b (xs @ ys))) \<and>
    (xs \<noteq> [] \<and> unat b \<le> unat target \<longrightarrow>
      (\<exists>s'. hs_truncate_above HB d now target s = (Ok (), s') \<and>
        hs_repr HB d s' b (take (Suc (unat target - unat b)) xs))) \<and>
    (\<exists>s'. hs_get_header HB d now k s = Some (Ok (map_option hh_header (list_view b xs k)), s') \<and> hs_repr HB d s' b xs) \<and>
    (\<exists>s'. hs_get_tip HB d now s =
        Some (if xs = [] then None else Some (block_header_tip_new (list_tip b xs) (last xs)), s') \<and> hs_repr HB d s' b xs) \<and>
    (\<forall>i<length xs. hs_get_header_height_by_hash (hh_hash (xs ! i)) s = Ok (Some (b + as_u32 i))) \<and>
    (x \<notin> hh_hash ` set xs \<longrightarrow> hs_get_header_height_by_hash x s = Ok None)"
proof (intro conjI impI allI)
  have HB': "\<And>bs. length (HB bs) = 32" using HB by blast
  have l: "sc_list hashed_ok (header_item HB) d (block_headers s) b xs" using r by (simp add: hs_repr_def)
  then have bx: "unat b + length xs \<le> 500000000" by (simp add: sc_list_def)
  show "\<exists>s'. hs_store_hashed_headers HB d now ys s = (Ok (), s') \<and> hs_repr HB d s' b (xs @ ys)"
    if a: "ys \<noteq> [] \<and> storable xs ys \<and> (xs = [] \<longrightarrow> b = 0) \<and> unat b + length (xs @ ys) \<le> 500000000"
  proof -
    let ?h = "next_height (block_headers s)"
    have nh: "?h = (if xs = [] then 0 else b + as_u32 (length xs))" by (rule next_height_list [OF l])
    have "unat ?h = unat b + length xs" using a bx by (auto simp: nh unat_word_ariths unat_u32_of_nat)
    then have fits: "unat ?h + length ys \<le> 500000000" using a by simp
    obtain s' where "hs_store_hashed_headers_at_height HB d now ys ?h s = (Ok (), s')"
      "hs_repr HB d s' (if xs = [] then ?h else b) (xs @ ys)"
      using hs_store [OF r _ _ _ fits, where now = now] a nh by auto
    moreover have "(if xs = [] then ?h else b) = b" using a nh by simp
    ultimately show ?thesis by (simp add: hs_store_hashed_headers_def)
  qed
  show "\<exists>s'. hs_truncate_above HB d now target s = (Ok (), s') \<and> hs_repr HB d s' b (take (Suc (unat target - unat b)) xs)"
    if "xs \<noteq> [] \<and> unat b \<le> unat target"
    using hs_truncate [OF HB' r that [THEN conjunct1] that [THEN conjunct2]] by blast
  show "\<exists>s'. hs_get_header HB d now k s = Some (Ok (map_option hh_header (list_view b xs k)), s') \<and> hs_repr HB d s' b xs"
    using hs_get_header_list [OF HB' r] by blast
  show "\<exists>s'. hs_get_tip HB d now s =
        Some (if xs = [] then None else Some (block_header_tip_new (list_tip b xs) (last xs)), s') \<and> hs_repr HB d s' b xs"
    using hs_get_tip_list [OF HB' r] by blast
  show "hs_get_header_height_by_hash (hh_hash (xs ! i)) s = Ok (Some (b + as_u32 i))" if "i < length xs" for i
    by (rule index_lookup(1) [OF r that])
  show "hs_get_header_height_by_hash x s = Ok None" if "x \<notin> hh_hash ` set xs"
    by (rule index_lookup(2) [OF r that])
qed

text \<open>The state the witnesses start from: nothing stored, and a directory without files.\<close>

definition empty_disk :: disk where
  "empty_disk = \<lparr>dk_files = [], dk_readable = \<lambda>_. True, dk_writable = \<lambda>_. True\<rparr>"

definition hs_empty :: header_storage where
  "hs_empty = \<lparr>block_headers = sc_empty, header_hash_index = []\<rparr>"

definition zero_hash :: "u8 list \<Rightarrow> block_hash" where
  "zero_hash bs = replicate 32 0"

definition some_header :: hashed_header where
  "some_header = \<lparr>hh_header = sentinel_header\<lparr>nonce := 0\<rparr>, hh_hash = replicate 32 7\<rparr>"

lemma hs_empty_repr: "hs_repr zero_hash empty_disk hs_empty 0 []"
  using sc_list_empty [OF _ header_item_persistable [of zero_hash]]
  by (simp add: hs_repr_def hs_empty_def empty_disk_def index_ok_Nil zero_hash_def)

lemma some_header_storable: "storable [] [some_header]"
  by (simp add: storable_def some_header_def hashed_ok_def header_valid_def sentinel_header_def)

theorem header_store_list_witness:
  "\<exists>s'. hs_store_hashed_headers zero_hash empty_disk 0 [some_header] hs_empty = (Ok (), s') \<and>
     hs_repr zero_hash empty_disk s' 0 [some_header]"
  using header_store_list [OF _ hs_empty_repr, of "[some_header]" 0 0 0 "[]"] some_header_storable
  by (simp add: zero_hash_def)

text \<open>
  C5: What is persisted is found again: when every file of the directory can be read and
  written, persisting a non-empty header store and opening the directory anew gives a store of
  the same headers at the same heights with the same index, whatever segments were in memory.
\<close>

theorem header_store_reopen:
  assumes HB: "\<forall>bs. length (HB bs) = 32" and r: "hs_repr HB d s b xs" and ne: "xs \<noteq> []"
    and io: "\<forall>sid. dk_writable d sid \<and> dk_readable d sid"
  shows "\<exists>d' s' s2. hs_persist HB d s = (d', s') \<and> hs_open HB d' now = Some (Ok s2) \<and> hs_repr HB d' s2 b xs"
proof -
  let ?p = "header_item HB"
  have HB': "\<And>bs. length (HB bs) = 32" using HB by blast
  have l: "sc_list hashed_ok ?p d (block_headers s) b xs" and dist: "distinct (map hh_hash xs)"
    using r by (simp_all add: hs_repr_def)
  have w: "\<And>sid. dk_writable d sid" and rd: "\<And>sid. dk_readable d sid" using io by blast+
  obtain d' c' c2 where o: "sc_persist ?p d (block_headers s) = (d', c')" "load_or_new ?p d' now = Ok c2"
    "sc_list hashed_ok ?p d' c2 b xs" "dk_readable d' = dk_readable d" "dk_writable d' = dk_writable d"
    using sc_list_reopen [OF header_item_persistable [OF HB'] l ne w rd, where now = now] .
  have bx: "unat b + length xs \<le> 500000000" and heights: "start_height c2 = Some b" "tip_height c2 = Some (list_tip b xs)"
    using o(3) ne by (simp_all add: sc_list_def)
  let ?e = "list_tip b xs + 1"
  have e: "unat ?e = unat b + length xs"
    using bx by (simp add: list_tip_def unat_word_ariths unat_u32_of_nat)
  have be: "b < ?e" using e ne by (simp add: word_less_nat_alt)
  obtain c3 where g: "get_items ?p d' now b ?e c2 = Some (Ok (take (unat ?e - unat b) (drop (unat b - unat b) xs)), c3)"
    "sc_list hashed_ok ?p d' c3 b xs"
    using sc_list_get [OF header_item_persistable [OF HB'] o(3) order_refl be eq_refl [OF e]] .
  have "index_ok (index_headers xs b []) b xs"
    using index_headers_ok [of "[]" b "[]" xs] dist by (simp add: index_ok_Nil)
  then have "hs_repr HB d' \<lparr>block_headers = c3, header_hash_index = index_headers xs b []\<rparr> b xs"
    using g(2) dist by (simp add: hs_repr_def)
  moreover have "hs_open HB d' now = Some (Ok \<lparr>block_headers = c3, header_hash_index = index_headers xs b []\<rparr>)"
    using o(2) heights g(1) e by (simp add: hs_open_def)
  ultimately show ?thesis using o(1) by (auto simp: hs_persist_def)
qed

theorem header_store_reopen_witness:
  "\<exists>s d' s' s2. hs_repr zero_hash empty_disk s 0 [some_header] \<and> hs_persist zero_hash empty_disk s = (d', s') \<and>
     hs_open zero_hash d' 1 = Some (Ok s2) \<and> hs_repr zero_hash d' s2 0 [some_header]"
proof -
  obtain s where s: "hs_repr zero_hash empty_disk s 0 [some_header]"
    using hs_store [OF hs_empty_repr _ some_header_storable, of 0 0] by auto
  have "\<forall>bs. length (zero_hash bs) = 32" "\<forall>sid. dk_writable empty_disk sid \<and> dk_readable empty_disk sid"
    by (simp_all add: zero_hash_def empty_disk_def)
  from header_store_reopen [OF this(1) s _ this(2), of 1] s show ?thesis by blast
qed

text \<open>
  C9: Reading a block at a height in a segment above the last stored one creates that segment,
  the next persist writes it as a file without items, and after the store is opened again its
  tip is unknown, although every block is still there: truncating the store then does nothing,
  whatever the target.
\<close>

theorem block_read_hides_tip:
  assumes HB: "\<forall>bs. length (HB bs) = 32"
    and st: "sc_inv (block_item HB) d c" "items_valid hashed_block_ok (block_item HB) d c" "disk_ok (block_item HB) d" "sc_tight d c"
    and io: "\<forall>sid. dk_writable d sid \<and> dk_readable d sid"
    and tip: "tip_height c = Some t" "height_to_segment_id t < height_to_segment_id h"
    and h: "height_to_segment_id h < 10000" "height_to_segment_id h \<notin> set (to_delete c)"
  shows "\<exists>c1 d' c2 c3. bs_load_block HB d now h c = (Ok None, c1) \<and> sc_persist (block_item HB) d c1 = (d', c2) \<and>
    load_or_new (block_item HB) d' now' = Ok c3 \<and> tip_height c3 = None \<and>
    sc_view (block_item HB) d' c3 = sc_view (block_item HB) d c \<and>
    (\<forall>target. bs_truncate_above HB d' now' target c3 = (Ok (), c3))"
proof -
  let ?p = "block_item HB" and ?sid = "height_to_segment_id h"
  have p: "persistable_item ?p hashed_block_ok" using HB by (intro block_item_persistable) blast
  note eq = persistable_item.eq_sentinel [OF p]
  have below: "sid < ?sid" if "sid \<in> sc_known d c" for sid
    using st(4) that tip by (auto simp: sc_tight_def)
  then have new: "?sid \<notin> sc_known d c" by blast
  then have "hm_get (segments c) ?sid = None" "hm_get (evicted c) ?sid = None" "hm_get (dk_files d) ?sid = None"
    using h(2) by (simp_all add: sc_known_def map_of_eq_None_iff)
  then have empty: "seg_view ?p d c ?sid = replicate seg_len (sentinel ?p)" by (simp add: seg_view_def disk_items_def)
  obtain s c0 where g: "get_segment_mut ?p d now ?sid c = (Ok s, c0)" "seg_state s = Dirty"
    using get_segment_mut_fresh [OF st(1) new] .
  define c1 where "c1 = put_segment ?sid (s\<lparr>last_accessed := now\<rparr>) c0"
  note t1 = touch_spec [OF st(1) g(1), folded c1_def]
  have load: "bs_load_block HB d now h c = (Ok None, c1)"
    using g(1) h(2) get_segment_mut_spec(6) [OF st(1) g(1) refl] empty eq
    by (simp add: bs_load_block_def get_item_def get_single_def c1_def Let_def)
  have known: "sc_known d c1 \<subseteq> insert ?sid (sc_known d c)"
    using get_segment_mut_known [of d ?p now ?sid c] g(1) by (auto simp: c1_def put_segment_known)
  have le: "sid \<le> ?sid" if "sid \<in> sc_known d c1" for sid
    using subsetD [OF known that] below [of sid] by (auto simp: less_imp_le)
  have small: "sid < 10000" if "sid \<in> sc_known d c1" for sid using le [OF that] h(1) by (rule le_less_trans)
  have w: "\<And>sid. dk_writable d sid" and r: "\<And>sid. dk_readable d sid" using io by blast+
  have v1: "items_valid hashed_block_ok ?p d c1" by (rule items_valid_same [OF st(2) t1(2)])
  obtain d' c2 c3 where o: "sc_persist ?p d c1 = (d', c2)" "load_or_new ?p d' now' = Ok c3"
    "sc_inv ?p d' c3" "seg_view ?p d' c3 = seg_view ?p d c1" "to_delete c3 = []" "disk_ok ?p d'"
    "dk_readable d' = dk_readable d" "dk_writable d' = dk_writable d"
    "sc_known d' c3 = fst ` set (dk_files d')" "fst ` set (dk_files d') \<subseteq> sc_known d c1"
    "\<forall>sid s. hm_get (segments c1) sid = Some s \<longrightarrow> seg_state s = Dirty \<longrightarrow> sid \<in> fst ` set (dk_files d')"
    "\<forall>k. sc_view ?p d c1 k \<noteq> None \<longrightarrow> height_to_segment_id k \<in> fst ` set (dk_files d')"
    "dk_files d' \<noteq> [] \<longrightarrow>
       tip_height c3 = (let m = Max (fst ` set (dk_files d')) in last_height ?p m (seg_view ?p d c1 m)) \<and>
       start_height c3 = (let m = Min (fst ` set (dk_files d')) in first_height ?p m (seg_view ?p d c1 m))"
    "dk_files d' = [] \<longrightarrow> tip_height c3 = None \<and> start_height c3 = None"
    using persistable_item.persist_load [OF p t1(1) v1 st(3) w r small, where now = now'] .
  have "hm_get (segments c1) ?sid = Some (s\<lparr>last_accessed := now\<rparr>)" by (simp add: c1_def put_segment_def update_conv')
  then have fl: "?sid \<in> fst ` set (dk_files d')" using o(11) g(2) by auto
  have "Max (fst ` set (dk_files d')) = ?sid"
    using fl o(10) le by (intro Max_eqI) blast+
  moreover have "last_height ?p ?sid (seg_view ?p d c1 ?sid) = None"
    using eq by (simp add: t1(2) empty last_height_def find_None_iff)
  moreover have "dk_files d' \<noteq> []" using fl by auto
  ultimately have "tip_height c3 = None" using o(13) by (simp add: Let_def)
  moreover have "sc_view ?p d' c3 = sc_view ?p d c" by (rule view_of_segments) (simp add: o(4) t1(2))
  ultimately show ?thesis
    using load o(1,2) by (auto simp: bs_truncate_above_def sc_truncate_above_def)
qed

definition some_block :: hashed_block where
  "some_block = \<lparr>hb_hash = replicate 32 7, hb_block = \<lparr>b_header = sentinel_header\<lparr>nonce := 0\<rparr>, txdata = []\<rparr>\<rparr>"

lemma some_block_ok: "hashed_block_ok some_block" "valid_item (block_item zero_hash) some_block"
proof -
  have ok: "block_ok (hb_block some_block)"
    by (simp add: some_block_def block_ok_def header_valid_def sentinel_header_def)
  have "length (header_encode (b_header (hb_block some_block))) = 80"
    using ok by (intro length_header_encode) (simp add: block_ok_def)
  then have "length (ok_bytes block_encode (hb_block some_block)) \<le> MAX_VEC_SIZE"
    using block_encode_ok [OF ok]
    by (simp add: ok_bytes_def vec_encode_def varint_encode_def emit_u8_def MAX_VEC_SIZE_def some_block_def)
  then show "hashed_block_ok some_block" using ok by (simp add: hashed_block_ok_def) (simp add: some_block_def)
  show "valid_item (block_item zero_hash) some_block"
    by (simp add: block_item_def some_block_def hashed_block_from_def sentinel_header_def)
qed

theorem block_read_hides_tip_witness:
  "\<exists>c c1 d' c2 c3. sc_view (block_item zero_hash) empty_disk c 0 = Some some_block \<and>
     bs_load_block zero_hash empty_disk 1 50000 c = (Ok None, c1) \<and>
     sc_persist (block_item zero_hash) empty_disk c1 = (d', c2) \<and>
     load_or_new (block_item zero_hash) d' 2 = Ok c3 \<and> tip_height c3 = None \<and>
     sc_view (block_item zero_hash) d' c3 0 = Some some_block"
proof -
  let ?p = "block_item zero_hash"
  have HB: "\<forall>bs. length (zero_hash bs) = 32" by (simp add: zero_hash_def)
  have p: "persistable_item ?p hashed_block_ok" using HB by (intro block_item_persistable) blast
  have "sc_list hashed_block_ok ?p empty_disk sc_empty 0 []" by (rule sc_list_empty [OF _ p]) (simp add: empty_disk_def)
  then obtain c where c: "store_items_at_height ?p empty_disk 0 [some_block] 0 sc_empty = (Ok (), c)"
    "sc_list hashed_block_ok ?p empty_disk c 0 [some_block]"
    using sc_list_store [of hashed_block_ok ?p empty_disk sc_empty 0 "[]" "[some_block]" 0 0] some_block_ok by auto
  have del: "to_delete c = []"
    using store_items_at_height_spec(5) [OF sc_inv_empty c(1)] by (simp add: sc_empty_simps)
  have tip: "tip_height c = Some 0" using c(2) by (simp add: sc_list_def list_tip_def)
  have v: "sc_view ?p empty_disk c 0 = Some some_block" using c(2) by (simp add: sc_list_def list_view_def)
  have ids: "height_to_segment_id 0 = 0" "height_to_segment_id 50000 = 1"
    by (simp_all add: height_to_segment_id_def ITEMS_PER_SEGMENT_def)
  have io: "\<forall>sid. dk_writable empty_disk sid \<and> dk_readable empty_disk sid" by (simp add: empty_disk_def)
  have st: "sc_inv ?p empty_disk c" "items_valid hashed_block_ok ?p empty_disk c" "disk_ok ?p empty_disk" "sc_tight empty_disk c"
    using c(2) by (simp_all add: sc_list_def)
  obtain c1 d' c2 c3 where r: "bs_load_block zero_hash empty_disk 1 50000 c = (Ok None, c1)"
    "sc_persist ?p empty_disk c1 = (d', c2)" "load_or_new ?p d' 2 = Ok c3" "tip_height c3 = None"
    "sc_view ?p d' c3 = sc_view ?p empty_disk c"
    using block_read_hides_tip [OF HB st io tip, of 50000 1 2] unfolding ids del by auto
  show ?thesis using r v fun_cong [OF r(5), of 0] by metis
qed

end
