(* ===== verification/Reorg.thy ===== *)
theory Reorg
  imports Storage Checkpoints Fork_Buffer
begin

text \<open>
  Chain reorganisations, from \<open>src/dash-spv/src/sync/reorg.rs\<close>: the guards a fork candidate has to
  pass, the list of denied forks, and the cascade that switches the header store to the fork and
  cuts the filter headers, filters and blocks off above the common ancestor, with the marker file
  of \<open>src/dash-spv/src/storage/metadata.rs\<close> that is set meanwhile. The locks are left out: the
  single-flight flag is what keeps two cascades apart. The clock is read once.

  A cascade that completes leaves the ancestor's prefix of the header list with the fork behind
  it and nothing above the ancestor elsewhere; a rejected candidate changes nothing but the deny
  list; and a block store whose first block lies above the ancestor makes the cascade fail half
  way.
\<close>

section \<open>Constants and state\<close>

definition MAX_REORG_DEPTH :: u32 where
  "MAX_REORG_DEPTH = 100"

definition FRESH_CLIENT_FORK_FLOOR :: u32 where
  "FRESH_CLIENT_FORK_FLOOR = 100"

definition is_below_chainlock_floor :: "u32 \<Rightarrow> u32 \<Rightarrow> bool" where
  "is_below_chainlock_floor ancestor_height cl_height \<longleftrightarrow> ancestor_height < cl_height"

definition saturating_sub :: "u32 \<Rightarrow> u32 \<Rightarrow> u32" where
  "saturating_sub x y = (if x < y then 0 else x - y)"

record reorg_state =
  deny_list :: "(block_hash, u32) hash_map"
  in_flight :: bool

definition evict_expired_denials :: "u32 \<Rightarrow> reorg_state \<Rightarrow> reorg_state" where
  "evict_expired_denials best_chainlock_height s =
     s\<lparr>deny_list := hm_retain (\<lambda>_ ttl. best_chainlock_height < ttl) (deny_list s)\<rparr>"

text \<open>The events of a cascade.\<close>

datatype reorg_event =
    ChainReorg (re_fork_height: u32) (re_old_tip: block_hash) (re_new_tip: block_hash) (re_generation: u64)
  | DeepReorgDetected (re_fork_height: u32) (re_depth: u32)

section \<open>The marker of a reorganisation in progress\<close>

text \<open>
  The marker file of the metadata folder; the last two fields say whether files there can be
  written and removed.
\<close>

record metadata =
  reorg_sentinel :: bool
  md_writable :: bool
  md_removable :: bool

definition write_reorg_sentinel :: "metadata \<Rightarrow> unit storage_result \<times> metadata" where
  "write_reorg_sentinel m =
     (if md_writable m then (Ok (), m\<lparr>reorg_sentinel := True\<rparr>) else (Err (IoError ''metadata''), m))"

definition clear_reorg_sentinel :: "metadata \<Rightarrow> unit storage_result \<times> metadata" where
  "clear_reorg_sentinel m =
     (if \<not> reorg_sentinel m then (Ok (), m)
      else if md_removable m then (Ok (), m\<lparr>reorg_sentinel := False\<rparr>)
      else (Err (IoError ''metadata''), m))"

section \<open>The stores\<close>

record storages =
  st_header_dir :: disk
  st_headers :: header_storage
  st_filter_header_dir :: disk
  st_filter_headers :: "u8 list segment_cache"
  st_filter_dir :: disk
  st_filters :: "u8 list segment_cache"
  st_block_dir :: disk
  st_blocks :: "hashed_block segment_cache"
  st_metadata :: metadata

text \<open>Which of the optional handles of \<open>ReorgStorages\<close> are given.\<close>

record reorg_handles =
  has_filter_headers :: bool
  has_filters :: bool
  has_blocks :: bool

text \<open>\<open>From<StorageError> for SyncError\<close>, up to the wording.\<close>

fun sync_of_storage :: "storage_error \<Rightarrow> sync_error" where
  "sync_of_storage (Corruption m) = StorageError m"
| "sync_of_storage (NotFound m) = StorageError m"
| "sync_of_storage (WriteFailed m) = StorageError m"
| "sync_of_storage (ReadFailed m) = StorageError m"
| "sync_of_storage (InvalidArgument m) = StorageError m"
| "sync_of_storage (IoError m) = StorageError m"
| "sync_of_storage (Serialization m) = StorageError m"
| "sync_of_storage (DirectoryLocked m) = StorageError m"

section \<open>Guards\<close>

text \<open>
  A guard that fires gives the height up to which the fork is denied and the event to report.
\<close>

definition checkpoint_guard :: "checkpoint_manager \<Rightarrow> u32 \<Rightarrow> (u32 \<times> reorg_event option) option" where
  "checkpoint_guard cm ancestor =
     (if should_reject_fork cm ancestor
      then Some (case last_checkpoint cm of Some cp \<Rightarrow> cp_height cp | None \<Rightarrow> 0xFFFFFFFF, None)
      else None)"

definition floor_guard :: "checkpoint_manager \<Rightarrow> u32 option \<Rightarrow> u32 \<Rightarrow> u32 \<Rightarrow> (u32 \<times> reorg_event option) option" where
  "floor_guard cm best_chainlock_height current_tip_height ancestor =
     (case best_chainlock_height of
        Some cl_height \<Rightarrow> if is_below_chainlock_floor ancestor cl_height then Some (cl_height, None) else None
      | None \<Rightarrow>
          let checkpoint_height = (case last_checkpoint cm of Some cp \<Rightarrow> cp_height cp | None \<Rightarrow> 0);
              recent_floor = saturating_sub current_tip_height FRESH_CLIENT_FORK_FLOOR;
              floor = max checkpoint_height recent_floor
          in if ancestor < floor then Some (floor, None) else None)"

definition depth_guard :: "u32 \<Rightarrow> u32 \<Rightarrow> (u32 \<times> reorg_event option) option" where
  "depth_guard current_tip_height ancestor =
     (let depth = saturating_sub current_tip_height ancestor in
      if MAX_REORG_DEPTH < depth then Some (0xFFFFFFFF, Some (DeepReorgDetected ancestor depth)) else None)"

definition run_guards ::
  "checkpoint_manager \<Rightarrow> u32 option \<Rightarrow> u32 \<Rightarrow> bool \<Rightarrow> u32 \<Rightarrow> (u32 \<times> reorg_event option) option"
where
  "run_guards cm best_chainlock_height current_tip_height force ancestor =
     (case checkpoint_guard cm ancestor of
        Some r \<Rightarrow> Some r
      | None \<Rightarrow>
          if force then None
          else
            (case floor_guard cm best_chainlock_height current_tip_height ancestor of
               Some r \<Rightarrow> Some r
             | None \<Rightarrow> depth_guard current_tip_height ancestor))"

section \<open>The cascade\<close>

definition truncate_filter_headers ::
  "instant \<Rightarrow> reorg_handles \<Rightarrow> u32 \<Rightarrow> storages \<Rightarrow> unit storage_result \<times> storages"
where
  "truncate_filter_headers now hdl ancestor st =
     (if has_filter_headers hdl then
        let (r, c) = sc_truncate_above filter_header_item (st_filter_header_dir st) now ancestor (st_filter_headers st)
        in (r, st\<lparr>st_filter_headers := c\<rparr>)
      else (Ok (), st))"

definition truncate_filters ::
  "instant \<Rightarrow> reorg_handles \<Rightarrow> u32 \<Rightarrow> storages \<Rightarrow> unit storage_result \<times> storages"
where
  "truncate_filters now hdl ancestor st =
     (if has_filters hdl then
        let (r, c) = sc_truncate_above bytes_item (st_filter_dir st) now ancestor (st_filters st)
        in (r, st\<lparr>st_filters := c\<rparr>)
      else (Ok (), st))"

definition truncate_blocks ::
  "(u8 list \<Rightarrow> block_hash) \<Rightarrow> instant \<Rightarrow> reorg_handles \<Rightarrow> u32 \<Rightarrow> storages \<Rightarrow> unit storage_result \<times> storages"
where
  "truncate_blocks HB now hdl ancestor st =
     (if has_blocks hdl then
        let (r, c) = bs_truncate_above HB (st_block_dir st) now ancestor (st_blocks st)
        in (r, st\<lparr>st_blocks := c\<rparr>)
      else (Ok (), st))"

definition switch_headers ::
  "(u8 list \<Rightarrow> block_hash) \<Rightarrow> instant \<Rightarrow> fork_candidate \<Rightarrow> storages \<Rightarrow> unit storage_result \<times> storages"
where
  "switch_headers HB now candidate st =
     (case hs_truncate_above HB (st_header_dir st) now (fc_ancestor_height candidate) (st_headers st) of
        (Err e, h) \<Rightarrow> (Err e, st\<lparr>st_headers := h\<rparr>)
      | (Ok _, h) \<Rightarrow>
          let (r, h') = hs_store_hashed_headers HB (st_header_dir st) now (fc_headers candidate) h
          in (r, st\<lparr>st_headers := h'\<rparr>))"

text \<open>\<open>?\<close> on a storage operation: the rest runs only on success.\<close>

definition and_then ::
  "unit storage_result \<times> storages \<Rightarrow> (storages \<Rightarrow> unit storage_result \<times> storages) \<Rightarrow> unit storage_result \<times> storages"
where
  "and_then r f = (case r of (Err e, st) \<Rightarrow> (Err e, st) | (Ok _, st) \<Rightarrow> f st)"

definition cascade ::
  "(u8 list \<Rightarrow> block_hash) \<Rightarrow> instant \<Rightarrow> reorg_handles \<Rightarrow> fork_candidate \<Rightarrow> storages \<Rightarrow> unit storage_result \<times> storages"
where
  "cascade HB now hdl candidate st =
     (let a = fc_ancestor_height candidate in
      and_then (and_then (and_then (switch_headers HB now candidate st)
        (truncate_filter_headers now hdl a)) (truncate_filters now hdl a)) (truncate_blocks HB now hdl a))"

definition run_guards_and_cascade ::
  "(u8 list \<Rightarrow> block_hash) \<Rightarrow> instant \<Rightarrow> reorg_handles \<Rightarrow> checkpoint_manager \<Rightarrow> u32 option \<Rightarrow> u32 \<Rightarrow> block_hash \<Rightarrow> bool \<Rightarrow>
     fork_candidate \<Rightarrow> block_hash \<Rightarrow> reorg_state \<Rightarrow> u64 \<Rightarrow> storages \<Rightarrow>
     reorg_event option sync_result \<times> reorg_state \<times> u64 \<times> storages"
where
  "run_guards_and_cascade HB now hdl cm best_chainlock_height current_tip_height current_tip_hash force
     candidate candidate_tip_hash state generation st =
     (case run_guards cm best_chainlock_height current_tip_height force (fc_ancestor_height candidate) of
        Some (ttl, event) \<Rightarrow>
          (Ok event, state\<lparr>deny_list := hm_insert candidate_tip_hash ttl (deny_list state)\<rparr>, generation, st)
      | None \<Rightarrow>
          (case write_reorg_sentinel (st_metadata st) of
             (Err e, m) \<Rightarrow> (Err (sync_of_storage e), state, generation, st\<lparr>st_metadata := m\<rparr>)
           | (Ok _, m) \<Rightarrow>
               let new_generation = generation + 1 in
               (case cascade HB now hdl candidate (st\<lparr>st_metadata := m\<rparr>) of
                  (Err e, st') \<Rightarrow> (Err (sync_of_storage e), state, new_generation, st')
                | (Ok _, st') \<Rightarrow>
                    let (_, m') = clear_reorg_sentinel (st_metadata st') in
                    (Ok (Some (ChainReorg (fc_ancestor_height candidate) current_tip_hash candidate_tip_hash new_generation)),
                     state, new_generation, st'\<lparr>st_metadata := m'\<rparr>))))"

text \<open>\<open>None\<close> is the panic on a candidate without headers.\<close>

definition handle_reorg ::
  "(u8 list \<Rightarrow> block_hash) \<Rightarrow> instant \<Rightarrow> reorg_handles \<Rightarrow> checkpoint_manager \<Rightarrow> u32 option \<Rightarrow> u32 \<Rightarrow> block_hash \<Rightarrow> bool \<Rightarrow>
     fork_candidate \<Rightarrow> reorg_state \<Rightarrow> u64 \<Rightarrow> storages \<Rightarrow>
     (reorg_event option sync_result \<times> reorg_state \<times> u64 \<times> storages) option"
where
  "handle_reorg HB now hdl cm best_chainlock_height current_tip_height current_tip_hash force candidate state generation st =
     (case fc_tip_hash candidate of
        None \<Rightarrow> None
      | Some candidate_tip_hash \<Rightarrow>
          if in_flight state then Some (Ok None, state, generation, st)
          else if hm_contains (deny_list state) candidate_tip_hash then Some (Ok None, state, generation, st)
          else
            let (r, state', generation', st') =
                  run_guards_and_cascade HB now hdl cm best_chainlock_height current_tip_height current_tip_hash force
                    candidate candidate_tip_hash (state\<lparr>in_flight := True\<rparr>) generation st
            in Some (r, state'\<lparr>in_flight := False\<rparr>, generation', st'))"

section \<open>What the steps do\<close>

text \<open>A cache that can be cut off above a height: nothing is stored above, or its first item is not.\<close>

definition cuttable :: "'i persistable \<Rightarrow> disk \<Rightarrow> 'i segment_cache \<Rightarrow> u32 \<Rightarrow> bool" where
  "cuttable p d c a \<longleftrightarrow> sc_inv p d c \<and> sc_bounded p d c \<and> disk_ok p d \<and>
     (\<forall>t. tip_height c = Some t \<longrightarrow> t \<le> a \<or> (\<exists>s. start_height c = Some s \<and> s \<le> a))"

definition cut :: "u32 \<Rightarrow> (u32 \<Rightarrow> 'i option) \<Rightarrow> u32 \<Rightarrow> 'i option" where
  "cut a f k = (if k \<le> a then f k else None)"

lemma truncate_cut:
  assumes c: "cuttable p d c a" and eq: "item_eq p (sentinel p) (sentinel p)"
  obtains c' where "sc_truncate_above p d now a c = (Ok (), c')" "sc_inv p d c'" "sc_view p d c' = cut a (sc_view p d c)"
proof (cases "\<exists>t. tip_height c = Some t \<and> a < t")
  case True
  then obtain t s where t: "tip_height c = Some t" "a < t" "start_height c = Some s" "s \<le> a"
    using c unfolding cuttable_def by (metis not_le)
  have st: "sc_inv p d c" "sc_bounded p d c" "disk_ok p d" using c by (simp_all add: cuttable_def)
  obtain c' where c': "sc_truncate_above p d now a c = (Ok (), c')" using truncate_Ok [OF st(3) t(1,3,4)] by blast
  note spec = truncate_spec [OF st(1) eq st(2) t(1,2) c']
  have "sc_view p d c' = cut a (sc_view p d c)" by (simp add: fun_eq_iff cut_def spec(2))
  then show ?thesis using that c' spec(1) by blast
next
  case False
  then have "sc_truncate_above p d now a c = (Ok (), c)"
    by (auto simp: sc_truncate_above_def not_less split: option.split)
  moreover have "sc_view p d c = cut a (sc_view p d c)"
  proof
    fix k
    show "sc_view p d c k = cut a (sc_view p d c) k"
    proof (cases "sc_view p d c k")
      case (Some x)
      then obtain t where "tip_height c = Some t" "k \<le> t"
        using c unfolding cuttable_def sc_bounded_def by (metis option.distinct(1))
      then have "k \<le> a" using False by (auto simp: not_less intro: order_trans)
      then show ?thesis by (simp add: cut_def)
    qed (simp add: cut_def)
  qed
  ultimately show ?thesis using that c unfolding cuttable_def by blast
qed



lemma switch_headers_ok:
  assumes hb: "\<forall>bs. length (HB bs) = 32" and r: "hs_repr HB (st_header_dir st) (st_headers st) b xs"
    and a: "unat b \<le> unat (fc_ancestor_height cand)" "unat (fc_ancestor_height cand) < unat b + length xs"
    and new: "fc_headers cand \<noteq> []" "storable (take (Suc (unat (fc_ancestor_height cand) - unat b)) xs) (fc_headers cand)"
      "unat (fc_ancestor_height cand) + 1 + length (fc_headers cand) \<le> 500000000"
  obtains h where "switch_headers HB now cand st = (Ok (), st\<lparr>st_headers := h\<rparr>)"
    "hs_repr HB (st_header_dir st) h b (take (Suc (unat (fc_ancestor_height cand) - unat b)) xs @ fc_headers cand)"
proof -
  let ?a = "fc_ancestor_height cand" and ?d = "st_header_dir st"
  let ?ys = "take (Suc (unat ?a - unat b)) xs"
  have ne: "xs \<noteq> []" using a by auto
  have HB: "\<And>bs. length (HB bs) = 32" using hb by blast
  obtain h1 where h1: "hs_truncate_above HB ?d now ?a (st_headers st) = (Ok (), h1)" "hs_repr HB ?d h1 b ?ys"
    using hs_truncate [OF HB r ne a(1)] .
  have l: "sc_list hashed_ok (header_item HB) ?d (block_headers h1) b ?ys" using h1(2) by (simp add: hs_repr_def)
  have ys: "?ys \<noteq> []" "length ?ys = Suc (unat ?a - unat b)" using a ne by auto
  then have nh: "next_height (block_headers h1) = b + as_u32 (length ?ys)" using next_height_list [OF l] by simp
  have "unat (b + as_u32 (length ?ys)) = unat ?a + 1"
    using a new(3) unfolding ys(2) by (simp add: unat_word_ariths unat_u32_of_nat)
  then have fits: "unat (b + as_u32 (length ?ys)) + length (fc_headers cand) \<le> 500000000" using new(3) by simp
  obtain h2 where "hs_store_hashed_headers_at_height HB ?d now (fc_headers cand) (b + as_u32 (length ?ys)) h1 = (Ok (), h2)"
    "hs_repr HB ?d h2 (if ?ys = [] then b + as_u32 (length ?ys) else b) (?ys @ fc_headers cand)"
    using hs_store [OF h1(2) new(1,2) _ fits] by blast
  then show ?thesis
    using that h1(1) nh ys(1) by (simp add: switch_headers_def hs_store_hashed_headers_def)
qed

definition cut_if :: "bool \<Rightarrow> u32 \<Rightarrow> (u32 \<Rightarrow> 'i option) \<Rightarrow> u32 \<Rightarrow> 'i option" where
  "cut_if c a f = (if c then cut a f else f)"

lemma truncate_filter_headers_ok:
  assumes "has_filter_headers hdl \<Longrightarrow> cuttable filter_header_item (st_filter_header_dir st) (st_filter_headers st) a"
  obtains c where "truncate_filter_headers now hdl a st = (Ok (), st\<lparr>st_filter_headers := c\<rparr>)"
    "sc_view filter_header_item (st_filter_header_dir st) c =
      cut_if (has_filter_headers hdl) a (sc_view filter_header_item (st_filter_header_dir st) (st_filter_headers st))"
proof (cases "has_filter_headers hdl")
  case True
  obtain c where "sc_truncate_above filter_header_item (st_filter_header_dir st) now a (st_filter_headers st) = (Ok (), c)"
    "sc_view filter_header_item (st_filter_header_dir st) c = cut a (sc_view filter_header_item (st_filter_header_dir st) (st_filter_headers st))"
    using truncate_cut [OF assms [OF True] pi_filter_header.eq_sentinel] .
  then show ?thesis using that [of c] True by (simp add: truncate_filter_headers_def cut_if_def)
qed (use that [of "st_filter_headers st"] in \<open>simp add: truncate_filter_headers_def cut_if_def\<close>)

lemma truncate_filters_ok:
  assumes "has_filters hdl \<Longrightarrow> cuttable bytes_item (st_filter_dir st) (st_filters st) a"
  obtains c where "truncate_filters now hdl a st = (Ok (), st\<lparr>st_filters := c\<rparr>)"
    "sc_view bytes_item (st_filter_dir st) c =
      cut_if (has_filters hdl) a (sc_view bytes_item (st_filter_dir st) (st_filters st))"
proof (cases "has_filters hdl")
  case True
  obtain c where "sc_truncate_above bytes_item (st_filter_dir st) now a (st_filters st) = (Ok (), c)"
    "sc_view bytes_item (st_filter_dir st) c = cut a (sc_view bytes_item (st_filter_dir st) (st_filters st))"
    using truncate_cut [OF assms [OF True] pi_bytes.eq_sentinel] .
  then show ?thesis using that [of c] True by (simp add: truncate_filters_def cut_if_def)
qed (use that [of "st_filters st"] in \<open>simp add: truncate_filters_def cut_if_def\<close>)


text \<open>The hypotheses on a candidate whose cascade gets as far as the blocks.\<close>

definition reorg_ready ::
  "(u8 list \<Rightarrow> block_hash) \<Rightarrow> reorg_handles \<Rightarrow> fork_candidate \<Rightarrow> storages \<Rightarrow> u32 \<Rightarrow> hashed_header list \<Rightarrow> bool"
where
  "reorg_ready HB hdl cand st b xs \<longleftrightarrow>
     (let a = fc_ancestor_height cand in
      (\<forall>bs. length (HB bs) = 32) \<and> hs_repr HB (st_header_dir st) (st_headers st) b xs \<and>
      unat b \<le> unat a \<and> unat a < unat b + length xs \<and>
      fc_headers cand \<noteq> [] \<and> storable (take (Suc (unat a - unat b)) xs) (fc_headers cand) \<and>
      unat a + 1 + length (fc_headers cand) \<le> 500000000 \<and>
      (has_filter_headers hdl \<longrightarrow> cuttable filter_header_item (st_filter_header_dir st) (st_filter_headers st) a) \<and>
      (has_filters hdl \<longrightarrow> cuttable bytes_item (st_filter_dir st) (st_filters st) a) \<and>
      md_writable (st_metadata st))"

definition switched :: "fork_candidate \<Rightarrow> u32 \<Rightarrow> hashed_header list \<Rightarrow> hashed_header list" where
  "switched cand b xs = take (Suc (unat (fc_ancestor_height cand) - unat b)) xs @ fc_headers cand"

lemma cascade_until_blocks:
  assumes r: "reorg_ready HB hdl cand st b xs"
  obtains h cfh cf where
    "cascade HB now hdl cand st =
       truncate_blocks HB now hdl (fc_ancestor_height cand) (st\<lparr>st_headers := h, st_filter_headers := cfh, st_filters := cf\<rparr>)"
    "hs_repr HB (st_header_dir st) h b (switched cand b xs)"
    "sc_view filter_header_item (st_filter_header_dir st) cfh = cut_if (has_filter_headers hdl) (fc_ancestor_height cand)
       (sc_view filter_header_item (st_filter_header_dir st) (st_filter_headers st))"
    "sc_view bytes_item (st_filter_dir st) cf = cut_if (has_filters hdl) (fc_ancestor_height cand)
       (sc_view bytes_item (st_filter_dir st) (st_filters st))"
proof -
  let ?a = "fc_ancestor_height cand"
  have rr: "\<forall>bs. length (HB bs) = 32" "hs_repr HB (st_header_dir st) (st_headers st) b xs"
      "unat b \<le> unat ?a" "unat ?a < unat b + length xs" "fc_headers cand \<noteq> []"
      "storable (take (Suc (unat ?a - unat b)) xs) (fc_headers cand)" "unat ?a + 1 + length (fc_headers cand) \<le> 500000000"
    and cfh: "has_filter_headers hdl \<Longrightarrow> cuttable filter_header_item (st_filter_header_dir st) (st_filter_headers st) ?a"
    and cf: "has_filters hdl \<Longrightarrow> cuttable bytes_item (st_filter_dir st) (st_filters st) ?a"
    using r unfolding reorg_ready_def Let_def by blast+
  obtain h where h: "switch_headers HB now cand st = (Ok (), st\<lparr>st_headers := h\<rparr>)"
    "hs_repr HB (st_header_dir st) h b (switched cand b xs)"
    using switch_headers_ok [OF rr] unfolding switched_def .
  let ?s1 = "st\<lparr>st_headers := h\<rparr>"
  obtain cfh where fh: "truncate_filter_headers now hdl ?a ?s1 = (Ok (), ?s1\<lparr>st_filter_headers := cfh\<rparr>)"
    "sc_view filter_header_item (st_filter_header_dir st) cfh = cut_if (has_filter_headers hdl) ?a
       (sc_view filter_header_item (st_filter_header_dir st) (st_filter_headers st))"
    using truncate_filter_headers_ok [of hdl ?s1 ?a now] cfh by auto
  let ?s2 = "?s1\<lparr>st_filter_headers := cfh\<rparr>"
  obtain cf where f: "truncate_filters now hdl ?a ?s2 = (Ok (), ?s2\<lparr>st_filters := cf\<rparr>)"
    "sc_view bytes_item (st_filter_dir st) cf = cut_if (has_filters hdl) ?a
       (sc_view bytes_item (st_filter_dir st) (st_filters st))"
    using truncate_filters_ok [of hdl ?s2 ?a now] cf by auto
  have "cascade HB now hdl cand st = truncate_blocks HB now hdl ?a (?s2\<lparr>st_filters := cf\<rparr>)"
    using h(1) fh(1) f(1) by (simp add: cascade_def and_then_def)
  then show ?thesis using that h(2) fh(2) f(2) by simp
qed


lemma handle_reorg_go:
  assumes "fc_headers cand \<noteq> []" "\<not> in_flight state"
    "\<not> hm_contains (deny_list state) (hh_hash (last (fc_headers cand)))"
    "run_guards cm cl ct force (fc_ancestor_height cand) = None" "md_writable (st_metadata st)"
  shows "handle_reorg HB now hdl cm cl ct old force cand state g st =
    Some (case cascade HB now hdl cand (st\<lparr>st_metadata := (st_metadata st)\<lparr>reorg_sentinel := True\<rparr>\<rparr>) of
      (Err e, st') \<Rightarrow> (Err (sync_of_storage e), state, g + 1, st')
    | (Ok _, st') \<Rightarrow> (Ok (Some (ChainReorg (fc_ancestor_height cand) old (hh_hash (last (fc_headers cand))) (g + 1))),
        state, g + 1, st'\<lparr>st_metadata := snd (clear_reorg_sentinel (st_metadata st'))\<rparr>))"
proof -
  have "state\<lparr>in_flight := False\<rparr> = state" using assms(2) by (cases state) simp
  then show ?thesis
    using assms(1-3)
    unfolding handle_reorg_def run_guards_and_cascade_def assms(4) option.case
    by (simp add: fc_tip_hash_def write_reorg_sentinel_def assms(5) Let_def case_prod_beta split: sum.split)
qed

lemma saturating_sub_le:
  "unat (saturating_sub x y) = unat x - unat y"
  by (auto simp: saturating_sub_def word_less_nat_alt not_less unat_sub word_le_nat_alt)

lemma depth_guard_None: "depth_guard ct a = None \<longleftrightarrow> unat ct \<le> unat a + 100"
  by (auto simp: depth_guard_def Let_def MAX_REORG_DEPTH_def word_less_nat_alt saturating_sub_le)

lemma floor_guard_None:
  assumes "\<forall>cp. last_checkpoint cm = Some cp \<longrightarrow> cp_height cp < a"
  shows "floor_guard cm cl ct a = None \<longleftrightarrow> (case cl of Some h \<Rightarrow> h \<le> a | None \<Rightarrow> unat ct \<le> unat a + 100)"
proof -
  let ?c = "case last_checkpoint cm of Some cp \<Rightarrow> cp_height cp | None \<Rightarrow> 0"
  have "?c \<le> a" using assms by (auto split: option.split intro: less_imp_le)
  moreover have "saturating_sub ct FRESH_CLIENT_FORK_FLOOR \<le> a \<longleftrightarrow> unat ct \<le> unat a + 100"
    by (auto simp: word_le_nat_alt saturating_sub_le FRESH_CLIENT_FORK_FLOOR_def)
  ultimately have "a < max ?c (saturating_sub ct FRESH_CLIENT_FORK_FLOOR) \<longleftrightarrow> \<not> unat ct \<le> unat a + 100"
    by (auto simp: less_max_iff_disj not_le [symmetric])
  then show ?thesis
    by (auto simp: floor_guard_def Let_def is_below_chainlock_floor_def not_less split: option.split)
qed

lemma checkpoint_guard_None:
  "checkpoint_guard cm a = None \<longleftrightarrow> (\<forall>cp. last_checkpoint cm = Some cp \<longrightarrow> cp_height cp < a)"
  by (auto simp: checkpoint_guard_def should_reject_fork_def not_le split: option.split)

lemma run_guards_None:
  "run_guards cm cl ct force a = None \<longleftrightarrow>
     (\<forall>cp. last_checkpoint cm = Some cp \<longrightarrow> cp_height cp < a) \<and>
     (force \<or> unat ct \<le> unat a + 100 \<and> (\<forall>h. cl = Some h \<longrightarrow> h \<le> a))"
proof (cases "checkpoint_guard cm a")
  case None
  note cp = None [unfolded checkpoint_guard_None]
  show ?thesis
    using None cp floor_guard_None [OF cp, of cl ct] depth_guard_None [of ct a]
    by (cases "floor_guard cm cl ct a"; cases cl) (auto simp: run_guards_def)
next
  case (Some r)
  then show ?thesis using checkpoint_guard_None [of cm a] by (simp add: run_guards_def)
qed

lemma run_guards_event:
  assumes "run_guards cm cl ct force a = Some (ttl, Some e)"
  shows "cl \<noteq> None" "\<not> force"
proof -
  have f: "floor_guard cm cl ct a \<noteq> Some (ttl, Some e)"
    by (auto simp: floor_guard_def Let_def split: option.split)
  have c: "checkpoint_guard cm a = None"
    using assms by (cases "checkpoint_guard cm a") (auto simp: run_guards_def checkpoint_guard_def split: if_splits)
  then show force: "\<not> force" using assms by (auto simp: run_guards_def)
  have d: "floor_guard cm cl ct a = None" "depth_guard ct a = Some (ttl, Some e)"
    using assms c f force by (auto simp: run_guards_def split: option.splits)
  then show "cl \<noteq> None"
    using floor_guard_None [OF c [unfolded checkpoint_guard_None], of cl ct] depth_guard_None [of ct a]
    by (cases cl) auto
qed

section \<open>Properties\<close>

text \<open>The states of the witnesses: two headers, a fork of one header from the first, some blocks.\<close>

definition other_header :: hashed_header where
  "other_header = \<lparr>hh_header = sentinel_header\<lparr>nonce := 1\<rparr>, hh_hash = replicate 32 8\<rparr>"

definition fork_header :: hashed_header where
  "fork_header = \<lparr>hh_header = sentinel_header\<lparr>nonce := 2\<rparr>, hh_hash = replicate 32 9\<rparr>"

definition sample_candidate :: fork_candidate where
  "sample_candidate = \<lparr>fc_ancestor_height = 0, fc_headers = [fork_header], fc_total_work = cw_zero\<rparr>"

definition all_handles :: reorg_handles where
  "all_handles = \<lparr>has_filter_headers = True, has_filters = True, has_blocks = True\<rparr>"

definition idle_state :: reorg_state where
  "idle_state = \<lparr>deny_list = [], in_flight = False\<rparr>"

definition sample_storages :: "header_storage \<Rightarrow> hashed_block segment_cache \<Rightarrow> storages" where
  "sample_storages h c =
     \<lparr>st_header_dir = empty_disk, st_headers = h, st_filter_header_dir = empty_disk, st_filter_headers = sc_empty,
      st_filter_dir = empty_disk, st_filters = sc_empty, st_block_dir = empty_disk, st_blocks = c,
      st_metadata = \<lparr>reorg_sentinel = False, md_writable = True, md_removable = True\<rparr>\<rparr>"

lemmas sample_defs = sample_candidate_def fork_header_def all_handles_def idle_state_def sample_storages_def

lemma zero_hash_length: "\<forall>bs. length (zero_hash bs) = 32"
  by (simp add: zero_hash_def)

lemma cuttable_list:
  assumes "sc_list valid p d c b xs" "xs = [] \<or> b \<le> a"
  shows "cuttable p d c a"
  using assms sc_list_bounded [OF assms(1)] by (auto simp: cuttable_def sc_list_def)

lemma sample_headers: "\<exists>h. hs_repr zero_hash empty_disk h 0 [some_header, other_header]"
proof -
  have "storable [] [some_header, other_header]"
    by (simp add: storable_def some_header_def other_header_def hashed_ok_def header_valid_def sentinel_header_def)
  from hs_store [OF hs_empty_repr _ this, of 0 0] show ?thesis by auto
qed

lemma sample_blocks:
  assumes "bs \<noteq> []" "\<forall>x\<in>set bs. x = some_block" "unat b + length bs \<le> 500000000"
  shows "\<exists>c. sc_list hashed_block_ok (block_item zero_hash) empty_disk c b bs"
proof -
  have "hashed_block_ok x" "valid_item (block_item zero_hash) x" if "x \<in> set bs" for x
    unfolding bspec [OF assms(2) that] by (rule some_block_ok)+
  then have ok: "list_all hashed_block_ok bs" "list_all (valid_item (block_item zero_hash)) bs"
    unfolding list_all_iff by (iprover intro: ballI)+
  have "persistable_item (block_item zero_hash) hashed_block_ok"
    by (rule block_item_persistable) (simp add: zero_hash_def)
  then have "sc_list hashed_block_ok (block_item zero_hash) empty_disk sc_empty 0 []"
    by (intro sc_list_empty) (simp_all only: empty_disk_def disk.simps)
  then obtain c where "sc_list hashed_block_ok (block_item zero_hash) empty_disk c (if [] = ([] :: hashed_block list) then b else 0) ([] @ bs)"
    by (rule sc_list_store [OF _ assms(1) ok _ assms(3), where now = 0]) blast+
  then show ?thesis by (simp only: append_Nil if_True simp_thms) blast
qed

lemma sample_ready:
  assumes "hs_repr zero_hash empty_disk h 0 [some_header, other_header]"
  shows "reorg_ready zero_hash all_handles sample_candidate (sample_storages h c) 0 [some_header, other_header]"
proof -
  have "storable [some_header] [fork_header]"
    by (simp add: storable_def some_header_def fork_header_def hashed_ok_def header_valid_def sentinel_header_def)
  moreover have "cuttable filter_header_item empty_disk sc_empty 0" "cuttable bytes_item empty_disk sc_empty 0"
    by (rule cuttable_list [OF sc_list_empty [OF _ pi_filter_header.persistable_item_axioms]]; simp add: empty_disk_def)
      (rule cuttable_list [OF sc_list_empty [OF _ pi_bytes.persistable_item_axioms]]; simp add: empty_disk_def)
  ultimately show ?thesis
    using assms zero_hash_length by (simp add: reorg_ready_def sample_storages_def sample_candidate_def all_handles_def)
qed

lemma sample_guards: "run_guards (checkpoint_manager_new []) None 1 False 0 = None"
  by (simp add: run_guards_None last_checkpoint_def checkpoint_manager_new_def)



text \<open>
  The guards. While a cascade is in flight, and for a fork on the deny list, a call changes
  nothing. A fork a guard rejects is entered in the deny list and nothing else changes: no store,
  no generation, and the flight flag is free again. A fork passes exactly if its ancestor is
  above the last checkpoint and, unless forced, not below the best chainlock and at most 100
  below the tip; the event of a deep fork is reported only when a chainlock is known.
\<close>

theorem reorg_guarded:
  assumes tip: "fc_tip_hash cand = Some tip"
  shows "(in_flight state \<or> hm_contains (deny_list state) tip \<longrightarrow>
      handle_reorg HB now hdl cm cl ct old force cand state g st = Some (Ok None, state, g, st)) \<and>
    (\<not> in_flight state \<and> \<not> hm_contains (deny_list state) tip \<and>
      run_guards cm cl ct force (fc_ancestor_height cand) = Some (ttl, event) \<longrightarrow>
      handle_reorg HB now hdl cm cl ct old force cand state g st =
        Some (Ok event, \<lparr>deny_list = hm_insert tip ttl (deny_list state), in_flight = False\<rparr>, g, st) \<and>
      (event \<noteq> None \<longrightarrow> cl \<noteq> None \<and> \<not> force)) \<and>
    (run_guards cm cl ct force a = None \<longleftrightarrow>
      (\<forall>cp. last_checkpoint cm = Some cp \<longrightarrow> cp_height cp < a) \<and>
      (force \<or> unat ct \<le> unat a + 100 \<and> (\<forall>h. cl = Some h \<longrightarrow> h \<le> a)))"
proof (intro conjI impI)
  assume "in_flight state \<or> hm_contains (deny_list state) tip"
  then show "handle_reorg HB now hdl cm cl ct old force cand state g st = Some (Ok None, state, g, st)"
    using tip by (auto simp: handle_reorg_def)
next
  assume h: "\<not> in_flight state \<and> \<not> hm_contains (deny_list state) tip \<and>
    run_guards cm cl ct force (fc_ancestor_height cand) = Some (ttl, event)"
  then show "handle_reorg HB now hdl cm cl ct old force cand state g st =
      Some (Ok event, \<lparr>deny_list = hm_insert tip ttl (deny_list state), in_flight = False\<rparr>, g, st)"
    using tip by (cases state) (simp add: handle_reorg_def run_guards_and_cascade_def)
  assume "event \<noteq> None"
  then show "cl \<noteq> None" "\<not> force"
    using h run_guards_event by blast+
qed (rule run_guards_None)

theorem reorg_guarded_witness:
  "handle_reorg zero_hash 0 all_handles (checkpoint_manager_new []) None 500 (replicate 32 8) False sample_candidate
     idle_state 7 (sample_storages hs_empty sc_empty) =
     Some (Ok None, \<lparr>deny_list = [(replicate 32 9, 400)], in_flight = False\<rparr>, 7, sample_storages hs_empty sc_empty)"
proof -
  have "fc_tip_hash sample_candidate = Some (replicate 32 9)"
    by (simp add: fc_tip_hash_def sample_candidate_def fork_header_def)
  moreover have "run_guards (checkpoint_manager_new []) None 500 False (fc_ancestor_height sample_candidate) = Some (400, None)"
    by (simp add: run_guards_def checkpoint_guard_def floor_guard_def should_reject_fork_def last_checkpoint_def
        checkpoint_manager_new_def sample_candidate_def saturating_sub_def FRESH_CLIENT_FORK_FLOOR_def)
  ultimately show ?thesis
    using reorg_guarded [of sample_candidate "replicate 32 9" idle_state zero_hash 0 all_handles "checkpoint_manager_new []" None 500
        "replicate 32 8" False 7 "sample_storages hs_empty sc_empty" 400 None]
    by (simp add: idle_state_def)
qed

text \<open>
  C8: When the first stored block lies above the ancestor, as in the store of a wallet whose first
  matching block is recent, cutting the blocks off fails after the headers have been switched.
  The call returns an error and no event, although the header store already holds the fork and
  the generation has advanced; the marker stays set, and the blocks of the abandoned chain stay
  in the store.
\<close>

theorem reorg_stops_at_blocks:
  assumes r: "reorg_ready HB hdl cand st b xs"
    and blocks: "has_blocks hdl" "start_height (st_blocks st) = Some s" "tip_height (st_blocks st) = Some t"
      "fc_ancestor_height cand < s" "s \<le> t"
    and go: "\<not> in_flight state" "\<not> hm_contains (deny_list state) (hh_hash (last (fc_headers cand)))"
      "run_guards cm cl ct force (fc_ancestor_height cand) = None"
  shows "\<exists>st'. handle_reorg HB now hdl cm cl ct old force cand state g st =
      Some (Err (StorageError ''below start_height''), state, g + 1, st') \<and>
    hs_repr HB (st_header_dir st) (st_headers st') b (switched cand b xs) \<and>
    st_blocks st' = st_blocks st \<and> reorg_sentinel (st_metadata st')"
proof -
  let ?a = "fc_ancestor_height cand" and ?s = "st\<lparr>st_metadata := (st_metadata st)\<lparr>reorg_sentinel := True\<rparr>\<rparr>"
  have rr: "fc_headers cand \<noteq> []" "md_writable (st_metadata st)"
    using r unfolding reorg_ready_def Let_def by blast+
  have "reorg_ready HB hdl cand ?s b xs" using r by (simp add: reorg_ready_def)
  from cascade_until_blocks [OF this, where now = now] obtain h cfh cf where
    c: "cascade HB now hdl cand ?s = truncate_blocks HB now hdl ?a (?s\<lparr>st_headers := h, st_filter_headers := cfh, st_filters := cf\<rparr>)"
    "hs_repr HB (st_header_dir st) h b (switched cand b xs)"
    by simp blast
  have "\<not> t \<le> ?a" using blocks(4,5) by simp
  then have "truncate_blocks HB now hdl ?a (?s\<lparr>st_headers := h, st_filter_headers := cfh, st_filters := cf\<rparr>) =
    (Err (InvalidArgument ''below start_height''), ?s\<lparr>st_headers := h, st_filter_headers := cfh, st_filters := cf\<rparr>)"
    using blocks by (simp add: truncate_blocks_def bs_truncate_above_def sc_truncate_above_def)
  note h = handle_reorg_go [OF rr(1) go rr(2), of HB now hdl old g, unfolded c(1) this]
  show ?thesis using c(2) by (auto simp: h)
qed

theorem reorg_stops_at_blocks_witness:
  "\<exists>h c st'. hs_repr zero_hash empty_disk h 0 [some_header, other_header] \<and>
     handle_reorg zero_hash 0 all_handles (checkpoint_manager_new []) None 1 (replicate 32 8) False sample_candidate
       idle_state 0 (sample_storages h c) = Some (Err (StorageError ''below start_height''), idle_state, 1, st') \<and>
     hs_repr zero_hash empty_disk (st_headers st') 0 [some_header, fork_header] \<and>
     sc_view (block_item zero_hash) empty_disk (st_blocks st') 1 = Some some_block \<and> reorg_sentinel (st_metadata st')"
proof -
  obtain h where h: "hs_repr zero_hash empty_disk h 0 [some_header, other_header]" using sample_headers by blast
  obtain c where c: "sc_list hashed_block_ok (block_item zero_hash) empty_disk c 1 [some_block]"
    using sample_blocks [of "[some_block]" 1] by auto
  have v: "sc_view (block_item zero_hash) empty_disk c 1 = Some some_block"
    using c by (simp add: sc_list_def list_view_def)
  have blocks: "has_blocks all_handles" "start_height (st_blocks (sample_storages h c)) = Some 1"
    "tip_height (st_blocks (sample_storages h c)) = Some 1" "fc_ancestor_height sample_candidate < 1"
    using c by (simp_all add: sample_storages_def all_handles_def sample_candidate_def sc_list_def list_tip_def)
  have go: "\<not> in_flight idle_state" "\<not> hm_contains (deny_list idle_state) (hh_hash (last (fc_headers sample_candidate)))"
    "run_guards (checkpoint_manager_new []) None 1 False (fc_ancestor_height sample_candidate) = None"
    using sample_guards by (simp_all add: idle_state_def sample_candidate_def)
  obtain st' where
    "handle_reorg zero_hash 0 all_handles (checkpoint_manager_new []) None 1 (replicate 32 8) False sample_candidate
      idle_state 0 (sample_storages h c) = Some (Err (StorageError ''below start_height''), idle_state, 0 + 1, st')"
    "hs_repr zero_hash (st_header_dir (sample_storages h c)) (st_headers st') 0
      (switched sample_candidate 0 [some_header, other_header])"
    "st_blocks st' = st_blocks (sample_storages h c)" "reorg_sentinel (st_metadata st')"
    using reorg_stops_at_blocks [OF sample_ready [OF h] blocks order_refl go, of 0 "replicate 32 8" 0] by blast
  then show ?thesis
    using h v by (intro exI [of _ h] exI [of _ c] exI [of _ st'])
      (simp add: sample_candidate_def sample_storages_def fork_header_def switched_def)
qed

end
