(* ===== verification/Spec2Isabelle.thy ===== *)
theory Spec2Isabelle
  imports Fork_Buffer Merkle_Block Block_Filter Blocks_Manager Storage Checkpoints Reorg
begin

text \<open>
  A verification library for the Rust workspace \<open>rust-dashcore\<close>: the data types and consensus
  code of the crate \<open>dash\<close> and the header, storage and block download parts of the light client
  \<open>dash-spv\<close>. The definitions are a shallow embedding of the sources, one definition per
  function, in the order of the files.

  \<^bold>\<open>The program.\<close> \<open>dash\<close> (\<open>src/dash\<close>) holds the wire formats: integers, hashes, headers,
  transactions with their special payloads, blocks, Merkle blocks and compact filters, and the
  proof-of-work arithmetic. \<open>dash-spv\<close> (\<open>src/dash-spv\<close>) synchronises a wallet without the full
  chain: header batches are validated (\<open>validation\<close>, \<open>chain\<close>), branches that compete with the
  active chain are staged (\<open>sync/block_headers/fork_buffer.rs\<close>), headers, filters and blocks are
  kept in segmented files (\<open>storage\<close>), and the blocks whose filters match a wallet are downloaded
  and handed to the wallets in order (\<open>sync/blocks\<close>, over \<open>sync/download_coordinator.rs\<close>).

  \<^bold>\<open>Conventions.\<close> An unsigned machine integer is a word of its width; it wraps and its shifts
  use the low bits of their amount, as the release profile does. \<open>usize\<close> is \<open>nat\<close>, with the
  wrap-around written out where a caller's value can overflow it. A \<open>Result\<close> is a sum with the error on the left (\<open>Err\<close>,
  \<open>Ok\<close>); where the code can panic, an outer \<open>None\<close> is the panic. A struct is a record, an enum a
  datatype, a method a function from the old state to the result and the new state. A hash map is
  an association list with distinct keys (\<open>hm_get\<close>, \<open>hm_insert\<close>, \<open>hm_remove\<close>), an ordered map
  a sorted one; both are instances of the locale \<open>map_ops\<close>. A byte reader is a function from the
  remaining bytes to a result and the rest. The clock is an argument \<open>now\<close>, and a channel a list of the messages sent with the number after which its receiver
  goes away. Hash functions (\<open>SHA-256d\<close>, \<open>X11\<close>, \<open>SipHash\<close>), signature checks and the wallet
  are parameters; a property that needs something of them names it as a hypothesis, and its
  witness instantiates the parameter.

  \<^bold>\<open>The theories.\<close>

  \<^item> \<open>Prelude\<close>: words and their byte encodings, results, maps, generic lemmas.

  \<^item> \<open>U256_Arith\<close>, \<open>Pow\<close> (\<open>src/dash/src/pow.rs\<close>): the 256-bit integer with shifts, division
    and decimal output, targets, work, the compact encoding and \<open>is_met_by\<close>. The operations are
    exact or wrap modulo \<open>2 ^ 256\<close>; the compact encoding round-trips up to its precision;
    multiplication is exact below 192 bits of the second factor, and wrong above, which is a finding.

  \<^item> \<open>Network_Params\<close> (\<open>src/dash-network\<close>, \<open>src/dash/src/consensus/params.rs\<close>,
    \<open>src/dash/src/network/constants.rs\<close>): networks, their parsing and constants.

  \<^item> \<open>Consensus\<close> (\<open>src/dash/src/consensus/encode.rs\<close>): readers and writers, variable-length
    integers, vectors, checksummed data. The locale \<open>codec\<close> says that decoding inverts encoding
    on well-formed values whatever follows, \<open>canonical_codec\<close> that nothing else is accepted; the
    types of the later theories are interpretations, so that their round trips compose.

  \<^item> \<open>Block_Header\<close>, \<open>Chain_Work\<close>, \<open>Chain_Types\<close> (\<open>block.rs\<close>, \<open>chain/chain_work.rs\<close>,
    \<open>chain/chain_tip.rs\<close>, \<open>types.rs\<close>, \<open>validation/header.rs\<close>): headers and their proof of
    work, accumulated work, headers with cached hashes, fork candidates, batch validation.

  \<^item> \<open>Difficulty\<close> (\<open>chain/difficulty.rs\<close>): Dark Gravity Wave with its own limb arithmetic, shown
    to compute the average-target formula for the spacing and the limit the code gives, and to stay
    within that limit. Comments in the sources give other values for both, which are findings.

  \<^item> \<open>Fork_Buffer\<close> (\<open>sync/block_headers/fork_buffer.rs\<close>): the staged branches, every operation,
    an inductive relation of the operations with the invariant of every reachable state
    (connected, valid, accumulated work exact, capacity limits), and the selection of a winner.

  \<^item> \<open>Checkpoints\<close> (\<open>chain/checkpoints.rs\<close>, the decoder of \<open>src/hashes/src/hex.rs\<close>): the
    manager and both tables. The lookups return what they promise; every entry parses and meets
    its target; one mainnet entry carries a wrong time, with the consequence proved.

  \<^item> \<open>Merkle\<close>, \<open>Merkle_Block\<close> (\<open>merkle_tree/mod.rs\<close>, \<open>merkle_tree/block.rs\<close>): the in-place
    and the recursive root agree with the node hashes of the partial tree, whose \<open>u32\<close> functions
    compute the tree over natural numbers up to \<open>2 ^ 31\<close> leaves; partial trees are complete and
    sound up to hash collisions.

  \<^item> \<open>Block_Filter\<close> (\<open>bip158.rs\<close>): bit streams, Golomb-Rice codes, filter writer and reader,
    matching; a filter matches every element it was built from, and what it decodes to is exact.

  \<^item> \<open>Llmq\<close> (\<open>sml/llmq_type\<close>): quorum types, parameters, and the mining windows over a height
    range, with termination of the loop over cycles.

  \<^item> \<open>Witness\<close>, \<open>Tx_Parts\<close>, \<open>Special_Tx\<close>, \<open>Special_Tx_Codec\<close>, \<open>Transaction\<close>,
    \<open>Transaction_Codec\<close>, \<open>Block\<close> (\<open>blockdata\<close>): the witness buffer refines a list of byte
    strings; inputs, outputs and addresses; the special payloads with their announced lengths;
    transactions with sizes, weights and ids; blocks and their commitments. Decoding accepts
    exactly the encodings of well-formed values, except where the code is laxer, which the
    statements say.

  \<^item> \<open>Download_Coordinator\<close>, \<open>Blocks_Pipeline\<close>, \<open>Blocks_Manager\<close> (\<open>sync/download_coordinator.rs\<close>,
    \<open>sync/blocks\<close>): the queue with retries, the pipeline over it, and the manager. The locale
    \<open>download_queue\<close> is what the pipeline relies on. A key the coordinator holds
    leaves it only by a response, a cancellation, a clear or a failed send; limits hold in every
    reachable state, and under fair delivery every matched block is processed. A send that fails
    strands the keys it took, which is a finding.

  \<^item> \<open>Segment_Cache\<close>, \<open>Segment_List\<close>, \<open>Storage\<close> (\<open>storage/segments.rs\<close>,
    \<open>storage/block_headers.rs\<close>, \<open>filter_headers.rs\<close>, \<open>filters.rs\<close>, \<open>blocks.rs\<close>): segments of
    50000 items with an eviction cache over files. The locale \<open>persistable_item\<close> is what a store
    promises of its items. The cache refines a map from heights to items whatever is evicted; a
    store used densely refines a list, also across persist and reopen; the header store with its
    index by hash is such a list.

  \<^item> \<open>Reorg\<close> (\<open>sync/reorg.rs\<close>, the marker of \<open>storage/metadata.rs\<close>): the guards of a fork
    candidate and the cascade over the four stores. A cascade that completes leaves the old headers
    up to the ancestor followed by the fork and nothing above the ancestor elsewhere; a rejected
    candidate changes only the deny list; a block store that starts above the ancestor stops the
    cascade half way, which is a finding.

  \<^bold>\<open>Bounds.\<close> Recursion is structural or has a termination proof; nothing runs on fuel. The loops
  with a measure are the sending and processing loops (each round takes a key from the queue),
  the bit streams and Golomb-Rice codes (each step consumes bits), the chunked reading of byte
  vectors, the levels of a Merkle tree, the walk over a witness buffer and the search for the
  highest readable height. The loop over mining windows can run forever; it is a partial function
  whose value \<open>None\<close> is not returning, and a theorem gives range ends for which it
  returns and one for which it does not.
  Statements over dense stores assume heights below 500 million: there segment numbers outgrow
  the four digits of the file names the code matches.

  \<^bold>\<open>Not modelled.\<close> The following parts are left out, for these reasons. \<open>key-wallet\<close>,
  \<open>key-wallet-manager\<close> and the key, address, script, signature-hash, taproot and PSBT code of
  \<open>dash\<close>: they rest on elliptic-curve and BLS libraries that are not part of the sources, and the
  client uses the wallets through an interface that is a parameter here. \<open>hashes\<close> beyond the
  hexadecimal decoder: the digests enter the properties only as functions. The masternode list
  engine, chain locks and instant locks: dominated by signature verification of the same
  libraries. The network and peer manager, the sync coordinator and the client life cycle:
  concurrent input and output over sockets and channels, of which the components above see only
  the messages. The lock file, peer and metadata stores, the marker apart: reads and writes of single files. The
  foreign-function crates, the RPC client and its JSON types, the seed lists and their fetcher,
  logging and the command-line tools: bindings and input and output without behaviour of their
  own. Serialisation with serde and the formatting of values for people. Within the modelled
  files, the \<open>Debug\<close>, \<open>Display\<close> and test code, log output, and the asynchronous wrappers that
  only lock a value and call a modelled function.
\<close>

end
